(* ===== verification/Prelude.thy ===== *)
theory Prelude
  imports Main "HOL-Library.Multiset" "HOL-Library.Monad_Syntax"
begin

text \<open>
  What the component theories share: Go's fixed-width integers and durations, the reading of a
  panic as \<open>None\<close>, the development's theorem collections, and generic facts on lists.

  A Go operation that may panic is a function into \<open>option\<close>: \<open>None\<close> is the panic, and the
  \<open>do\<close> notation of the option monad propagates it. A Go \<open>error\<close> result is a value (see
  theory Contracts), never a panic. Go's \<open>int64\<close> (and \<open>int\<close> on a 64-bit platform) is an
  \<open>int\<close> whose arithmetic is written with \<open>wrap64\<close> wherever the code computes; lengths and
  slice indices are \<open>nat\<close>.
\<close>

named_theorems world_simps \<open>projections of the state after an operation\<close>
named_theorems component_defs \<open>definitions of the operations, unfolded together\<close>

section \<open>Integers of fixed width\<close>

type_synonym int64 = int
type_synonym duration = int
type_synonym unix_time = int

definition wrap64 :: "int \<Rightarrow> int64" where
  "wrap64 x = (x + 2 ^ 63) mod 2 ^ 64 - 2 ^ 63"

definition wrap32 :: "int \<Rightarrow> int" where
  "wrap32 x = (x + 2 ^ 31) mod 2 ^ 32 - 2 ^ 31"

definition in_int64 :: "int \<Rightarrow> bool" where
  "in_int64 x \<longleftrightarrow> - (2 ^ 63) \<le> x \<and> x < 2 ^ 63"

definition max_int64 :: int64 where
  "max_int64 = 2 ^ 63 - 1"

text \<open>Go's remainder truncates towards zero: the result has the sign of the dividend.\<close>

definition go_rem :: "int \<Rightarrow> int \<Rightarrow> int" where
  "go_rem a b = sgn a * (\<bar>a\<bar> mod \<bar>b\<bar>)"

text \<open>\<open>time.Second\<close> and \<open>time.Millisecond\<close>: a duration counts nanoseconds.\<close>

definition second :: duration where
  "second = 1000000000"

definition millisecond :: duration where
  "millisecond = 1000000"

text \<open>
  A clock reading \<open>time.Now()\<close> is the time since the epoch in nanoseconds; \<open>Unix()\<close> rounds it
  down to seconds.
\<close>

definition Unix :: "int \<Rightarrow> unix_time" where
  "Unix now = now div second"

lemma in_int64_wrap64 [simp, intro]: "in_int64 (wrap64 x)"
  by (simp add: in_int64_def wrap64_def)

lemma wrap64_id: "in_int64 x \<Longrightarrow> wrap64 x = x"
  by (simp add: in_int64_def wrap64_def)

lemma wrap64_wrap64 [simp]: "wrap64 (wrap64 x) = wrap64 x"
  by (rule wrap64_id) simp

lemma wrap64_zero [simp]: "wrap64 0 = 0"
  by (simp add: wrap64_def)

lemma wrap64_cong: "x mod 2 ^ 64 = y mod 2 ^ 64 \<Longrightarrow> wrap64 x = wrap64 y"
  unfolding wrap64_def by (metis mod_add_left_eq)

lemma wrap64_mod [simp]: "wrap64 x mod 2 ^ 64 = x mod 2 ^ 64"
proof -
  have "wrap64 x mod 2 ^ 64 = ((x + 2 ^ 63) - 2 ^ 63) mod 2 ^ 64"
    unfolding wrap64_def by (rule mod_diff_left_eq)
  then show ?thesis by simp
qed

lemma wrap64_add_left [simp]: "wrap64 (wrap64 a + b) = wrap64 (a + b)"
  by (rule wrap64_cong) (metis mod_add_left_eq wrap64_mod)

lemma wrap64_add_right [simp]: "wrap64 (a + wrap64 b) = wrap64 (a + b)"
  by (rule wrap64_cong) (metis mod_add_right_eq wrap64_mod)

lemma wrap32_id: "- (2 ^ 31) \<le> x \<Longrightarrow> x < 2 ^ 31 \<Longrightarrow> wrap32 x = x"
  by (simp add: wrap32_def)

lemma go_rem_nonneg: "0 \<le> a \<Longrightarrow> 0 < b \<Longrightarrow> go_rem a b = a mod b"
  by (cases "a = 0") (auto simp: go_rem_def)

section \<open>Options\<close>

text \<open>
  Every constructor of the code completes its options with \<open>mergo.Merge(options, defaults)\<close>, a
  third-party function that is a parameter of the models. Its documented behaviour is stated per
  options record with \<open>fill_zero\<close>: a field of \<open>options\<close> that has Go's zero value takes the
  default, any other field is kept.
\<close>

definition fill_zero :: "int \<Rightarrow> int \<Rightarrow> int" where
  "fill_zero d s = (if d = 0 then s else d)"

section \<open>Lists\<close>

lemma list_swap_map:
  "i < length xs \<Longrightarrow> j < length xs \<Longrightarrow>
    map f (xs[i := xs ! j, j := xs ! i]) = (map f xs)[i := map f xs ! j, j := map f xs ! i]"
  by (simp add: map_update)

lemma set_list_swap:
  "i < length xs \<Longrightarrow> j < length xs \<Longrightarrow> set (xs[i := xs ! j, j := xs ! i]) = set xs"
  by (metis mset_swap set_mset_mset)

lemma distinct_list_swap:
  "i < length xs \<Longrightarrow> j < length xs \<Longrightarrow> distinct (xs[i := xs ! j, j := xs ! i]) = distinct xs"
  by (metis mset_eq_imp_distinct_iff mset_swap)

lemma mset_butlast: "xs \<noteq> [] \<Longrightarrow> mset (butlast xs) = mset xs - {#last xs#}"
  by (induction xs rule: rev_induct) auto

lemma sum_fun_upd:
  fixes f :: "'p \<Rightarrow> 'm::comm_monoid_add" and g :: "nat \<Rightarrow> 'p" and k n :: nat
  assumes "k < n"
  shows "(\<Sum>j<n. f ((g(k := v)) j)) + f (g k) = (\<Sum>j<n. f (g j)) + f v"
proof -
  have s: "(\<Sum>j<n. f (h j)) = f (h k) + (\<Sum>j \<in> {..<n} - {k}. f (h j))" for h :: "nat \<Rightarrow> 'p"
    using assms by (intro sum.remove) simp_all
  have "(\<Sum>j \<in> {..<n} - {k}. f ((g(k := v)) j)) = (\<Sum>j \<in> {..<n} - {k}. f (g j))" by (rule sum.cong) auto
  then show ?thesis unfolding s [of "g(k := v)"] s [of g] by (simp add: ac_simps)
qed

end
