(* ===== verification/Contracts.thy ===== *)
theory Contracts
  imports Prelude
begin

text \<open>
  The data every component exchanges: \<open>domain/task.go\<close>, the sentinel errors, levels and topics
  of \<open>contracts/contracts.go\<close>, the other packages' sentinel errors, and \<open>util.Contains\<close>.
  A Go result of type \<open>error\<close> is a \<open>go_error option\<close> whose \<open>None\<close> is \<open>nil\<close>; sentinel errors
  are compared by identity in the code, which is equality of constructors here.
\<close>

section \<open>Tasks\<close>

record task =
  task_id :: string
  exec_time :: int64

section \<open>Errors\<close>

datatype go_error =
    TmErrorCreatingTasks | TmErrorUuidIsNotCorrect | TmErrorTaskExist
  | TmErrorConfirmationTasks | TmErrorGetTasks | TmErrorCollectionsNotFound
  | TmErrorDeletingTask | TmErrorTaskNotFound
  | RepoErrorCountingTasks | RepoErrorCreatingTask | RepoErrorDeletingTask
  | RepoErrorGettingTasks | RepoErrorFindingTasks | RepoErrorNoTasksFound
  | RepoErrorNoCollections | RepoErrorTaskExist | RepoErrorDeadlock
  | RepoErrorLockWaitTimeout | RepoErrorSchemaSetup
  | MonitoringErrorTopicIsNotInitialized | MonitoringErrorTopicExist
  | OtherError string

fun error_text :: "go_error \<Rightarrow> string" where
  "error_text TmErrorCreatingTasks = ''cannot create task''"
| "error_text TmErrorUuidIsNotCorrect = ''uuid of the task is not correct''"
| "error_text TmErrorTaskExist = ''task with this uuid already exist''"
| "error_text TmErrorConfirmationTasks = ''cannot confirm execution of tasks''"
| "error_text TmErrorGetTasks = ''cannot get any tasks''"
| "error_text TmErrorCollectionsNotFound = ''collections not found''"
| "error_text TmErrorDeletingTask = ''cannot delete task''"
| "error_text TmErrorTaskNotFound = ''task not found''"
| "error_text RepoErrorCountingTasks = ''counting the task was fail''"
| "error_text RepoErrorCreatingTask = ''creating the task was fail''"
| "error_text RepoErrorDeletingTask = ''deleting the task was fail''"
| "error_text RepoErrorGettingTasks = ''getting the tasks were fail''"
| "error_text RepoErrorFindingTasks = ''finding the tasks were fail''"
| "error_text RepoErrorNoTasksFound = ''no tasks found''"
| "error_text RepoErrorNoCollections = ''collections are over''"
| "error_text RepoErrorTaskExist = ''task with the uuid already exist''"
| "error_text RepoErrorDeadlock = ''deadlock, please retry''"
| "error_text RepoErrorLockWaitTimeout = ''lock wait timeout exceeded''"
| "error_text RepoErrorSchemaSetup = ''schema setup failed''"
| "error_text MonitoringErrorTopicIsNotInitialized = ''the topic is not initialized''"
| "error_text MonitoringErrorTopicExist = ''the topic exist''"
| "error_text (OtherError msg) = msg"

fun Contains :: "go_error list \<Rightarrow> go_error \<Rightarrow> bool" where
  "Contains [] e = False"
| "Contains (a # s) e = (if a = e then True else Contains s e)"

lemma Contains_iff [simp]: "Contains s e \<longleftrightarrow> e \<in> set s"
  by (induction s) auto

section \<open>Event levels\<close>

datatype level = LevelFatal | LevelError | LevelDebug

section \<open>Monitoring topics\<close>

type_synonym topic = string

definition WaitingForConfirmation :: topic where
  "WaitingForConfirmation = ''waiting_for_confirmation''"
definition ConfirmationRate :: topic where
  "ConfirmationRate = ''confirmation_rate''"
definition Preloaded :: topic where
  "Preloaded = ''preloaded''"
definition PreloadingRate :: topic where
  "PreloadingRate = ''preloading_rate''"
definition CreatingRate :: topic where
  "CreatingRate = ''creating_rate''"
definition DeletingRate :: topic where
  "DeletingRate = ''deleting_rate''"
definition SendingRate :: topic where
  "SendingRate = ''sending_rate''"
definition AllTasks :: topic where
  "AllTasks = ''all''"

lemmas topic_defs = WaitingForConfirmation_def ConfirmationRate_def Preloaded_def
  PreloadingRate_def CreatingRate_def DeletingRate_def SendingRate_def AllTasks_def

end
