(* ===== verification/Wakeup.thy ===== *)
theory Wakeup
  imports Prelude
begin

text \<open>
  The hand-over protocol that \<open>error_service\<close> and \<open>sender_service\<close> both use between goroutines
  that fill a mutex-protected queue and one goroutine that empties it: after a push the producer
  puts a token into a channel of capacity 1 unless \<open>len(updateQueue)\<close> says there is one already;
  the consumer pops until the queue is empty and then receives from the channel. The length
  check and the send are two steps, between which other goroutines run.

  The queue is a parameter (its \<open>push\<close>, which may panic, and its \<open>pop\<close>); the locale names what the
  protocol needs of it, and proves that no wake-up is lost.
\<close>

datatype producer_pc = Idle | Pushed | Sending

datatype consumer_pc = Popping | Receiving | Returned

record 'q wakeup =
  shared :: 'q
  tokens :: nat
  producer :: "nat \<Rightarrow> producer_pc"
  consumer :: consumer_pc

text \<open>
  \<open>ends e\<close>: the consumer returns after it has popped \<open>e\<close>. The queue operations run under the
  queue's mutex, so each is one step.
\<close>

inductive wakeup_step ::
    "('p \<Rightarrow> 'q \<Rightarrow> 'q option) \<Rightarrow> ('q \<Rightarrow> ('e \<times> 'q) option) \<Rightarrow> ('e \<Rightarrow> bool) \<Rightarrow>
     'q wakeup \<Rightarrow> 'q wakeup \<Rightarrow> bool"
  for push pop ends where
  push: "producer s p = Idle \<Longrightarrow> push e (shared s) = Some q \<Longrightarrow>
    wakeup_step push pop ends s (s\<lparr>shared := q, producer := (producer s)(p := Pushed)\<rparr>)"
| check_empty: "producer s p = Pushed \<Longrightarrow> tokens s = 0 \<Longrightarrow>
    wakeup_step push pop ends s (s\<lparr>producer := (producer s)(p := Sending)\<rparr>)"
| check_full: "producer s p = Pushed \<Longrightarrow> tokens s \<noteq> 0 \<Longrightarrow>
    wakeup_step push pop ends s (s\<lparr>producer := (producer s)(p := Idle)\<rparr>)"
| send: "producer s p = Sending \<Longrightarrow> tokens s < 1 \<Longrightarrow>
    wakeup_step push pop ends s
      (s\<lparr>tokens := Suc (tokens s), producer := (producer s)(p := Idle)\<rparr>)"
| pop: "consumer s = Popping \<Longrightarrow> pop (shared s) = Some (e, q) \<Longrightarrow>
    wakeup_step push pop ends s
      (s\<lparr>shared := q, consumer := (if ends e then Returned else Popping)\<rparr>)"
| pop_empty: "consumer s = Popping \<Longrightarrow> pop (shared s) = None \<Longrightarrow>
    wakeup_step push pop ends s (s\<lparr>consumer := Receiving\<rparr>)"
| receive: "consumer s = Receiving \<Longrightarrow> tokens s > 0 \<Longrightarrow>
    wakeup_step push pop ends s (s\<lparr>tokens := tokens s - 1, consumer := Popping\<rparr>)"

definition wakeup_init :: "'q \<Rightarrow> 'q wakeup" where
  "wakeup_init q = \<lparr>shared = q, tokens = 0, producer = (\<lambda>_. Idle), consumer = Popping\<rparr>"

inductive wakeup_reachable ::
    "('p \<Rightarrow> 'q \<Rightarrow> 'q option) \<Rightarrow> ('q \<Rightarrow> ('e \<times> 'q) option) \<Rightarrow> ('e \<Rightarrow> bool) \<Rightarrow> 'q \<Rightarrow>
     'q wakeup \<Rightarrow> bool"
  for push pop ends q0 where
  start: "wakeup_reachable push pop ends q0 (wakeup_init q0)"
| step: "wakeup_reachable push pop ends q0 s \<Longrightarrow> wakeup_step push pop ends s t \<Longrightarrow>
    wakeup_reachable push pop ends q0 t"

text \<open>
  \<open>signal_due s\<close>: a token is there for the consumer, or a producer has pushed and is yet to look
  whether one is.
\<close>

definition signal_due :: "'q wakeup \<Rightarrow> bool" where
  "signal_due s \<longleftrightarrow> tokens s > 0 \<or> (\<exists>p. producer s p \<noteq> Idle)"

text \<open>
  The finishing steps of goroutines that have already pushed, and of the consumer, and that they can
  bring the consumer back to the queue.
\<close>

inductive finishing ::
    "('p \<Rightarrow> 'q \<Rightarrow> 'q option) \<Rightarrow> ('q \<Rightarrow> ('e \<times> 'q) option) \<Rightarrow> ('e \<Rightarrow> bool) \<Rightarrow>
     'q wakeup \<Rightarrow> 'q wakeup \<Rightarrow> bool"
  for push pop ends where
  finished: "finishing push pop ends s s"
| more: "wakeup_step push pop ends s t \<Longrightarrow> shared t = shared s \<Longrightarrow> finishing push pop ends t u \<Longrightarrow>
    finishing push pop ends s u"

definition wakes :: "('p \<Rightarrow> 'q \<Rightarrow> 'q option) \<Rightarrow> ('q \<Rightarrow> ('e \<times> 'q) option) \<Rightarrow> ('e \<Rightarrow> bool) \<Rightarrow>
    'q wakeup \<Rightarrow> bool" where
  "wakes push pop ends s \<longleftrightarrow>
     (\<exists>t. finishing push pop ends s t \<and> consumer t = Popping \<and> shared t = shared s)"

lemma wakes_step:
  assumes "wakeup_step push pop ends s t" "shared t = shared s" "wakes push pop ends t"
  shows "wakes push pop ends s"
proof -
  from assms(3) obtain u where "finishing push pop ends t u" "consumer u = Popping"
    "shared u = shared t" by (auto simp: wakes_def)
  with assms(1,2) have "finishing push pop ends s u" "shared u = shared s"
    by (auto intro: finishing.more)
  with \<open>consumer u = Popping\<close> show ?thesis by (auto simp: wakes_def)
qed

lemma receive_wakes:
  assumes "consumer s = Receiving" "tokens s > 0"
  shows "wakes push pop ends s"
proof (rule wakes_step)
  let ?t = "s\<lparr>tokens := tokens s - 1, consumer := Popping\<rparr>"
  show "wakeup_step push pop ends s ?t" using assms by (rule wakeup_step.receive)
  show "shared ?t = shared s" by simp
  show "wakes push pop ends ?t" unfolding wakes_def
    by (rule exI [of _ ?t]) (simp add: finishing.finished)
qed

lemma sending_wakes:
  assumes "consumer s = Receiving" "producer s p = Sending"
  shows "wakes push pop ends s"
proof (cases "tokens s > 0")
  case False
  let ?t = "s\<lparr>tokens := Suc (tokens s), producer := (producer s)(p := Idle)\<rparr>"
  show ?thesis
  proof (rule wakes_step)
    show "wakeup_step push pop ends s ?t" using assms False by (intro wakeup_step.send) auto
    show "shared ?t = shared s" by simp
    show "wakes push pop ends ?t" by (rule receive_wakes) (use assms in auto)
  qed
qed (rule receive_wakes [OF assms(1)])

lemma due_wakes:
  assumes "consumer s = Receiving" "signal_due s"
  shows "wakes push pop ends s"
proof (cases "tokens s > 0")
  case False
  with assms obtain p where p: "producer s p \<noteq> Idle" by (auto simp: signal_due_def)
  show ?thesis
  proof (cases "producer s p")
    case Pushed
    let ?t = "s\<lparr>producer := (producer s)(p := Sending)\<rparr>"
    show ?thesis
    proof (rule wakes_step)
      show "wakeup_step push pop ends s ?t"
        using Pushed False by (intro wakeup_step.check_empty) auto
      show "shared ?t = shared s" by simp
      show "wakes push pop ends ?t" by (rule sending_wakes [of _ p]) (use assms in auto)
    qed
  qed (use p assms sending_wakes in auto)
qed (rule receive_wakes [OF assms(1)])

locale signalled_queue =
  fixes push :: "'p \<Rightarrow> 'q \<Rightarrow> 'q option"
    and pop :: "'q \<Rightarrow> ('e \<times> 'q) option"
    and contents :: "'q \<Rightarrow> 'e list"
  assumes pop_empty: "contents q = [] \<Longrightarrow> pop q = None"
    and pop_Some: "contents q = e # es \<Longrightarrow> \<exists>q'. pop q = Some (e, q') \<and> contents q' = es"
begin

lemma pop_None_iff: "pop q = None \<longleftrightarrow> contents q = []"
  using pop_empty [of q] pop_Some [of q] by (cases "contents q") auto

lemma step_wakes:
  "wakeup_step push pop ends s t \<Longrightarrow>
    tokens s \<le> 1 \<and> (consumer s = Receiving \<longrightarrow> contents (shared s) \<noteq> [] \<longrightarrow> signal_due s) \<Longrightarrow>
    tokens t \<le> 1 \<and> (consumer t = Receiving \<longrightarrow> contents (shared t) \<noteq> [] \<longrightarrow> signal_due t)"
  by (induction rule: wakeup_step.induct) (auto simp: signal_due_def pop_None_iff)

lemma no_lost_wakeup:
  "wakeup_reachable push pop ends q0 s \<Longrightarrow>
    tokens s \<le> 1 \<and> (consumer s = Receiving \<longrightarrow> contents (shared s) \<noteq> [] \<longrightarrow> signal_due s)"
proof (induction rule: wakeup_reachable.induct)
  case start
  show ?case by (simp add: wakeup_init_def)
next
  case (step s t)
  from step_wakes [OF step.hyps(2) step.IH] show ?case .
qed

text \<open>
  So a consumer asleep over a filled queue is woken by the goroutines already under way: no
  further push is needed.
\<close>

lemma sleeper_wakes:
  assumes "wakeup_reachable push pop ends q0 s" "consumer s = Receiving" "contents (shared s) \<noteq> []"
  shows "wakes push pop ends s"
  using due_wakes no_lost_wakeup assms by blast

end

end
