(* ===== verification/Error_Service.thy ===== *)
theory Error_Service
  imports Contracts Wakeup
begin

text \<open>
  \<open>error_service\<close>: the bounded queue of events (\<open>event_queue.go\<close>) and the event handler
  (\<open>error_handler.go\<close>) with its constructor, \<open>New\<close> and \<open>Run\<close>. The user's handler functions are
  outside the program: the model keeps which levels have one and records the events they are
  called with. The time of an event and the caller's position (\<open>runtime.Caller\<close>) are inputs.
\<close>

section \<open>Events\<close>

record 'x event_error =
  ev_time :: int
  ev_level :: level
  ev_message :: string
  ev_method :: string
  ev_line :: int
  ev_file :: string
  ev_extra :: "'x option"

record caller =
  caller_method :: string
  caller_line :: int
  caller_file :: string

definition SlowEventHandler :: go_error where
  "SlowEventHandler = OtherError ''event handler is very slow; some messages are lost''"

definition EventQueueIsEmpty :: go_error where
  "EventQueueIsEmpty = OtherError ''event queue is empty''"

definition ErrorServiceClosed :: go_error where
  "ErrorServiceClosed = OtherError ''error service closed''"

section \<open>The event queue\<close>

record 'x eventQueue =
  maxQueueCap :: int
  event_list :: "'x event_error list"

text \<open>\<open>t.queue[2:]\<close> panics on a queue of fewer than two events. \<open>now\<close> is the clock at the push.\<close>

definition slow_notice :: "int \<Rightarrow> 'x event_error" where
  "slow_notice now = \<lparr>ev_time = now, ev_level = LevelError, ev_message = error_text SlowEventHandler,
     ev_method = [], ev_line = 0, ev_file = [], ev_extra = None\<rparr>"

definition eventQueue_Push :: "int \<Rightarrow> 'x event_error \<Rightarrow> 'x eventQueue \<Rightarrow> 'x eventQueue option" where
  "eventQueue_Push now event t =
     (if int (length (event_list t)) = maxQueueCap t then
        if length (event_list t) < 2 then None
        else Some (t\<lparr>event_list := drop 2 (event_list t) @ [slow_notice now] @ [event]\<rparr>)
      else Some (t\<lparr>event_list := event_list t @ [event]\<rparr>))"

text \<open>On the empty queue the event is the zero value and the error is \<open>EventQueueIsEmpty\<close>.\<close>

definition zero_event :: "'x event_error" where
  "zero_event = \<lparr>ev_time = 0, ev_level = LevelFatal, ev_message = [], ev_method = [], ev_line = 0,
     ev_file = [], ev_extra = None\<rparr>"

definition eventQueue_Pop ::
    "'x eventQueue \<Rightarrow> 'x event_error \<times> go_error option \<times> 'x eventQueue" where
  "eventQueue_Pop t =
     (case event_list t of
        event # rest \<Rightarrow> (event, None, t\<lparr>event_list := rest\<rparr>)
      | [] \<Rightarrow> (zero_event, Some EventQueueIsEmpty, t))"

section \<open>The event handler\<close>

record error_options =
  opt_EventHandlers :: "level set"
  opt_Debug :: bool
  opt_EventCap :: int

text \<open>
  \<open>updateQueue\<close> is a channel of capacity 1: the number of tokens in it and whether it is closed
  (nothing in the code closes it). \<open>handled\<close> lists the events the handlers were called with.
\<close>

record 'x event_handler =
  eventQueue :: "'x eventQueue"
  updateQueue :: nat
  updateQueue_closed :: bool
  eventHandlers :: "level set"
  debug :: bool
  handled :: "'x event_error list"

definition documented_error_merge ::
    "(error_options \<Rightarrow> error_options \<Rightarrow> error_options option) \<Rightarrow> bool" where
  "documented_error_merge merge \<longleftrightarrow> (\<forall>d s. merge d s = Some
     \<lparr>opt_EventHandlers = (if opt_EventHandlers d = {} then opt_EventHandlers s else opt_EventHandlers d),
      opt_Debug = (opt_Debug d \<or> opt_Debug s),
      opt_EventCap = fill_zero (opt_EventCap d) (opt_EventCap s)\<rparr>)"

text \<open>A \<open>None\<close> of \<open>merge\<close> is an error of \<open>mergo.Merge\<close>, on which the constructor panics.\<close>

definition error_service_New ::
    "(error_options \<Rightarrow> error_options \<Rightarrow> error_options option) \<Rightarrow> error_options option \<Rightarrow>
     'x event_handler option" where
  "error_service_New merge options = do {
     let options = (case options of
         None \<Rightarrow> \<lparr>opt_EventHandlers = {}, opt_Debug = False, opt_EventCap = 0\<rparr> | Some opts \<Rightarrow> opts);
     options \<leftarrow> merge options \<lparr>opt_EventHandlers = {}, opt_Debug = False, opt_EventCap = 1000\<rparr>;
     Some \<lparr>eventQueue = \<lparr>maxQueueCap = opt_EventCap options, event_list = []\<rparr>,
       updateQueue = 0, updateQueue_closed = False, eventHandlers = opt_EventHandlers options,
       debug = opt_Debug options, handled = []\<rparr>
   }"

text \<open>The event \<open>New\<close> builds; \<open>where\<close> is \<open>None\<close> when \<open>runtime.Caller\<close> knows nothing.\<close>

definition new_event :: "int \<Rightarrow> caller option \<Rightarrow> level \<Rightarrow> string \<Rightarrow> 'x option \<Rightarrow> 'x event_error" where
  "new_event now at level eventMessage extra =
     (let e = \<lparr>ev_time = now, ev_level = level, ev_message = eventMessage, ev_method = [], ev_line = 0,
         ev_file = [], ev_extra = extra\<rparr>
      in case at of None \<Rightarrow> e
         | Some c \<Rightarrow> e\<lparr>ev_line := caller_line c, ev_file := caller_file c, ev_method := caller_method c\<rparr>)"

text \<open>
  \<open>New\<close> without interleaving (\<open>pushed_at\<close> is the clock inside \<open>Push\<close>): the channel of capacity 1
  is empty when the length check passes, so the send does not block.
\<close>

definition EventHandler_New ::
    "int \<Rightarrow> int \<Rightarrow> caller option \<Rightarrow> level \<Rightarrow> string \<Rightarrow> 'x option \<Rightarrow> 'x event_handler \<Rightarrow>
     'x event_handler option" where
  "EventHandler_New now pushed_at at level eventMessage extra eh =
     (if \<not> debug eh \<and> level = LevelDebug then Some eh
      else do {
        q \<leftarrow> eventQueue_Push pushed_at (new_event now at level eventMessage extra) (eventQueue eh);
        let eh = eh\<lparr>eventQueue := q\<rparr>;
        Some (if updateQueue eh = 0 then eh\<lparr>updateQueue := 1\<rparr> else eh)
      })"

text \<open>
  One iteration of the loop of \<open>Run\<close>: it goes on, returns an error, or waits for a token.
\<close>

datatype run_result = RunNext | RunReturns go_error | RunWaits

definition Run_iteration :: "'x event_handler \<Rightarrow> run_result \<times> 'x event_handler" where
  "Run_iteration eh =
     (let (event, err, q) = eventQueue_Pop (eventQueue eh); eh = eh\<lparr>eventQueue := q\<rparr>
      in if err \<noteq> Some EventQueueIsEmpty then
           if ev_level event \<notin> eventHandlers eh then (RunNext, eh)
           else let eh = eh\<lparr>handled := handled eh @ [event]\<rparr>
                in if ev_level event = LevelFatal then (RunReturns (OtherError (ev_message event)), eh)
                   else (RunNext, eh)
         else if 0 < updateQueue eh then (RunNext, eh\<lparr>updateQueue := updateQueue eh - 1\<rparr>)
         else if updateQueue_closed eh then (RunReturns ErrorServiceClosed, eh)
         else (RunWaits, eh))"

text \<open>
  \<open>Run\<close> up to the point where it returns or waits; every iteration before that uses up an event
  or a token.
\<close>

lemma Run_iteration_decreases:
  "Run_iteration eh = (RunNext, eh') \<Longrightarrow>
    length (event_list (eventQueue eh')) + updateQueue eh' < length (event_list (eventQueue eh)) + updateQueue eh"
  by (auto simp: Run_iteration_def eventQueue_Pop_def Let_def split: list.splits if_splits)

function EventHandler_Run :: "'x event_handler \<Rightarrow> run_result \<times> 'x event_handler" where
  "EventHandler_Run eh =
     (case Run_iteration eh of
        (RunNext, eh') \<Rightarrow> EventHandler_Run eh'
      | (r, eh') \<Rightarrow> (r, eh'))"
  by pat_completeness auto
termination
  by (relation "measure (\<lambda>eh. length (event_list (eventQueue eh)) + updateQueue eh)")
     (auto dest: Run_iteration_decreases [OF sym])

declare EventHandler_Run.simps [simp del]

section \<open>The handler under interleaving\<close>

text \<open>
  \<open>New\<close> called by any number of goroutines while \<open>Run\<close> empties the queue: the protocol of theory
  Wakeup with the event queue. A producer pushes an event together with the clock of its push.
\<close>

definition push_at :: "int \<times> 'x event_error \<Rightarrow> 'x eventQueue \<Rightarrow> 'x eventQueue option" where
  "push_at e = eventQueue_Push (fst e) (snd e)"

definition next_event :: "'x eventQueue \<Rightarrow> ('x event_error \<times> 'x eventQueue) option" where
  "next_event t = (case eventQueue_Pop t of (e, None, t') \<Rightarrow> Some (e, t') | (_, Some _, _) \<Rightarrow> None)"

definition ends_run :: "level set \<Rightarrow> 'x event_error \<Rightarrow> bool" where
  "ends_run handlers e \<longleftrightarrow> ev_level e = LevelFatal \<and> LevelFatal \<in> handlers"

definition handler_reachable :: "level set \<Rightarrow> 'x eventQueue \<Rightarrow> 'x eventQueue wakeup \<Rightarrow> bool" where
  "handler_reachable handlers = wakeup_reachable push_at next_event (ends_run handlers)"

definition handler_step :: "level set \<Rightarrow> 'x eventQueue wakeup \<Rightarrow> 'x eventQueue wakeup \<Rightarrow> bool" where
  "handler_step handlers = wakeup_step push_at next_event (ends_run handlers)"

lemma next_event_simps:
  "event_list t = [] \<Longrightarrow> next_event t = None"
  "event_list t = e # es \<Longrightarrow> next_event t = Some (e, t\<lparr>event_list := es\<rparr>)"
  by (simp_all add: next_event_def eventQueue_Pop_def)

interpretation event_signal: signalled_queue push_at next_event event_list
  by unfold_locales (simp_all add: next_event_simps)

section \<open>Lemmas\<close>

definition empty_eventQueue :: "int \<Rightarrow> 'x eventQueue" where
  "empty_eventQueue cap = \<lparr>maxQueueCap = cap, event_list = []\<rparr>"

fun push_events :: "(int \<times> 'x event_error) list \<Rightarrow> 'x eventQueue \<Rightarrow> 'x eventQueue option" where
  "push_events [] t = Some t"
| "push_events (e # es) t = Option.bind (push_at e t) (push_events es)"

lemma push_at_room:
  "int (length (event_list t)) \<noteq> maxQueueCap t \<Longrightarrow>
    push_at e t = Some (t\<lparr>event_list := event_list t @ [snd e]\<rparr>)"
  by (simp add: push_at_def eventQueue_Push_def)

lemma push_at_full:
  "int (length (event_list t)) = maxQueueCap t \<Longrightarrow> 2 \<le> maxQueueCap t \<Longrightarrow>
    push_at e t = Some (t\<lparr>event_list := drop 2 (event_list t) @ [slow_notice (fst e), snd e]\<rparr>)"
  by (simp add: push_at_def eventQueue_Push_def)

lemma push_at_bounded:
  assumes "2 \<le> maxQueueCap t" "int (length (event_list t)) \<le> maxQueueCap t"
  obtains t' where "push_at e t = Some t'" "maxQueueCap t' = maxQueueCap t"
    "int (length (event_list t')) \<le> maxQueueCap t" "last (event_list t') = snd e"
    "event_list t' \<noteq> []"
    "set (event_list t') \<subseteq> set (event_list t) \<union> {slow_notice (fst e), snd e}"
proof (cases "int (length (event_list t)) = maxQueueCap t")
  case True
  show ?thesis
  proof (rule that)
    show "push_at e t = Some (t\<lparr>event_list := drop 2 (event_list t) @ [slow_notice (fst e), snd e]\<rparr>)"
      using True assms(1) by (rule push_at_full)
  qed (use True assms in \<open>auto dest: in_set_dropD\<close>)
next
  case False
  show ?thesis
  proof (rule that)
    show "push_at e t = Some (t\<lparr>event_list := event_list t @ [snd e]\<rparr>)"
      using False by (rule push_at_room)
  qed (use False assms in auto)
qed

lemma push_events_bounded:
  "2 \<le> maxQueueCap t \<Longrightarrow> int (length (event_list t)) \<le> maxQueueCap t \<Longrightarrow>
    \<exists>t'. push_events es t = Some t' \<and> int (length (event_list t')) \<le> maxQueueCap t \<and>
      (es \<noteq> [] \<longrightarrow> event_list t' \<noteq> [] \<and> last (event_list t') = snd (last es)) \<and>
      set (event_list t') \<subseteq> set (event_list t) \<union> snd ` set es \<union> slow_notice ` fst ` set es"
proof (induction es arbitrary: t)
  case Nil
  then show ?case by simp
next
  case (Cons e es)
  from Cons.prems obtain t1 where t1: "push_at e t = Some t1" "maxQueueCap t1 = maxQueueCap t"
    "int (length (event_list t1)) \<le> maxQueueCap t" "last (event_list t1) = snd e" "event_list t1 \<noteq> []"
    "set (event_list t1) \<subseteq> set (event_list t) \<union> {slow_notice (fst e), snd e}"
    by (rule push_at_bounded)
  with Cons.IH [of t1] Cons.prems obtain t' where t': "push_events es t1 = Some t'"
    "int (length (event_list t')) \<le> maxQueueCap t"
    "es \<noteq> [] \<longrightarrow> event_list t' \<noteq> [] \<and> last (event_list t') = snd (last es)"
    "set (event_list t') \<subseteq> set (event_list t1) \<union> snd ` set es \<union> slow_notice ` fst ` set es"
    by auto
  have "event_list t' \<noteq> [] \<and> last (event_list t') = snd (last (e # es))"
  proof (cases "es = []")
    case True
    with t'(1) have "t' = t1" by simp
    with True t1(4,5) show ?thesis by simp
  next
    case False
    with t'(3) show ?thesis by simp
  qed
  moreover have "set (event_list t') \<subseteq>
      set (event_list t) \<union> snd ` set (e # es) \<union> slow_notice ` fst ` set (e # es)"
    using t'(4) t1(6) by (auto dest!: subsetD)
  moreover have "push_events (e # es) t = Some t'" using t1(1) t'(1) by simp
  ultimately show ?case using t'(2) by blast
qed

text \<open>What \<open>Run\<close> does with the events in the queue.\<close>

abbreviation pending :: "'x event_handler \<Rightarrow> 'x event_error list" where
  "pending eh \<equiv> event_list (eventQueue eh)"

definition has_handler :: "'x event_handler \<Rightarrow> 'x event_error \<Rightarrow> bool" where
  "has_handler eh e \<longleftrightarrow> ev_level e \<in> eventHandlers eh"

lemma Run_event:
  assumes "pending eh = e # es"
  shows "EventHandler_Run eh =
    (let eh' = eh\<lparr>eventQueue := (eventQueue eh)\<lparr>event_list := es\<rparr>,
           handled := handled eh @ (if has_handler eh e then [e] else [])\<rparr>
     in if ends_run (eventHandlers eh) e then (RunReturns (OtherError (ev_message e)), eh')
        else EventHandler_Run eh')"
proof -
  have upd: "eh\<lparr>handled := handled eh\<rparr> = eh" by simp
  show ?thesis
    using assms by (subst EventHandler_Run.simps)
      (simp add: Run_iteration_def eventQueue_Pop_def ends_run_def has_handler_def Let_def upd)
qed

lemma Run_empty:
  assumes "pending eh = []" "\<not> updateQueue_closed eh"
  shows "EventHandler_Run eh = (RunWaits, eh\<lparr>updateQueue := 0\<rparr>)"
  using assms
proof (induction "updateQueue eh" arbitrary: eh)
  case 0
  then show ?case
    by (subst EventHandler_Run.simps)
      (simp add: Run_iteration_def eventQueue_Pop_def Let_def EventQueueIsEmpty_def)
next
  case (Suc n)
  from Suc.hyps(1) [of "eh\<lparr>updateQueue := n\<rparr>"] Suc.prems Suc.hyps(2)
  have "EventHandler_Run (eh\<lparr>updateQueue := n\<rparr>) = (RunWaits, eh\<lparr>updateQueue := 0\<rparr>)" by simp
  moreover have "updateQueue eh - 1 = n" "0 < updateQueue eh" using Suc.hyps(2) by auto
  ultimately show ?case
    using Suc.prems by (subst EventHandler_Run.simps)
      (simp add: Run_iteration_def eventQueue_Pop_def Let_def EventQueueIsEmpty_def)
qed

lemma Run_spec:
  fixes eh :: "'x event_handler"
  assumes "\<not> updateQueue_closed eh"
  defines "stop \<equiv> ends_run (eventHandlers eh)"
  defines "before \<equiv> takeWhile (\<lambda>e. \<not> stop e) (pending eh)"
  shows "EventHandler_Run eh =
    (case dropWhile (\<lambda>e. \<not> stop e) (pending eh) of
       [] \<Rightarrow> (RunWaits, eh\<lparr>eventQueue := (eventQueue eh)\<lparr>event_list := []\<rparr>, updateQueue := 0,
               handled := handled eh @ filter (has_handler eh) before\<rparr>)
     | e # rest \<Rightarrow> (RunReturns (OtherError (ev_message e)),
               eh\<lparr>eventQueue := (eventQueue eh)\<lparr>event_list := rest\<rparr>,
               handled := handled eh @ filter (has_handler eh) before @ [e]\<rparr>))"
  using assms(1) unfolding before_def stop_def
proof (induction "pending eh" arbitrary: eh)
  case Nil
  then have q: "pending eh = []" by simp
  have "(eventQueue eh)\<lparr>event_list := []\<rparr> = eventQueue eh" using q by simp
  with Nil(2) show ?case by (simp add: Run_empty q)
next
  case (Cons e es)
  note pend = Cons.hyps(2) [symmetric]
  define eh' where "eh' = eh\<lparr>eventQueue := (eventQueue eh)\<lparr>event_list := es\<rparr>,
    handled := handled eh @ (if has_handler eh e then [e] else [])\<rparr>"
  have eh': "pending eh' = es" "eventHandlers eh' = eventHandlers eh" "has_handler eh' = has_handler eh"
    "updateQueue_closed eh' = updateQueue_closed eh"
    by (auto simp: eh'_def has_handler_def)
  show ?case
  proof (cases "ends_run (eventHandlers eh) e")
    case True
    then have "has_handler eh e" by (simp add: ends_run_def has_handler_def)
    with True show ?thesis by (simp add: Run_event [OF pend] pend)
  next
    case False
    have run: "EventHandler_Run eh = EventHandler_Run eh'"
      using False by (simp add: Run_event [OF pend] eh'_def)
    have IH: "EventHandler_Run eh' =
      (case dropWhile (\<lambda>e. \<not> ends_run (eventHandlers eh) e) es of
         [] \<Rightarrow> (RunWaits, eh'\<lparr>eventQueue := (eventQueue eh')\<lparr>event_list := []\<rparr>, updateQueue := 0,
             handled := handled eh' @ filter (has_handler eh) (takeWhile (\<lambda>e. \<not> ends_run (eventHandlers eh) e) es)\<rparr>)
       | e # rest \<Rightarrow> (RunReturns (OtherError (ev_message e)),
             eh'\<lparr>eventQueue := (eventQueue eh')\<lparr>event_list := rest\<rparr>,
             handled := handled eh' @ filter (has_handler eh) (takeWhile (\<lambda>e. \<not> ends_run (eventHandlers eh) e) es) @ [e]\<rparr>))"
      by (rule Cons.hyps(1) [of eh', unfolded eh', OF refl Cons.prems])
    show ?thesis
      unfolding run IH pend using False
      by (cases "dropWhile (\<lambda>e. \<not> ends_run (eventHandlers eh) e) es")
         (simp_all add: eh'_def del: dropWhile_eq_Nil_conv)
  qed
qed

text \<open>
  A goroutine that has seen \<open>len(updateQueue) == 0\<close> sends without looking again. When \<open>Run\<close> has
  returned and another goroutine's token is in the channel, that send never happens.
\<close>

definition stuck :: "nat \<Rightarrow> 'q wakeup \<Rightarrow> bool" where
  "stuck p s \<longleftrightarrow> consumer s = Returned \<and> tokens s = 1 \<and> producer s p = Sending"

lemma stuck_step: "handler_step handlers s t \<Longrightarrow> stuck p s \<Longrightarrow> stuck p t"
  unfolding handler_step_def
  by (induction rule: wakeup_step.induct) (auto simp: stuck_def)

lemma stuck_forever: "(handler_step handlers)\<^sup>*\<^sup>* s t \<Longrightarrow> stuck p s \<Longrightarrow> stuck p t"
  by (induction rule: rtranclp_induct) (auto intro: stuck_step)

definition blocked_forever :: "level set \<Rightarrow> nat \<Rightarrow> 'x eventQueue wakeup \<Rightarrow> bool" where
  "blocked_forever handlers p s \<longleftrightarrow>
     (\<forall>t. (handler_step handlers)\<^sup>*\<^sup>* s t \<longrightarrow> producer t p = Sending)"

lemma stuck_blocked: "stuck p s \<Longrightarrow> blocked_forever handlers p s"
  unfolding blocked_forever_def using stuck_forever stuck_def by blast

text \<open>The run that leads there: two goroutines push and both find the channel empty.\<close>

definition stuck_run :: "'x eventQueue wakeup list" where
  "stuck_run =
     (let q1 = (empty_eventQueue 1000)\<lparr>event_list := [zero_event]\<rparr>;
          q2 = (empty_eventQueue 1000)\<lparr>event_list := [zero_event, zero_event]\<rparr>;
          mk = (\<lambda>q n p0 p1 c. \<lparr>shared = q, tokens = n,
                  producer = (\<lambda>_. Idle)(0 := p0, 1 := p1), consumer = c\<rparr>)
      in [mk (empty_eventQueue 1000) 0 Idle Idle Popping, mk q1 0 Pushed Idle Popping,
          mk q2 0 Pushed Pushed Popping, mk q2 0 Sending Pushed Popping,
          mk q2 0 Sending Sending Popping, mk q2 1 Idle Sending Popping,
          mk q1 1 Idle Sending Returned])"

lemma stuck_run_steps:
  assumes "k < 6"
  shows "handler_step {LevelFatal} (stuck_run ! k) (stuck_run ! Suc k)"
proof -
  from assms consider "k = 0" | "k = 1" | "k = 2" | "k = 3" | "k = 4" | "k = 5" by linarith
  then show ?thesis
  proof cases
    assume "k = 0"
    with wakeup_step.push [of "stuck_run ! 0" 0 push_at "(0, zero_event)" "shared (stuck_run ! 1)" next_event "ends_run {LevelFatal}"]
    show ?thesis
      by (simp add: handler_step_def stuck_run_def Let_def push_at_room empty_eventQueue_def fun_upd_twist)
  next
    assume "k = 1"
    with wakeup_step.push [of "stuck_run ! 1" 1 push_at "(0, zero_event)" "shared (stuck_run ! 2)" next_event "ends_run {LevelFatal}"]
    show ?thesis
      by (simp add: handler_step_def stuck_run_def Let_def push_at_room empty_eventQueue_def fun_upd_twist)
  next
    assume "k = 2"
    with wakeup_step.check_empty [of "stuck_run ! 2" 0 push_at next_event "ends_run {LevelFatal}"]
    show ?thesis by (simp add: handler_step_def stuck_run_def Let_def fun_upd_twist)
  next
    assume "k = 3"
    with wakeup_step.check_empty [of "stuck_run ! 3" 1 push_at next_event "ends_run {LevelFatal}"]
    show ?thesis by (simp add: handler_step_def stuck_run_def Let_def fun_upd_twist)
  next
    assume "k = 4"
    with wakeup_step.send [of "stuck_run ! 4" 0 push_at next_event "ends_run {LevelFatal}"]
    show ?thesis by (simp add: handler_step_def stuck_run_def Let_def fun_upd_twist)
  next
    assume "k = 5"
    with wakeup_step.pop [of "stuck_run ! 5" next_event zero_event "shared (stuck_run ! 6)" push_at "ends_run {LevelFatal}"]
    show ?thesis
      by (simp add: handler_step_def stuck_run_def Let_def next_event_simps empty_eventQueue_def ends_run_def zero_event_def)
  qed
qed

lemma stuck_run_reachable:
  "k \<le> 6 \<Longrightarrow>
    handler_reachable {LevelFatal} (empty_eventQueue 1000) (stuck_run ! k :: 'x eventQueue wakeup)"
proof (induction k)
  case 0
  have "(stuck_run ! 0 :: 'x eventQueue wakeup) = wakeup_init (empty_eventQueue 1000)"
    by (auto simp: stuck_run_def Let_def wakeup_init_def)
  then show ?case by (simp add: handler_reachable_def wakeup_reachable.start)
next
  case (Suc k)
  then show ?case
    using stuck_run_steps [of k] wakeup_reachable.step
    unfolding handler_reachable_def handler_step_def by fastforce
qed

section \<open>Properties\<close>

text \<open>
  C28: With a capacity of at least two, the event queue never panics and never exceeds its
  capacity, however many events are pushed; the latest event is always in it, and it holds
  nothing but pushed events and notices of lost ones.
\<close>

theorem event_queue_bounded:
  assumes "2 \<le> cap"
  shows "\<exists>t. push_events es (empty_eventQueue cap) = Some t \<and> int (length (event_list t)) \<le> cap \<and>
    (es \<noteq> [] \<longrightarrow> last (event_list t) = snd (last es)) \<and>
    set (event_list t) \<subseteq> snd ` set es \<union> slow_notice ` fst ` set es"
  using push_events_bounded [of "empty_eventQueue cap" es] assms
  by (auto simp: empty_eventQueue_def)

theorem event_queue_bounded_witness:
  "\<exists>t. push_events [(1, zero_event), (2, zero_event), (3, zero_event)]
         (empty_eventQueue 2 :: unit eventQueue) = Some t \<and> length (event_list t) \<le> 2"
proof -
  have "2 \<le> (2::int)" by simp
  from event_queue_bounded [OF this, of "[(1, zero_event), (2, zero_event), (3, zero_event)]"]
  show ?thesis by auto
qed

text \<open>
  With \<open>EventCap\<close> 1 the handler panics on the second event that is not dropped as a debug
  event and not yet taken out: \<open>t.queue[2:]\<close> is out of range of the one-element queue.
\<close>

theorem event_cap_one_panics:
  assumes "documented_error_merge merge"
    and "error_service_New merge (Some \<lparr>opt_EventHandlers = hs, opt_Debug = d, opt_EventCap = 1\<rparr>) = Some eh"
  shows "\<exists>eh'. EventHandler_New now1 at1 c1 LevelError m1 x1 eh = Some eh' \<and>
    EventHandler_New now2 at2 c2 LevelError m2 x2 eh' = None"
proof -
  have "eventQueue eh = \<lparr>maxQueueCap = 1, event_list = []\<rparr>" "updateQueue eh = 0"
    using assms by (auto simp: error_service_New_def documented_error_merge_def fill_zero_def)
  then show ?thesis by (simp add: EventHandler_New_def eventQueue_Push_def)
qed

theorem event_cap_one_panics_witness:
  "\<exists>eh eh'. (error_service_New (\<lambda>d s. Some \<lparr>opt_EventHandlers =
         (if opt_EventHandlers d = {} then opt_EventHandlers s else opt_EventHandlers d),
         opt_Debug = (opt_Debug d \<or> opt_Debug s),
         opt_EventCap = fill_zero (opt_EventCap d) (opt_EventCap s)\<rparr>)
       (Some \<lparr>opt_EventHandlers = {}, opt_Debug = False, opt_EventCap = 1\<rparr>) :: unit event_handler option)
       = Some eh \<and>
     EventHandler_New 1 1 None LevelError ''first'' None eh = Some eh' \<and>
     EventHandler_New 2 2 None LevelError ''second'' None eh' = None"
proof -
  let ?merge = "\<lambda>d s. Some \<lparr>opt_EventHandlers =
         (if opt_EventHandlers d = {} then opt_EventHandlers s else opt_EventHandlers d),
         opt_Debug = (opt_Debug d \<or> opt_Debug s),
         opt_EventCap = fill_zero (opt_EventCap d) (opt_EventCap s)\<rparr>"
  let ?opts = "Some \<lparr>opt_EventHandlers = {}, opt_Debug = False, opt_EventCap = 1\<rparr>"
  have m: "documented_error_merge ?merge" by (simp add: documented_error_merge_def)
  obtain eh :: "unit event_handler" where eh: "error_service_New ?merge ?opts = Some eh"
    by (simp add: error_service_New_def)
  obtain eh' where "EventHandler_New 1 1 None LevelError ''first'' None eh = Some eh'"
    "EventHandler_New 2 2 None LevelError ''second'' None eh' = None"
    using event_cap_one_panics [OF m eh] by blast
  with eh show ?thesis by blast
qed

text \<open>
  C29: \<open>Run\<close> calls the registered handlers with the queued events in the order they were pushed,
  skips events of a level without a handler, and returns at the first fatal event that has a
  handler, with that event's message as its error; the events after it stay in the queue.
\<close>

theorem Run_delivers:
  fixes eh :: "'x event_handler"
  assumes "\<not> updateQueue_closed eh"
  defines "stop \<equiv> ends_run (eventHandlers eh)"
  defines "before \<equiv> takeWhile (\<lambda>e. \<not> stop e) (pending eh)"
  shows "case dropWhile (\<lambda>e. \<not> stop e) (pending eh) of
      [] \<Rightarrow> fst (EventHandler_Run eh) = RunWaits \<and> pending (snd (EventHandler_Run eh)) = [] \<and>
        handled (snd (EventHandler_Run eh)) = handled eh @ filter (has_handler eh) before
    | e # rest \<Rightarrow> fst (EventHandler_Run eh) = RunReturns (OtherError (ev_message e)) \<and>
        pending (snd (EventHandler_Run eh)) = rest \<and>
        handled (snd (EventHandler_Run eh)) = handled eh @ filter (has_handler eh) before @ [e]"
  unfolding before_def stop_def Run_spec [OF assms(1)]
  by (cases "dropWhile (\<lambda>e. \<not> ends_run (eventHandlers eh) e) (pending eh)") (simp_all del: dropWhile_eq_Nil_conv)

theorem Run_delivers_witness:
  "fst (EventHandler_Run \<lparr>eventQueue = \<lparr>maxQueueCap = 1000,
       event_list = [zero_event\<lparr>ev_level := LevelError\<rparr>, zero_event\<lparr>ev_message := ''stop''\<rparr>,
         (zero_event :: unit event_error)]\<rparr>,
     updateQueue = 1, updateQueue_closed = False, eventHandlers = {LevelFatal}, debug = False,
     handled = []\<rparr>) = RunReturns (OtherError ''stop'')"
  (is "fst (EventHandler_Run ?eh) = _")
proof -
  have "\<not> updateQueue_closed ?eh" by simp
  from Run_delivers [OF this] show ?thesis by (simp add: ends_run_def zero_event_def)
qed

text \<open>
  Without a handler for fatal events (the default options register none) no event ever makes
  \<open>Run\<close> return: fatal events are taken out of the queue and ignored.
\<close>

theorem fatal_needs_handler:
  assumes "LevelFatal \<notin> eventHandlers eh" "\<not> updateQueue_closed eh"
  shows "fst (EventHandler_Run eh) = RunWaits \<and> pending (snd (EventHandler_Run eh)) = []"
proof -
  have "dropWhile (\<lambda>e. \<not> ends_run (eventHandlers eh) e) (pending eh) = []"
    using assms(1) by (simp add: ends_run_def)
  then show ?thesis
    unfolding Run_spec [OF assms(2)] by (simp del: dropWhile_eq_Nil_conv)
qed

theorem fatal_needs_handler_witness:
  "fst (EventHandler_Run \<lparr>eventQueue = \<lparr>maxQueueCap = 1000, event_list = [zero_event :: unit event_error]\<rparr>,
     updateQueue = 1, updateQueue_closed = False, eventHandlers = {LevelError}, debug = False,
     handled = []\<rparr>) = RunWaits" (is "fst (EventHandler_Run ?eh) = _")
proof -
  have "LevelFatal \<notin> eventHandlers ?eh" "\<not> updateQueue_closed ?eh" by simp_all
  from fatal_needs_handler [OF this] show ?thesis by simp
qed

text \<open>
  C26: No event is stranded. In every interleaving of any number of goroutines calling \<open>New\<close> with
  the loop of \<open>Run\<close>, if \<open>Run\<close> waits for a token while there are events in the queue, then the
  goroutines that have already pushed wake it up: no further event is needed.
\<close>

theorem events_not_stranded:
  assumes "handler_reachable handlers t0 s" "consumer s = Receiving" "event_list (shared s) \<noteq> []"
  shows "wakes push_at next_event (ends_run handlers) s"
  using assms unfolding handler_reachable_def by (rule event_signal.sleeper_wakes)

theorem events_not_stranded_witness:
  "\<exists>s. handler_reachable {LevelFatal} (empty_eventQueue 1000 :: unit eventQueue) s \<and>
     consumer s = Receiving \<and> event_list (shared s) = [zero_event] \<and>
     wakes push_at next_event (ends_run {LevelFatal}) s"
proof -
  let ?t0 = "empty_eventQueue 1000 :: unit eventQueue"
  let ?s1 = "(wakeup_init ?t0)\<lparr>consumer := Receiving\<rparr>"
  let ?s2 = "?s1\<lparr>shared := ?t0\<lparr>event_list := [zero_event]\<rparr>, producer := (producer ?s1)(0 := Pushed)\<rparr>"
  have "handler_reachable {LevelFatal} ?t0 ?s1"
    unfolding handler_reachable_def
    by (rule wakeup_reachable.step [OF wakeup_reachable.start], rule wakeup_step.pop_empty)
       (simp_all add: wakeup_init_def empty_eventQueue_def next_event_simps)
  moreover have "wakeup_step push_at next_event (ends_run {LevelFatal}) ?s1 ?s2"
    by (rule wakeup_step.push [where e = "(0, zero_event)"])
       (simp_all add: wakeup_init_def empty_eventQueue_def push_at_room)
  ultimately have r: "handler_reachable {LevelFatal} ?t0 ?s2"
    unfolding handler_reachable_def by (rule wakeup_reachable.step)
  moreover have "consumer ?s2 = Receiving" "event_list (shared ?s2) \<noteq> []" by simp_all
  ultimately have "wakes push_at next_event (ends_run {LevelFatal}) ?s2"
    by (rule events_not_stranded)
  with r show ?thesis by (intro exI [of _ ?s2]) simp
qed

text \<open>
  C37: \<open>New\<close> is not safe to call in parallel with the end of \<open>Run\<close>: there is a reachable state from
  which, whatever happens next, a goroutine inside \<open>New\<close> never gets past its send.
\<close>

theorem New_can_block_forever:
  "\<exists>s. handler_reachable {LevelFatal} (empty_eventQueue 1000) s \<and> blocked_forever {LevelFatal} 1 s"
proof (intro exI conjI)
  show "handler_reachable {LevelFatal} (empty_eventQueue 1000) (stuck_run ! 6)"
    by (rule stuck_run_reachable) simp
  show "blocked_forever {LevelFatal} 1 (stuck_run ! 6)"
    by (rule stuck_blocked) (simp add: stuck_def stuck_run_def Let_def)
qed

end
