(* ===== verification/Monitoring_Service.thy ===== *)
theory Monitoring_Service
  imports Contracts
begin

text \<open>
  \<open>monitoring_service\<close>: the three metrics, the registry of topics with \<open>Init\<close>, \<open>Publish\<close> and
  \<open>Listen\<close>, and the loop of \<open>Run\<close> that reports to the subscriptions. A subscription channel is
  the list of the events sent to it; the goroutine behind it calls the subscriber with them in
  this order. Each metric is one atomic variable, so every \<open>Set\<close> and \<open>Get\<close> is one step.
\<close>

section \<open>Metrics\<close>

datatype metric_type = ValueMetricType | VelocityMetricType | IntegralMetricType

datatype metric = ValueMetric int64 | VelocityMetric int64 | IntegralMetric int64

text \<open>\<open>Set\<close> and \<open>Get\<close> of each metric on its variable: \<open>Get\<close> returns the value and the variable's new one.\<close>

definition ValueMetric_Set :: "int64 \<Rightarrow> int64 \<Rightarrow> int64" where
  [simp]: "ValueMetric_Set newValue m_value = newValue"

definition ValueMetric_Get :: "int64 \<Rightarrow> int64 \<times> int64" where
  [simp]: "ValueMetric_Get m_value = (m_value, m_value)"

definition VelocityMetric_Set :: "int64 \<Rightarrow> int64 \<Rightarrow> int64" where
  [simp]: "VelocityMetric_Set countItems m_countItems = wrap64 (m_countItems + countItems)"

definition VelocityMetric_Get :: "int64 \<Rightarrow> int64 \<times> int64" where
  [simp]: "VelocityMetric_Get m_countItems = (m_countItems, 0)"

definition IntegralMetric_Set :: "int64 \<Rightarrow> int64 \<Rightarrow> int64" where
  [simp]: "IntegralMetric_Set newValue m_value = wrap64 (m_value + newValue)"

definition IntegralMetric_Get :: "int64 \<Rightarrow> int64 \<times> int64" where
  [simp]: "IntegralMetric_Get m_value = (m_value, m_value)"

text \<open>The calls through \<open>MetricInterface\<close>.\<close>

fun metric_Set :: "int64 \<Rightarrow> metric \<Rightarrow> metric" where
  "metric_Set new (ValueMetric v) = ValueMetric (ValueMetric_Set new v)"
| "metric_Set new (VelocityMetric v) = VelocityMetric (VelocityMetric_Set new v)"
| "metric_Set new (IntegralMetric v) = IntegralMetric (IntegralMetric_Set new v)"

fun metric_Get :: "metric \<Rightarrow> int64 \<times> metric" where
  "metric_Get (ValueMetric v) = map_prod id ValueMetric (ValueMetric_Get v)"
| "metric_Get (VelocityMetric v) = map_prod id VelocityMetric (VelocityMetric_Get v)"
| "metric_Get (IntegralMetric v) = map_prod id IntegralMetric (IntegralMetric_Get v)"

section \<open>The service\<close>

record measurement_event =
  me_Measurement :: int64
  me_Time :: int
  me_PeriodMeasure :: duration

record monitoring =
  periodMeasure :: duration
  metrics :: "topic \<rightharpoonup> metric"
  subscriptionChs :: "topic \<rightharpoonup> measurement_event list list"

record monitoring_options =
  opt_PeriodMeasure :: duration
  opt_MonitoringEventCap :: int
  opt_Subscriptions :: "topic list"

definition documented_monitoring_merge ::
    "(monitoring_options \<Rightarrow> monitoring_options \<Rightarrow> monitoring_options option) \<Rightarrow> bool" where
  "documented_monitoring_merge merge \<longleftrightarrow> (\<forall>d s. merge d s = Some
     \<lparr>opt_PeriodMeasure = fill_zero (opt_PeriodMeasure d) (opt_PeriodMeasure s),
      opt_MonitoringEventCap = fill_zero (opt_MonitoringEventCap d) (opt_MonitoringEventCap s),
      opt_Subscriptions = (if opt_Subscriptions d = [] then opt_Subscriptions s else opt_Subscriptions d)\<rparr>)"

text \<open>
  \<open>opt_Subscriptions\<close> lists the keys of the map of callbacks. \<open>make(chan, n)\<close> panics for a
  negative \<open>n\<close>; it is called once per subscription.
\<close>

definition monitoring_New ::
    "(monitoring_options \<Rightarrow> monitoring_options \<Rightarrow> monitoring_options option) \<Rightarrow>
     monitoring_options option \<Rightarrow> monitoring option" where
  "monitoring_New merge options = do {
     let options = (case options of
         None \<Rightarrow> \<lparr>opt_PeriodMeasure = 0, opt_MonitoringEventCap = 0, opt_Subscriptions = []\<rparr>
       | Some opts \<Rightarrow> opts);
     options \<leftarrow> merge options
       \<lparr>opt_PeriodMeasure = 10 * second, opt_MonitoringEventCap = 1000, opt_Subscriptions = []\<rparr>;
     if opt_Subscriptions options \<noteq> [] \<and> opt_MonitoringEventCap options < 0 then None
     else Some \<lparr>periodMeasure = opt_PeriodMeasure options, metrics = Map.empty,
       subscriptionChs = (\<lambda>t. if t \<in> set (opt_Subscriptions options) then Some [[]] else None)\<rparr>
   }"

fun new_metric :: "metric_type \<Rightarrow> metric" where
  "new_metric IntegralMetricType = IntegralMetric 0"
| "new_metric VelocityMetricType = VelocityMetric 0"
| "new_metric ValueMetricType = ValueMetric 0"

definition monitoring_Init ::
    "topic \<Rightarrow> metric_type \<Rightarrow> monitoring \<Rightarrow> go_error option \<times> monitoring" where
  "monitoring_Init topic calcType m =
     (if metrics m topic \<noteq> None then (Some MonitoringErrorTopicExist, m)
      else (None, m\<lparr>metrics := (metrics m)(topic \<mapsto> new_metric calcType)\<rparr>))"

definition monitoring_Publish ::
    "topic \<Rightarrow> int64 \<Rightarrow> monitoring \<Rightarrow> go_error option \<times> monitoring" where
  "monitoring_Publish topic measurement m =
     (case metrics m topic of
        None \<Rightarrow> (Some MonitoringErrorTopicIsNotInitialized, m)
      | Some metric \<Rightarrow> (None, m\<lparr>metrics := (metrics m)(topic \<mapsto> metric_Set measurement metric)\<rparr>))"

text \<open>
  \<open>Listen\<close> registers a value metric; the goroutine it starts then stores \<open>callback()\<close> in it once
  per period (\<open>Listen_tick\<close>, with the callback's result as \<open>v\<close>). The metric of a topic is never
  replaced, so the goroutine's pointer is the registered metric, a value metric.
\<close>

definition monitoring_Listen :: "topic \<Rightarrow> monitoring \<Rightarrow> go_error option \<times> monitoring" where
  "monitoring_Listen topic m =
     (if metrics m topic \<noteq> None then (Some MonitoringErrorTopicExist, m)
      else (None, m\<lparr>metrics := (metrics m)(topic \<mapsto> ValueMetric 0)\<rparr>))"

definition Listen_tick :: "topic \<Rightarrow> int64 \<Rightarrow> monitoring \<Rightarrow> monitoring" where
  "Listen_tick topic v m =
     (case metrics m topic of
        Some (ValueMetric w) \<Rightarrow> m\<lparr>metrics := (metrics m)(topic \<mapsto> metric_Set v (ValueMetric w))\<rparr>
      | _ \<Rightarrow> m)"

text \<open>
  One pass of \<open>Run\<close> over the subscriptions. Go iterates over a map in no fixed order: the order,
  with the clock reading of each report, is an input.
\<close>

definition Run_topic :: "topic \<Rightarrow> int \<Rightarrow> monitoring \<Rightarrow> monitoring" where
  "Run_topic topic now m =
     (case (subscriptionChs m topic, metrics m topic) of
        (Some chs, Some metric) \<Rightarrow>
          (let (measure, metric') = metric_Get metric;
               ev = \<lparr>me_Measurement = measure, me_Time = now, me_PeriodMeasure = periodMeasure m\<rparr>
           in m\<lparr>metrics := (metrics m)(topic \<mapsto> metric'),
                subscriptionChs := (subscriptionChs m)(topic \<mapsto> map (\<lambda>ch. ch @ [ev]) chs)\<rparr>)
      | _ \<Rightarrow> m)"

fun monitoring_Run_pass :: "(topic \<times> int) list \<Rightarrow> monitoring \<Rightarrow> monitoring" where
  "monitoring_Run_pass [] m = m"
| "monitoring_Run_pass ((topic, now) # rest) m = monitoring_Run_pass rest (Run_topic topic now m)"

section \<open>Runs of the service\<close>

datatype monitoring_call =
    CallInit topic metric_type
  | CallPublish topic int64
  | CallListen topic
  | CallTick topic int64
  | CallReport topic int

fun exec_monitoring_call :: "monitoring \<Rightarrow> monitoring_call \<Rightarrow> monitoring" where
  "exec_monitoring_call m (CallInit t ty) = snd (monitoring_Init t ty m)"
| "exec_monitoring_call m (CallPublish t v) = snd (monitoring_Publish t v m)"
| "exec_monitoring_call m (CallListen t) = snd (monitoring_Listen t m)"
| "exec_monitoring_call m (CallTick t v) = Listen_tick t v m"
| "exec_monitoring_call m (CallReport t now) = Run_topic t now m"

definition monitoring_calls :: "monitoring \<Rightarrow> monitoring_call list \<Rightarrow> monitoring" where
  "monitoring_calls m cs = foldl exec_monitoring_call m cs"

fun published :: "topic \<Rightarrow> monitoring_call \<Rightarrow> int" where
  "published t (CallPublish t' v) = (if t' = t then v else 0)"
| "published t _ = 0"

definition total_published :: "topic \<Rightarrow> monitoring_call list \<Rightarrow> int" where
  "total_published t cs = sum_list (map (published t) cs)"

definition total_reported :: "measurement_event list \<Rightarrow> int" where
  "total_reported ch = sum_list (map me_Measurement ch)"

text \<open>What is still in a velocity metric, or all there is in an integral one.\<close>

fun metric_value :: "metric \<Rightarrow> int64" where
  "metric_value (ValueMetric v) = v"
| "metric_value (VelocityMetric v) = v"
| "metric_value (IntegralMetric v) = v"

lemmas monitoring_defs = monitoring_Init_def monitoring_Publish_def monitoring_Listen_def
  Listen_tick_def Run_topic_def

lemma wrap64_sum_shift: "wrap64 (a + c) = wrap64 b \<Longrightarrow> wrap64 (wrap64 (a + x) + c) = wrap64 (b + x)"
  by (metis add.assoc add.commute wrap64_add_left)

lemma velocity_call:
  assumes "metrics m t = Some (VelocityMetric v)" "subscriptionChs m t = Some [ch]"
  shows "\<exists>v' ch'. metrics (exec_monitoring_call m c) t = Some (VelocityMetric v') \<and>
    subscriptionChs (exec_monitoring_call m c) t = Some [ch @ ch'] \<and>
    wrap64 (v' + total_reported ch') = wrap64 (v + published t c)"
proof (cases "\<exists>now. c = CallReport t now")
  case True
  with assms show ?thesis by (auto simp: monitoring_defs total_reported_def)
next
  case False
  have "\<exists>v'. metrics (exec_monitoring_call m c) t = Some (VelocityMetric v') \<and> wrap64 v' = wrap64 (v + published t c)"
    using False assms
    by (cases c) (auto simp: monitoring_defs split: option.splits metric.splits prod.splits)
  moreover have "subscriptionChs (exec_monitoring_call m c) t = Some [ch @ []]"
    using False assms
    by (cases c) (auto simp: monitoring_defs split: option.splits metric.splits prod.splits)
  moreover have "total_reported [] = 0" by (simp add: total_reported_def)
  ultimately show ?thesis by (metis add.right_neutral)
qed

lemma velocity_conserved:
  "metrics m t = Some (VelocityMetric v) \<Longrightarrow> subscriptionChs m t = Some [ch] \<Longrightarrow>
    \<exists>v' ch'. metrics (monitoring_calls m cs) t = Some (VelocityMetric v') \<and>
      subscriptionChs (monitoring_calls m cs) t = Some [ch @ ch'] \<and>
      wrap64 (v' + total_reported ch') = wrap64 (v + total_published t cs)"
proof (induction cs arbitrary: m v ch)
  case Nil
  then show ?case by (simp add: monitoring_calls_def total_reported_def total_published_def)
next
  case (Cons c cs)
  from velocity_call [OF Cons.prems, of c] obtain v1 ch1 where
    1: "metrics (exec_monitoring_call m c) t = Some (VelocityMetric v1)"
      "subscriptionChs (exec_monitoring_call m c) t = Some [ch @ ch1]"
      "wrap64 (v1 + total_reported ch1) = wrap64 (v + published t c)" by blast
  from Cons.IH [OF 1(1,2)] obtain v2 ch2 where
    2: "metrics (monitoring_calls (exec_monitoring_call m c) cs) t = Some (VelocityMetric v2)"
      "subscriptionChs (monitoring_calls (exec_monitoring_call m c) cs) t = Some [(ch @ ch1) @ ch2]"
      "wrap64 (v2 + total_reported ch2) = wrap64 (v1 + total_published t cs)" by blast
  have "wrap64 (v2 + total_reported (ch1 @ ch2)) = wrap64 (wrap64 (v2 + total_reported ch2) + total_reported ch1)"
    by (simp add: total_reported_def algebra_simps)
  also have "\<dots> = wrap64 (wrap64 (v1 + total_reported ch1) + total_published t cs)"
    unfolding 2(3) by (simp add: algebra_simps)
  also have "\<dots> = wrap64 (v + total_published t (c # cs))"
    unfolding 1(3) by (simp add: total_published_def algebra_simps)
  finally show ?case using 2(1,2) by (auto simp: monitoring_calls_def)
qed

lemma integral_total_int64:
  "metrics m t = Some (IntegralMetric v) \<Longrightarrow> in_int64 v \<Longrightarrow>
    \<exists>v'. metrics (monitoring_calls m cs) t = Some (IntegralMetric v') \<and> in_int64 v' \<and>
      wrap64 v' = wrap64 (v + total_published t cs)"
proof (induction cs arbitrary: m v)
  case Nil
  then show ?case by (simp add: monitoring_calls_def total_published_def)
next
  case (Cons c cs)
  have "\<exists>v1. metrics (exec_monitoring_call m c) t = Some (IntegralMetric v1) \<and> in_int64 v1 \<and>
      wrap64 v1 = wrap64 (v + published t c)"
    using Cons.prems by (cases c) (auto simp: monitoring_defs split: option.splits metric.splits prod.splits)
  then obtain v1 where 1: "metrics (exec_monitoring_call m c) t = Some (IntegralMetric v1)" "in_int64 v1"
    "wrap64 v1 = wrap64 (v + published t c)" by blast
  from Cons.IH [OF 1(1,2)] obtain v2 where
    2: "metrics (monitoring_calls (exec_monitoring_call m c) cs) t = Some (IntegralMetric v2)" "in_int64 v2"
      "wrap64 v2 = wrap64 (v1 + total_published t cs)" by blast
  have "wrap64 v2 = wrap64 (wrap64 v1 + total_published t cs)" using 2(3) by simp
  also have "\<dots> = wrap64 (v + total_published t (c # cs))"
    unfolding 1(3) by (simp add: total_published_def algebra_simps)
  finally show ?case using 2(1,2) by (auto simp: monitoring_calls_def)
qed

section \<open>Properties\<close>

text \<open>
  C30: A velocity metric loses and invents nothing: for every interleaving of publications, reports
  and other calls, what its subscription was sent plus what is still in the metric is what was
  published on its topic (as 64-bit integers).
\<close>

theorem velocity_reports_everything:
  assumes "metrics m t = Some (VelocityMetric 0)" "subscriptionChs m t = Some [[]]"
  shows "\<exists>v ch. metrics (monitoring_calls m cs) t = Some (VelocityMetric v) \<and>
    subscriptionChs (monitoring_calls m cs) t = Some [ch] \<and>
    wrap64 (v + total_reported ch) = wrap64 (total_published t cs)"
  using velocity_conserved [OF assms, of cs] by simp

theorem velocity_reports_everything_witness:
  "\<exists>(m::monitoring) v ch. metrics m ''t'' = Some (VelocityMetric v) \<and> subscriptionChs m ''t'' = Some [ch] \<and>
     wrap64 (v + total_reported ch) = wrap64 12"
proof -
  define m :: monitoring where "m = \<lparr>periodMeasure = second, metrics = [''t'' \<mapsto> VelocityMetric 0],
    subscriptionChs = [''t'' \<mapsto> [[]]]\<rparr>"
  have h: "metrics m ''t'' = Some (VelocityMetric 0)" "subscriptionChs m ''t'' = Some [[]]"
    by (simp_all add: m_def)
  let ?cs = "[CallPublish ''t'' 5, CallReport ''t'' 1, CallPublish ''t'' 7]"
  have "total_published ''t'' ?cs = 12" by (simp add: total_published_def)
  with velocity_reports_everything [OF h, of ?cs] show ?thesis
    by (intro exI [of _ "monitoring_calls m ?cs"]) simp
qed

text \<open>
  An integral metric is the sum of everything published on its topic since it was
  initialised, whatever else is called in between; reports do not change it.
\<close>

theorem integral_is_the_sum:
  assumes "metrics m t = None"
  shows "metrics (monitoring_calls (snd (monitoring_Init t IntegralMetricType m)) cs) t =
    Some (IntegralMetric (wrap64 (total_published t cs)))"
proof -
  let ?m = "snd (monitoring_Init t IntegralMetricType m)"
  have m: "metrics ?m t = Some (IntegralMetric 0)" using assms by (simp add: monitoring_Init_def)
  have "\<exists>v. metrics (monitoring_calls ?m cs) t = Some (IntegralMetric v) \<and> in_int64 v \<and>
      wrap64 v = wrap64 (total_published t cs)"
    using integral_total_int64 [OF m] by (simp add: in_int64_def)
  then show ?thesis by (auto simp: wrap64_id)
qed

theorem integral_is_the_sum_witness:
  "metrics (monitoring_calls (snd (monitoring_Init ''all'' IntegralMetricType
       \<lparr>periodMeasure = second, metrics = Map.empty, subscriptionChs = Map.empty\<rparr>))
     [CallPublish ''all'' 5, CallReport ''all'' 1, CallPublish ''all'' (-2)]) ''all'' =
   Some (IntegralMetric 3)"
proof -
  let ?m = "\<lparr>periodMeasure = second, metrics = Map.empty, subscriptionChs = Map.empty\<rparr>"
  have "metrics ?m ''all'' = None" by simp
  from integral_is_the_sum [OF this, of "[CallPublish ''all'' 5, CallReport ''all'' 1, CallPublish ''all'' (-2)]"]
  show ?thesis by (simp add: total_published_def wrap64_def)
qed

text \<open>
  A topic is registered once: \<open>Init\<close> and \<open>Listen\<close> of a registered topic and \<open>Publish\<close> on an
  unregistered one return their error and change nothing, and \<open>Init\<close> makes \<open>Publish\<close> work.
\<close>

theorem topics_registered_once:
  "case metrics m t of
     Some _ \<Rightarrow> monitoring_Init t ty m = (Some MonitoringErrorTopicExist, m) \<and>
       monitoring_Listen t m = (Some MonitoringErrorTopicExist, m) \<and>
       fst (monitoring_Publish t v m) = None
   | None \<Rightarrow> monitoring_Publish t v m = (Some MonitoringErrorTopicIsNotInitialized, m) \<and>
       fst (monitoring_Init t ty m) = None \<and>
       fst (monitoring_Publish t v (snd (monitoring_Init t ty m))) = None"
  by (auto simp: monitoring_defs split: option.splits)

end
