(* ===== verification/World.thy ===== *)
theory World
  imports Monitoring_Service
begin

text \<open>
  The services every component is built with: the event handler and the monitoring. A component
  sees the event handler only through calls of \<open>New(level, message, extra)\<close>, so the state holds
  the calls in order (\<open>extra\<close> is diagnostic data and left out); theory Error_Service models what
  the handler does with them. The monitoring is the model of theory Monitoring_Service. The
  components' states extend this record. The clock is the sequence of the readings that successive
  calls of \<open>time.Now()\<close> return.
\<close>

record world =
  events :: "(level \<times> string) list"
  monitor :: monitoring
  clock :: "nat \<Rightarrow> int"
  clock_reads :: nat

definition time_Now :: "'a world_scheme \<Rightarrow> int \<times> 'a world_scheme" where
  "time_Now w = (clock w (clock_reads w), w\<lparr>clock_reads := Suc (clock_reads w)\<rparr>)"

definition eh_New :: "level \<Rightarrow> string \<Rightarrow> 'a world_scheme \<Rightarrow> 'a world_scheme" where
  "eh_New level eventMessage w = w\<lparr>events := events w @ [(level, eventMessage)]\<rparr>"

definition mon_Publish ::
    "topic \<Rightarrow> int64 \<Rightarrow> 'a world_scheme \<Rightarrow> go_error option \<times> 'a world_scheme" where
  "mon_Publish topic measurement w =
     (let (err, m) = monitoring_Publish topic measurement (monitor w) in (err, w\<lparr>monitor := m\<rparr>))"

definition mon_Init ::
    "topic \<Rightarrow> metric_type \<Rightarrow> 'a world_scheme \<Rightarrow> go_error option \<times> 'a world_scheme" where
  "mon_Init topic ty w =
     (let (err, m) = monitoring_Init topic ty (monitor w) in (err, w\<lparr>monitor := m\<rparr>))"

definition mon_Listen :: "topic \<Rightarrow> 'a world_scheme \<Rightarrow> go_error option \<times> 'a world_scheme" where
  "mon_Listen topic w = (let (err, m) = monitoring_Listen topic (monitor w) in (err, w\<lparr>monitor := m\<rparr>))"

text \<open>
  The idiom \<open>if err := monitoring.Publish(...); err != nil { eh.New(LevelError, err.Error(), nil) }\<close>.
\<close>

definition publish_or_log :: "topic \<Rightarrow> int64 \<Rightarrow> 'a world_scheme \<Rightarrow> 'a world_scheme" where
  "publish_or_log topic measurement w =
     (case mon_Publish topic measurement w of
        (Some err, w1) \<Rightarrow> eh_New LevelError (error_text err) w1
      | (None, w1) \<Rightarrow> w1)"

text \<open>The idiom \<open>if err := monitoring.Init(...); err != nil { panic(err) }\<close>.\<close>

definition init_or_panic :: "topic \<Rightarrow> metric_type \<Rightarrow> 'a world_scheme \<Rightarrow> 'a world_scheme option" where
  "init_or_panic topic ty w =
     (case mon_Init topic ty w of (Some err, w1) \<Rightarrow> None | (None, w1) \<Rightarrow> Some w1)"

lemma eh_New_simps [simp, world_simps]:
  "monitor (eh_New l m w) = monitor w"
  "events (eh_New l m w) = events w @ [(l, m)]"
  "world.more (eh_New l m w) = world.more w"
  "clock (eh_New l m w) = clock w"
  "clock_reads (eh_New l m w) = clock_reads w"
  by (simp_all add: eh_New_def)

lemma mon_Publish_simps [simp, world_simps]:
  "events (snd (mon_Publish t v w)) = events w"
  "world.more (snd (mon_Publish t v w)) = world.more w"
  by (simp_all add: mon_Publish_def case_prod_unfold Let_def)

lemma publish_or_log_more [simp, world_simps]:
  "world.more (publish_or_log t v w) = world.more w"
proof (cases "mon_Publish t v w")
  case (Pair e w1)
  then have "world.more w1 = world.more w" using mon_Publish_simps(2) [of t v w] by simp
  with Pair show ?thesis by (simp add: publish_or_log_def split: option.split)
qed

lemma publish_or_log_known:
  "metrics (monitor w) t = Some m \<Longrightarrow>
    events (publish_or_log t v w) = events w \<and>
    metrics (monitor (publish_or_log t v w)) = (metrics (monitor w))(t \<mapsto> metric_Set v m)"
  by (simp add: publish_or_log_def mon_Publish_def monitoring_Publish_def)

end
