(* ===== verification/Repository_Contract.thy ===== *)
theory Repository_Contract
  imports World
begin

text \<open>
  \<open>contracts.RepositoryInterface\<close>: the table of methods the task manager calls, and the contract an
  implementation promises. \<open>stored_in\<close> is the abstract content, the execution time of every stored
  task by its id; \<open>sound\<close> is what the implementation keeps of its own state.
\<close>

record 'w repository_ops =
  op_Create :: "task \<Rightarrow> bool \<Rightarrow> 'w \<Rightarrow> (go_error option \<times> 'w) option"
  op_Delete :: "task list \<Rightarrow> 'w \<Rightarrow> ((int \<times> go_error option) \<times> 'w) option"
  op_Find :: "duration \<Rightarrow> 'w \<Rightarrow> ((nat list option \<times> go_error option) \<times> 'w) option"
  op_Up :: "'w \<Rightarrow> (go_error option \<times> 'w) option"
  op_Count :: "'w \<Rightarrow> ((int \<times> go_error option) \<times> 'w) option"

text \<open>
  The result of each method as a relation between the contents before (\<open>m\<close>) and after (\<open>m'\<close>). An
  error other than the named ones may hide a success: the statement may have been done when its
  answer was lost.
\<close>

definition create_result ::
    "task \<Rightarrow> (string \<rightharpoonup> int64) \<Rightarrow> go_error option \<Rightarrow> (string \<rightharpoonup> int64) \<Rightarrow> bool" where
  "create_result t m err m' \<longleftrightarrow>
     (case err of
        None \<Rightarrow> task_id t \<notin> dom m \<and> m' = m(task_id t \<mapsto> exec_time t)
      | Some e \<Rightarrow>
          if e = RepoErrorTaskExist then task_id t \<in> dom m \<and> m' = m
          else if e = RepoErrorDeadlock then m' = m
          else e = RepoErrorCreatingTask \<and>
            (m' = m \<or> task_id t \<notin> dom m \<and> m' = m(task_id t \<mapsto> exec_time t)))"

definition delete_result ::
    "string set \<Rightarrow> (string \<rightharpoonup> int64) \<Rightarrow> int \<times> go_error option \<Rightarrow> (string \<rightharpoonup> int64) \<Rightarrow> bool" where
  "delete_result D m res m' \<longleftrightarrow>
     (case res of
        (n, None) \<Rightarrow> n = int (card (dom m \<inter> D)) \<and> m' = m |` (- D)
      | (n, Some e) \<Rightarrow> n = 0 \<and>
          (if e = RepoErrorDeadlock then m' = m
           else e = RepoErrorDeletingTask \<and> (m' = m \<or> m' = m |` (- D))))"

definition find_result :: "nat list option \<times> go_error option \<Rightarrow> bool" where
  "find_result res \<longleftrightarrow>
     (case res of
        (c, None) \<Rightarrow> c \<noteq> None
      | (c, Some e) \<Rightarrow> c = None \<and> e \<in> {RepoErrorNoTasksFound, RepoErrorFindingTasks,
          RepoErrorDeadlock, RepoErrorLockWaitTimeout})"

locale repository_contract =
  fixes R :: "'a world_scheme repository_ops"
    and sound :: "'a world_scheme \<Rightarrow> bool"
    and stored_in :: "'a world_scheme \<Rightarrow> string \<rightharpoonup> int64"
  assumes create: "sound w \<Longrightarrow> \<exists>err w'. op_Create R t isTaken w = Some (err, w') \<and> sound w' \<and>
      monitor w' = monitor w \<and> create_result t (stored_in w) err (stored_in w')"
    and delete: "sound w \<Longrightarrow> \<exists>res w'. op_Delete R ts w = Some (res, w') \<and> sound w' \<and>
      monitor w' = monitor w \<and> delete_result (task_id ` set ts) (stored_in w) res (stored_in w')"
    and find: "sound w \<Longrightarrow> \<exists>res w'. op_Find R d w = Some (res, w') \<and> sound w' \<and>
      monitor w' = monitor w \<and> stored_in w' = stored_in w \<and> find_result res"
    and count: "sound w \<Longrightarrow> \<exists>n err w'. op_Count R w = Some ((n, err), w') \<and> sound w' \<and>
      monitor w' = monitor w \<and> stored_in w' = stored_in w \<and>
      (err = None \<longrightarrow> n = int (card (dom (stored_in w))))"
    and up: "sound w \<Longrightarrow> \<exists>err w'. op_Up R w = Some (err, w') \<and> sound w' \<and>
      monitor w' = monitor w \<and> stored_in w' = stored_in w"
    and env_irrelevant: "sound w \<Longrightarrow>
      sound (w\<lparr>events := es, monitor := m, clock_reads := k\<rparr>) \<and>
      stored_in (w\<lparr>events := es, monitor := m, clock_reads := k\<rparr>) = stored_in w"
    and finite_stored: "sound w \<Longrightarrow> finite (dom (stored_in w))"

end
