(* ===== verification/Database.thy ===== *)
theory Database
  imports Contracts
begin

text \<open>
  The database as \<open>mysql_repository.go\<close> uses it: the tables its schema declares and the meaning of
  its SQL statements, among them the stored procedure \<open>create_task\<close> whose text is in the source.
  What SQL leaves open is an argument: the row a \<open>LIMIT 1\<close> picks, the order of equal sort keys
  and of rows without \<open>ORDER BY\<close> (\<open>mysql\<close>). How the server and the driver answer each call is an
  argument too: a list of outcomes that the calls use up.
\<close>

section \<open>Tables\<close>

record coll_row =
  coll_id :: nat
  coll_exec :: int
  coll_taken :: string

record task_row =
  row_uuid :: string
  row_coll :: nat

record database =
  coll_rows :: "coll_row list"
  task_rows :: "task_row list"
  next_coll_id :: nat
  has_collection_table :: bool
  has_task_table :: bool
  has_create_task :: bool

definition fresh_database :: database where
  "fresh_database = \<lparr>coll_rows = [], task_rows = [], next_coll_id = 1,
     has_collection_table = False, has_task_table = False, has_create_task = False\<rparr>"

section \<open>What the server decides\<close>

record mysql =
  pick :: "nat list \<Rightarrow> nat"
  tie_order :: "coll_row list \<Rightarrow> coll_row list"
  row_order :: "task_row list \<Rightarrow> task_row list"

definition documented_mysql :: "mysql \<Rightarrow> bool" where
  "documented_mysql my \<longleftrightarrow> (\<forall>xs. xs \<noteq> [] \<longrightarrow> pick my xs \<in> set xs) \<and>
     (\<forall>xs. mset (tie_order my xs) = mset xs) \<and> (\<forall>xs. mset (row_order my xs) = mset xs)"

definition example_mysql :: mysql where
  "example_mysql = \<lparr>pick = hd, tie_order = id, row_order = rev\<rparr>"

lemma documented_example_mysql [simp]: "documented_mysql example_mysql"
  by (simp add: documented_mysql_def example_mysql_def)

text \<open>\<open>*mysql.MySQLError\<close> with its number and message, or any other error of the driver.\<close>

datatype db_error = MySQLError nat string | DriverError string

fun db_error_text :: "db_error \<Rightarrow> string" where
  "db_error_text (MySQLError n msg) = msg"
| "db_error_text (DriverError msg) = msg"

fun has_number :: "nat \<Rightarrow> db_error \<Rightarrow> bool" where
  "has_number n (MySQLError k msg) = (k = n)"
| "has_number n (DriverError msg) = False"

definition ER_DUP_ENTRY :: nat where "ER_DUP_ENTRY = 1062"
definition ER_LOCK_WAIT_TIMEOUT :: nat where "ER_LOCK_WAIT_TIMEOUT = 1205"
definition ER_LOCK_DEADLOCK :: nat where "ER_LOCK_DEADLOCK = 1213"
definition ER_SP_ALREADY_EXISTS :: nat where "ER_SP_ALREADY_EXISTS = 1304"
definition ER_ROW_IS_REFERENCED :: nat where "ER_ROW_IS_REFERENCED = 1451"

text \<open>
  The outcome of a driver call: \<open>Acked\<close>, done and answered; \<open>Refused e\<close>, not done; \<open>Unacked e\<close>,
  done, but the caller gets an error (a lost connection, an expired context). While rows are
  read, \<open>ScanFails k\<close> is a failure to decode row \<open>k\<close>, and \<open>BreaksAfter k e\<close> the end of the rows
  after \<open>k\<close> of them with the error \<open>e\<close>; in a procedure call \<open>BreaksAfter\<close> is a failure of its last
  statement. A list that is used up goes on with \<open>Acked\<close>.
\<close>

datatype outcome =
    Acked
  | Refused db_error
  | Unacked db_error
  | ScanFails nat string
  | BreaksAfter nat db_error

fun call_error :: "outcome \<Rightarrow> db_error option" where
  "call_error (Refused e) = Some e"
| "call_error (Unacked e) = Some e"
| "call_error _ = None"

fun call_done :: "outcome \<Rightarrow> bool" where
  "call_done (Refused e) = False"
| "call_done _ = True"

text \<open>
  A deadlock, a lock wait timeout and a duplicate entry are answers of the server about a
  statement it has not done, so they never come with \<open>Unacked\<close>.
\<close>

fun documented_outcome :: "outcome \<Rightarrow> bool" where
  "documented_outcome (Unacked (MySQLError n msg)) \<longleftrightarrow>
     n \<noteq> ER_LOCK_DEADLOCK \<and> n \<noteq> ER_LOCK_WAIT_TIMEOUT \<and> n \<noteq> ER_DUP_ENTRY"
| "documented_outcome (Refused (MySQLError n msg)) \<longleftrightarrow> n \<noteq> ER_DUP_ENTRY"
| "documented_outcome (BreaksAfter k (MySQLError n msg)) \<longleftrightarrow> n \<noteq> ER_DUP_ENTRY"
| "documented_outcome _ \<longleftrightarrow> True"

section \<open>Statements\<close>

definition tasks_of_collection :: "database \<Rightarrow> nat \<Rightarrow> task_row list" where
  "tasks_of_collection db i = filter (\<lambda>t. row_coll t = i) (task_rows db)"

text \<open>\<open>SELECT count(*) FROM task\<close>\<close>

definition sql_count :: "database \<Rightarrow> nat" where
  "sql_count db = length (task_rows db)"

text \<open>
  \<open>create_task\<close>: the dynamic query that looks for a collection with room, the insertion of a new
  collection when there is none, and the insertion of the task. The statements of a procedure
  commit one by one.
\<close>

definition collections_with_room :: "database \<Rightarrow> string \<Rightarrow> int \<Rightarrow> bool \<Rightarrow> int \<Rightarrow> nat list" where
  "collections_with_room db app t is_taken limit =
     map coll_id (filter (\<lambda>c. coll_exec c = t \<and>
         (if is_taken then coll_taken c = app else coll_taken c \<noteq> app) \<and>
         int (length (tasks_of_collection db (coll_id c))) < limit) (coll_rows db))"

definition insert_collection :: "int \<Rightarrow> string \<Rightarrow> database \<Rightarrow> nat \<times> database" where
  "insert_collection t app_instance db =
     (next_coll_id db,
      db\<lparr>coll_rows := coll_rows db @ [\<lparr>coll_id = next_coll_id db, coll_exec = t, coll_taken = app_instance\<rparr>],
         next_coll_id := Suc (next_coll_id db)\<rparr>)"

definition find_or_insert_collection ::
    "mysql \<Rightarrow> string \<Rightarrow> int \<Rightarrow> bool \<Rightarrow> int \<Rightarrow> database \<Rightarrow> nat \<times> database" where
  "find_or_insert_collection my app t is_taken limit db =
     (let app_instance = (if is_taken then app else '''');
          found = collections_with_room db app t is_taken limit;
          var_collection_id = (if found = [] then 0 else pick my found)
      in if var_collection_id = 0 then insert_collection t app_instance db else (var_collection_id, db))"

definition insert_task :: "string \<Rightarrow> nat \<Rightarrow> database \<Rightarrow> db_error option \<times> database" where
  "insert_task uuid i db =
     (if uuid \<in> row_uuid ` set (task_rows db) then (Some (MySQLError ER_DUP_ENTRY ''Duplicate entry''), db)
      else (None, db\<lparr>task_rows := task_rows db @ [\<lparr>row_uuid = uuid, row_coll = i\<rparr>]\<rparr>))"

definition sql_create_task ::
    "mysql \<Rightarrow> string \<Rightarrow> string \<Rightarrow> int \<Rightarrow> bool \<Rightarrow> int \<Rightarrow> database \<Rightarrow> db_error option \<times> database" where
  "sql_create_task my app uuid t is_taken limit db =
     (let (i, db1) = find_or_insert_collection my app t is_taken limit db in insert_task uuid i db1)"

text \<open>\<open>DELETE FROM task WHERE uuid IN (...)\<close>, with the number of deleted rows.\<close>

definition sql_delete_tasks :: "string list \<Rightarrow> database \<Rightarrow> nat \<times> database" where
  "sql_delete_tasks uuids db =
     (length (filter (\<lambda>t. row_uuid t \<in> set uuids) (task_rows db)),
      db\<lparr>task_rows := filter (\<lambda>t. row_uuid t \<notin> set uuids) (task_rows db)\<rparr>)"

text \<open>The search for empty collections and their deletion, which the foreign key can refuse.\<close>

definition sql_empty_collections :: "int \<Rightarrow> database \<Rightarrow> nat list" where
  "sql_empty_collections db_now db =
     map coll_id (filter (\<lambda>c. coll_exec c < db_now - 5 \<and> tasks_of_collection db (coll_id c) = [])
       (coll_rows db))"

definition sql_delete_collections :: "nat list \<Rightarrow> database \<Rightarrow> db_error option \<times> database" where
  "sql_delete_collections ks db =
     (if \<exists>t \<in> set (task_rows db). row_coll t \<in> set ks
      then (Some (MySQLError ER_ROW_IS_REFERENCED ''Cannot delete or update a parent row''), db)
      else (None, db\<lparr>coll_rows := filter (\<lambda>c. coll_id c \<notin> set ks) (coll_rows db)\<rparr>))"

text \<open>The tasks of a collection, joined with the collection's execution time.\<close>

definition sql_tasks_by_collection :: "mysql \<Rightarrow> nat \<Rightarrow> database \<Rightarrow> task list" where
  "sql_tasks_by_collection my i db =
     concat (map (\<lambda>t. map (\<lambda>c. \<lparr>task_id = row_uuid t, exec_time = coll_exec c\<rparr>)
         (filter (\<lambda>c. coll_id c = row_coll t) (coll_rows db)))
       (row_order my (tasks_of_collection db i)))"

text \<open>The due collections another instance may hold, ordered by execution time, and their taking.\<close>

definition sql_find_collections :: "mysql \<Rightarrow> int \<Rightarrow> string \<Rightarrow> database \<Rightarrow> nat list" where
  "sql_find_collections my t app db =
     map coll_id (sort_key coll_exec (tie_order my
       (filter (\<lambda>c. coll_exec c \<le> t \<and> coll_taken c \<noteq> app) (coll_rows db))))"

definition sql_take_collections :: "string \<Rightarrow> nat list \<Rightarrow> database \<Rightarrow> database" where
  "sql_take_collections app ks db =
     db\<lparr>coll_rows := map (\<lambda>c. if coll_id c \<in> set ks then c\<lparr>coll_taken := app\<rparr> else c) (coll_rows db)\<rparr>"

section \<open>Consistency, and the abstract view\<close>

text \<open>
  \<open>db_ok\<close>: what the schema's keys guarantee. \<open>stored db\<close>: the abstract content, the execution time
  of each stored task by its id. \<open>owner db\<close>: the instance whose collection the task is in.
\<close>

definition db_ok :: "database \<Rightarrow> bool" where
  "db_ok db \<longleftrightarrow> distinct (map coll_id (coll_rows db)) \<and> distinct (map row_uuid (task_rows db)) \<and>
     (\<forall>c \<in> set (coll_rows db). 0 < coll_id c \<and> coll_id c < next_coll_id db) \<and>
     (\<forall>t \<in> set (task_rows db). row_coll t \<in> coll_id ` set (coll_rows db)) \<and> 0 < next_coll_id db"

definition coll_map :: "database \<Rightarrow> nat \<rightharpoonup> coll_row" where
  "coll_map db = map_of (map (\<lambda>c. (coll_id c, c)) (coll_rows db))"

definition task_map :: "database \<Rightarrow> string \<rightharpoonup> nat" where
  "task_map db = map_of (map (\<lambda>t. (row_uuid t, row_coll t)) (task_rows db))"

definition home :: "database \<Rightarrow> string \<rightharpoonup> coll_row" where
  "home db uuid = Option.bind (task_map db uuid) (coll_map db)"

definition stored :: "database \<Rightarrow> string \<rightharpoonup> int64" where
  "stored db uuid = map_option coll_exec (home db uuid)"

definition owner :: "database \<Rightarrow> string \<rightharpoonup> string" where
  "owner db uuid = map_option coll_taken (home db uuid)"

lemma coll_map_Some:
  "db_ok db \<Longrightarrow> coll_map db i = Some c \<longleftrightarrow> c \<in> set (coll_rows db) \<and> coll_id c = i"
  by (auto simp: coll_map_def db_ok_def comp_def map_of_eq_Some_iff)

lemma task_map_Some:
  "db_ok db \<Longrightarrow> task_map db u = Some i \<longleftrightarrow> (\<exists>t \<in> set (task_rows db). row_uuid t = u \<and> row_coll t = i)"
  by (auto simp: task_map_def db_ok_def comp_def map_of_eq_Some_iff)

lemma task_map_None: "task_map db u = None \<longleftrightarrow> u \<notin> row_uuid ` set (task_rows db)"
  by (simp add: task_map_def map_of_eq_None_iff image_image)

lemma home_task:
  assumes ok: "db_ok db" and t: "t \<in> set (task_rows db)"
  obtains c where "c \<in> set (coll_rows db)" "coll_id c = row_coll t" "home db (row_uuid t) = Some c"
proof -
  from ok t obtain c where c: "c \<in> set (coll_rows db)" "coll_id c = row_coll t"
    by (auto simp: db_ok_def)
  have "task_map db (row_uuid t) = Some (row_coll t)" using ok t by (auto simp: task_map_Some)
  moreover have "coll_map db (row_coll t) = Some c" using ok c by (auto simp: coll_map_Some)
  ultimately show ?thesis using that c by (simp add: home_def)
qed

lemma dom_home: "db_ok db \<Longrightarrow> dom (home db) = row_uuid ` set (task_rows db)"
proof (intro set_eqI iffI)
  fix u assume ok: "db_ok db"
  show "u \<in> row_uuid ` set (task_rows db)" if "u \<in> dom (home db)"
    using that task_map_None [of db u] by (cases "task_map db u") (auto simp: home_def)
  show "u \<in> dom (home db)" if "u \<in> row_uuid ` set (task_rows db)"
    using that ok by (auto elim: home_task)
qed

lemma nonempty_in_home:
  assumes ok: "db_ok db" and c: "c \<in> set (coll_rows db)"
  shows "0 < length (tasks_of_collection db (coll_id c)) \<longleftrightarrow> c \<in> ran (home db)"
proof
  assume "0 < length (tasks_of_collection db (coll_id c))"
  then obtain t where "t \<in> set (tasks_of_collection db (coll_id c))"
    by (cases "tasks_of_collection db (coll_id c)") auto
  then have t: "t \<in> set (task_rows db)" "row_coll t = coll_id c" by (auto simp: tasks_of_collection_def)
  obtain d where "d \<in> set (coll_rows db)" "coll_id d = row_coll t" "home db (row_uuid t) = Some d"
    by (rule home_task [OF ok t(1)])
  moreover from this c t(2) have "d = c" using coll_map_Some [OF ok] by (metis option.inject)
  ultimately show "c \<in> ran (home db)" by (auto simp: ran_def)
next
  assume "c \<in> ran (home db)"
  then obtain u i where "task_map db u = Some i" "coll_map db i = Some c"
    by (auto simp: ran_def home_def split: bind_split_asm)
  then obtain t where "t \<in> set (task_rows db)" "row_coll t = coll_id c"
    using ok by (auto simp: task_map_Some coll_map_Some)
  then show "0 < length (tasks_of_collection db (coll_id c))"
    by (auto simp: tasks_of_collection_def filter_empty_conv)
qed

lemma stored_None: "db_ok db \<Longrightarrow> stored db u = None \<longleftrightarrow> u \<notin> row_uuid ` set (task_rows db)"
  using dom_home [of db] by (metis domIff map_option_is_None stored_def)

lemma card_stored: "db_ok db \<Longrightarrow> card (dom (stored db)) = sql_count db"
proof -
  assume ok: "db_ok db"
  have "dom (stored db) = dom (home db)" by (auto simp: stored_def dom_def)
  then have "dom (stored db) = row_uuid ` set (task_rows db)" by (simp add: dom_home [OF ok])
  then show ?thesis
    using ok distinct_card [of "map row_uuid (task_rows db)"] by (simp add: db_ok_def sql_count_def)
qed

section \<open>What the statements do\<close>

text \<open>Inserting a collection keeps the view; inserting a task adds it with its collection.\<close>

lemma insert_collection_ok:
  assumes ok: "db_ok db" and ins: "insert_collection t app db = (i, db1)"
  shows "db_ok db1" "home db1 = home db" "task_rows db1 = task_rows db"
    "coll_map db1 i = Some \<lparr>coll_id = i, coll_exec = t, coll_taken = app\<rparr>"
    "coll_rows db1 = coll_rows db @ [\<lparr>coll_id = i, coll_exec = t, coll_taken = app\<rparr>]"
    "tasks_of_collection db1 i = []"
proof -
  let ?c = "\<lparr>coll_id = i, coll_exec = t, coll_taken = app\<rparr>"
  have d: "i = next_coll_id db" "db1 = db\<lparr>coll_rows := coll_rows db @ [?c], next_coll_id := Suc i\<rparr>"
    using ins by (auto simp: insert_collection_def)
  have new: "i \<notin> coll_id ` set (coll_rows db)" using ok d(1) by (auto simp: db_ok_def)
  show rows: "task_rows db1 = task_rows db" "coll_rows db1 = coll_rows db @ [?c]" by (simp_all add: d(2))
  show ok1: "db_ok db1" using ok new d by (auto simp: db_ok_def)
  show "coll_map db1 i = Some ?c" using ok1 rows by (simp add: coll_map_Some)
  have old: "coll_map db1 j = coll_map db j" if "j \<in> coll_id ` set (coll_rows db)" for j
  proof -
    from that obtain c where "c \<in> set (coll_rows db)" "coll_id c = j" by auto
    then have "coll_map db j = Some c" "coll_map db1 j = Some c"
      using ok ok1 rows by (simp_all add: coll_map_Some)
    then show ?thesis by simp
  qed
  show "home db1 = home db"
  proof (intro ext)
    fix u
    have same: "task_map db1 u = task_map db u" by (simp add: task_map_def rows(1))
    show "home db1 u = home db u"
    proof (cases "task_map db u")
      case None
      with same show ?thesis by (simp add: home_def)
    next
      case (Some j)
      then have "j \<in> coll_id ` set (coll_rows db)"
        using ok task_map_Some [OF ok, of u j] by (auto simp: db_ok_def)
      with Some same old show ?thesis by (simp add: home_def)
    qed
  qed
  show "tasks_of_collection db1 i = []"
    using ok new rows by (auto simp: tasks_of_collection_def db_ok_def filter_empty_conv)
qed

abbreviation coll_size :: "database \<Rightarrow> nat \<Rightarrow> nat" where
  "coll_size db i \<equiv> length (tasks_of_collection db i)"

text \<open>\<open>homed_at\<close>: a collection in which \<open>create_task\<close> may put a task.\<close>

definition homed_at :: "coll_row \<Rightarrow> int \<Rightarrow> bool \<Rightarrow> string \<Rightarrow> bool" where
  "homed_at c t is_taken app \<longleftrightarrow> coll_exec c = t \<and>
     (if is_taken then coll_taken c = app else coll_taken c = [] \<or> coll_taken c \<noteq> app)"

lemma find_or_insert_collection_ok:
  assumes ok: "db_ok db" and my: "documented_mysql my"
    and find: "find_or_insert_collection my app t is_taken limit db = (i, db1)"
  shows "db_ok db1" "home db1 = home db" "task_rows db1 = task_rows db"
    "\<exists>c. coll_map db1 i = Some c \<and> homed_at c t is_taken app"
    "coll_size db1 i = 0 \<or> int (coll_size db1 i) < limit"
proof -
  define found where "found = collections_with_room db app t is_taken limit"
  have "db_ok db1 \<and> home db1 = home db \<and> task_rows db1 = task_rows db \<and>
    (\<exists>c. coll_map db1 i = Some c \<and> homed_at c t is_taken app) \<and>
    (coll_size db1 i = 0 \<or> int (coll_size db1 i) < limit)"
  proof (cases "found = [] \<or> pick my found = 0")
    case True
    then have "insert_collection t (if is_taken then app else []) db = (i, db1)"
      using find unfolding find_or_insert_collection_def found_def [symmetric] Let_def
      by (cases "found = []") simp_all
    from insert_collection_ok [OF ok this] show ?thesis by (auto simp: homed_at_def)
  next
    case False
    then have "i = pick my found" "db1 = db"
      using find unfolding find_or_insert_collection_def found_def [symmetric] Let_def
      by simp_all
    moreover have "pick my found \<in> set found" using my False by (auto simp: documented_mysql_def)
    ultimately obtain c where c: "c \<in> set (coll_rows db)" "coll_id c = i" "coll_exec c = t"
      "if is_taken then coll_taken c = app else coll_taken c \<noteq> app" "int (coll_size db i) < limit"
      by (auto simp: found_def collections_with_room_def)
    then have "coll_map db i = Some c" using ok by (simp add: coll_map_Some)
    with c ok \<open>db1 = db\<close> show ?thesis by (auto simp: homed_at_def)
  qed
  then show "db_ok db1" "home db1 = home db" "task_rows db1 = task_rows db"
    "\<exists>c. coll_map db1 i = Some c \<and> homed_at c t is_taken app"
    "coll_size db1 i = 0 \<or> int (coll_size db1 i) < limit"
    by blast+
qed

lemma insert_task_ok:
  assumes ok: "db_ok db" and c: "coll_map db i = Some c" and new: "uuid \<notin> row_uuid ` set (task_rows db)"
  obtains db' where "insert_task uuid i db = (None, db')" "db_ok db'" "home db' = (home db)(uuid \<mapsto> c)"
    "coll_rows db' = coll_rows db"
    "\<And>j. coll_size db' j = coll_size db j + (if j = i then 1 else 0)"
proof -
  define db' where "db' = db\<lparr>task_rows := task_rows db @ [\<lparr>row_uuid = uuid, row_coll = i\<rparr>]\<rparr>"
  have cm: "coll_map db' = coll_map db" by (simp add: coll_map_def db'_def)
  have tm: "task_map db' = (task_map db)(uuid \<mapsto> i)"
  proof (intro ext)
    fix u
    have "task_map db uuid = None" using new by (simp add: task_map_None)
    then show "task_map db' u = ((task_map db)(uuid \<mapsto> i)) u"
      by (cases "task_map db u") (auto simp: task_map_def db'_def map_add_def)
  qed
  have "c \<in> set (coll_rows db)" "coll_id c = i" using ok c by (simp_all add: coll_map_Some)
  then have "db_ok db'" using ok new by (auto simp: db_ok_def db'_def)
  moreover have "home db' = (home db)(uuid \<mapsto> c)"
    using c by (auto simp: home_def tm cm)
  moreover have "coll_size db' j = coll_size db j + (if j = i then 1 else 0)" for j
    by (simp add: tasks_of_collection_def db'_def)
  ultimately show ?thesis
    using that [of db'] new by (simp add: insert_task_def db'_def)
qed

lemma insert_task_dup:
  "uuid \<in> row_uuid ` set (task_rows db) \<Longrightarrow>
    insert_task uuid i db = (Some (MySQLError ER_DUP_ENTRY ''Duplicate entry''), db)"
  by (simp add: insert_task_def)

lemma sql_create_task_new:
  assumes "db_ok db" "documented_mysql my" "uuid \<notin> dom (stored db)"
  obtains c db' where "sql_create_task my app uuid t is_taken limit db = (None, db')"
    "db_ok db'" "home db' = (home db)(uuid \<mapsto> c)" "homed_at c t is_taken app"
proof -
  obtain i db1 where find: "find_or_insert_collection my app t is_taken limit db = (i, db1)"
    by (metis surj_pair)
  note f = find_or_insert_collection_ok [OF assms(1,2) find]
  obtain c where c: "coll_map db1 i = Some c" "homed_at c t is_taken app"
    using f(4) by auto
  have "uuid \<notin> row_uuid ` set (task_rows db1)"
    using assms(3) f(3) stored_None [OF assms(1), of uuid] by auto
  from insert_task_ok [OF f(1) c(1) this] obtain db' where
    "insert_task uuid i db1 = (None, db')" "db_ok db'" "home db' = (home db1)(uuid \<mapsto> c)" by metis
  with that find f(2) c(2) show ?thesis by (simp add: sql_create_task_def)
qed

lemma sql_create_task_dup:
  assumes "db_ok db" "documented_mysql my" "uuid \<in> dom (stored db)"
  obtains db' where "sql_create_task my app uuid t is_taken limit db =
      (Some (MySQLError ER_DUP_ENTRY ''Duplicate entry''), db')" "db_ok db'" "home db' = home db"
proof -
  obtain i db1 where find: "find_or_insert_collection my app t is_taken limit db = (i, db1)"
    by (metis surj_pair)
  note f = find_or_insert_collection_ok [OF assms(1,2) find]
  have "uuid \<in> row_uuid ` set (task_rows db1)"
    using assms(3) f(3) stored_None [OF assms(1), of uuid] by auto
  then show ?thesis using that f find by (simp add: sql_create_task_def insert_task_dup)
qed

text \<open>Collections stay within the limit (a new collection takes its first task in any case).\<close>

definition sizes_ok :: "int \<Rightarrow> database \<Rightarrow> bool" where
  "sizes_ok limit db \<longleftrightarrow> (\<forall>i. int (coll_size db i) \<le> max 1 limit)"

lemma sizes_ok_create:
  assumes ok: "db_ok db" and my: "documented_mysql my" and s: "sizes_ok limit db"
  shows "sizes_ok limit (snd (sql_create_task my app uuid t is_taken limit db))"
proof -
  obtain i db1 where find: "find_or_insert_collection my app t is_taken limit db = (i, db1)"
    by (metis surj_pair)
  note f = find_or_insert_collection_ok [OF ok my find]
  have size1: "coll_size db1 j = coll_size db j" for j
    by (simp add: tasks_of_collection_def f(3))
  have "sizes_ok limit (snd (insert_task uuid i db1))"
  proof (cases "uuid \<in> row_uuid ` set (task_rows db1)")
    case True
    with s size1 show ?thesis by (simp add: insert_task_dup sizes_ok_def)
  next
    case False
    obtain c where "coll_map db1 i = Some c" using f(4) by auto
    then obtain db' where "insert_task uuid i db1 = (None, db')"
      "\<And>j. coll_size db' j = coll_size db1 j + (if j = i then 1 else 0)"
      using insert_task_ok [OF f(1) _ False] by metis
    with s size1 f(5) show ?thesis by (auto simp: sizes_ok_def)
  qed
  with find show ?thesis by (simp add: sql_create_task_def)
qed

section \<open>Deleting\<close>

lemma map_of_filter_keys:
  "map_of (map (\<lambda>x. (f x, g x)) (filter (\<lambda>x. P (f x)) xs)) k =
     (if P k then map_of (map (\<lambda>x. (f x, g x)) xs) k else None)"
  by (induction xs) auto

lemma sql_delete_tasks_ok:
  fixes uuids :: "string list"
  assumes ok: "db_ok db"
  defines "db' \<equiv> snd (sql_delete_tasks uuids db)"
  shows "db_ok db'" "home db' = home db |` (- set uuids)" "coll_rows db' = coll_rows db"
    "fst (sql_delete_tasks uuids db) = card (dom (stored db) \<inter> set uuids)"
proof -
  have rows: "task_rows db' = filter (\<lambda>t. row_uuid t \<notin> set uuids) (task_rows db)"
    "coll_rows db' = coll_rows db" "next_coll_id db' = next_coll_id db"
    by (simp_all add: db'_def sql_delete_tasks_def)
  then show "coll_rows db' = coll_rows db" by simp
  have "distinct (map row_uuid (task_rows db'))"
    using ok unfolding rows by (intro distinct_map_filter) (simp add: db_ok_def)
  with ok rows show "db_ok db'" by (auto simp: db_ok_def)
  have "task_map db' = task_map db |` (- set uuids)"
    unfolding task_map_def rows(1)
    by (auto simp: fun_eq_iff restrict_map_def map_of_filter_keys [where P = "\<lambda>u. u \<notin> set uuids"])
  then show "home db' = home db |` (- set uuids)"
    by (auto simp: home_def fun_eq_iff restrict_map_def coll_map_def rows(2))
  let ?del = "filter (\<lambda>t. row_uuid t \<in> set uuids) (task_rows db)"
  have "distinct (map row_uuid ?del)"
    using ok by (intro distinct_map_filter) (simp add: db_ok_def)
  then have "length ?del = card (row_uuid ` set ?del)"
    using distinct_card [of "map row_uuid ?del"] by simp
  moreover have "row_uuid ` set ?del = dom (stored db) \<inter> set uuids"
    using stored_None [OF ok] by (auto simp: image_iff dom_def)
  ultimately show "fst (sql_delete_tasks uuids db) = card (dom (stored db) \<inter> set uuids)"
    by (simp add: sql_delete_tasks_def)
qed

lemma coll_map_filter:
  "coll_rows db' = filter (\<lambda>c. P (coll_id c)) (coll_rows db) \<Longrightarrow>
    coll_map db' i = (if P i then coll_map db i else None)"
  using map_of_filter_keys [where f = coll_id and g = "\<lambda>c. c" and P = P and xs = "coll_rows db"]
  by (simp add: coll_map_def)

lemma sql_clean_ok:
  assumes ok: "db_ok db"
  obtains db' where "sql_delete_collections (sql_empty_collections db_now db) db = (None, db')"
    "db_ok db'" "home db' = home db" "task_rows db' = task_rows db"
    "\<And>c. c \<in> set (coll_rows db') \<longleftrightarrow>
       c \<in> set (coll_rows db) \<and> (db_now - 5 \<le> coll_exec c \<or> coll_size db (coll_id c) \<noteq> 0)"
proof -
  define ks where "ks = sql_empty_collections db_now db"
  define db' where "db' = db\<lparr>coll_rows := filter (\<lambda>c. coll_id c \<notin> set ks) (coll_rows db)\<rparr>"
  have ks: "i \<in> set ks \<longleftrightarrow> (\<exists>c \<in> set (coll_rows db). coll_id c = i \<and> coll_exec c < db_now - 5 \<and> coll_size db i = 0)" for i
    by (auto simp: ks_def sql_empty_collections_def)
  have used: "row_coll t \<notin> set ks" if "t \<in> set (task_rows db)" for t
  proof -
    have "t \<in> set (tasks_of_collection db (row_coll t))" using that by (simp add: tasks_of_collection_def)
    then have "coll_size db (row_coll t) \<noteq> 0" by auto
    then show ?thesis using ks by auto
  qed
  have "sql_delete_collections ks db = (None, db')"
    using used by (auto simp: sql_delete_collections_def db'_def)
  moreover have rows: "coll_rows db' = filter (\<lambda>c. coll_id c \<notin> set ks) (coll_rows db)"
    "task_rows db' = task_rows db" by (simp_all add: db'_def)
  moreover have "distinct (map coll_id (coll_rows db'))"
    using ok unfolding rows by (intro distinct_map_filter) (simp add: db_ok_def)
  with ok used have "db_ok db'"
    by (fastforce simp: db_ok_def db'_def)
  moreover have "home db' = home db"
  proof (intro ext)
    fix u
    show "home db' u = home db u"
    proof (cases "task_map db u")
      case None
      then show ?thesis by (simp add: home_def task_map_def rows(2))
    next
      case (Some i)
      then have "i \<notin> set ks" using used task_map_Some [OF ok, of u i] by auto
      then have "coll_map db' i = coll_map db i" by (simp add: coll_map_filter [OF rows(1)])
      with Some show ?thesis by (simp add: home_def task_map_def rows(2))
    qed
  qed
  moreover have "c \<in> set (coll_rows db') \<longleftrightarrow>
      c \<in> set (coll_rows db) \<and> (db_now - 5 \<le> coll_exec c \<or> coll_size db (coll_id c) \<noteq> 0)" for c
  proof -
    have "coll_id c \<in> set ks \<longleftrightarrow> coll_exec c < db_now - 5 \<and> coll_size db (coll_id c) = 0"
      if "c \<in> set (coll_rows db)"
    proof -
      have "d = c" if "d \<in> set (coll_rows db)" "coll_id d = coll_id c" for d
        using that \<open>c \<in> set (coll_rows db)\<close> ok coll_map_Some [OF ok] by (metis option.inject)
      then show ?thesis using ks that by auto
    qed
    then show ?thesis by (auto simp: rows(1))
  qed
  ultimately show ?thesis using that by (simp add: ks_def)
qed

section \<open>Finding, taking and reading collections\<close>

definition due :: "database \<Rightarrow> int \<Rightarrow> string \<Rightarrow> coll_row list" where
  "due db t app = filter (\<lambda>c. coll_exec c \<le> t \<and> coll_taken c \<noteq> app) (coll_rows db)"

lemma sql_find_collections_ok:
  fixes t :: int and app :: string
  assumes ok: "db_ok db" and my: "documented_mysql my"
  defines "ks \<equiv> sql_find_collections my t app db"
  shows "mset ks = mset (map coll_id (due db t app))" "distinct ks"
    "sorted (map (\<lambda>i. coll_exec (the (coll_map db i))) ks)"
proof -
  define cs where "cs = sort_key coll_exec (tie_order my (due db t app))"
  have ks: "ks = map coll_id cs" by (simp add: ks_def cs_def sql_find_collections_def due_def)
  have cs: "mset cs = mset (due db t app)" using my by (simp add: cs_def documented_mysql_def)
  then show m: "mset ks = mset (map coll_id (due db t app))" by (simp add: ks)
  have "distinct (map coll_id (due db t app))"
    using ok unfolding due_def by (intro distinct_map_filter) (simp add: db_ok_def)
  then show "distinct ks" using m mset_eq_imp_distinct_iff by blast
  have "set cs = set (due db t app)" using cs mset_eq_setD by blast
  then have "coll_exec (the (coll_map db (coll_id c))) = coll_exec c" if "c \<in> set cs" for c
    using that coll_map_Some [OF ok, of "coll_id c" c] by (auto simp: due_def)
  then have "map (\<lambda>i. coll_exec (the (coll_map db i))) ks = map coll_exec cs" by (simp add: ks)
  then show "sorted (map (\<lambda>i. coll_exec (the (coll_map db i))) ks)" by (simp add: cs_def)
qed

definition taken_by :: "string \<Rightarrow> nat list \<Rightarrow> coll_row \<Rightarrow> coll_row" where
  "taken_by app ks c = (if coll_id c \<in> set ks then c\<lparr>coll_taken := app\<rparr> else c)"

lemma taken_by_simps [simp]: "coll_id (taken_by app ks c) = coll_id c"
  "coll_exec (taken_by app ks c) = coll_exec c"
  "coll_taken (taken_by app ks c) = (if coll_id c \<in> set ks then app else coll_taken c)"
  by (simp_all add: taken_by_def)

lemma sql_take_collections_ok:
  fixes app :: string and ks :: "nat list"
  assumes ok: "db_ok db"
  defines "db' \<equiv> sql_take_collections app ks db"
  shows "db_ok db'" "home db' = map_option (taken_by app ks) \<circ> home db" "task_rows db' = task_rows db"
    "coll_map db' = map_option (taken_by app ks) \<circ> coll_map db"
    "coll_rows db' = map (taken_by app ks) (coll_rows db)"
proof -
  show rows: "task_rows db' = task_rows db" "coll_rows db' = map (taken_by app ks) (coll_rows db)"
    by (auto simp: db'_def sql_take_collections_def taken_by_def)
  show cm: "coll_map db' = map_option (taken_by app ks) \<circ> coll_map db"
    unfolding coll_map_def rows(2)
  proof
    fix i
    show "map_of (map (\<lambda>c. (coll_id c, c)) (map (taken_by app ks) cs)) i =
      (map_option (taken_by app ks) \<circ> map_of (map (\<lambda>c. (coll_id c, c)) cs)) i" for cs
      by (induction cs) auto
  qed
  have same: "coll_id \<circ> taken_by app ks = coll_id" by auto
  then have "map coll_id (coll_rows db') = map coll_id (coll_rows db)" by (simp add: rows(2))
  moreover have "next_coll_id db' = next_coll_id db" by (simp add: db'_def sql_take_collections_def)
  moreover have "coll_id ` set (coll_rows db') = coll_id ` set (coll_rows db)"
    by (simp add: rows(2) image_image)
  ultimately show "db_ok db'" using ok by (auto simp: db_ok_def rows same)
  show "home db' = map_option (taken_by app ks) \<circ> home db"
    by (auto simp: home_def fun_eq_iff task_map_def rows(1) cm split: bind_split)
qed

lemma mset_tasks_of_collections:
  "distinct ks \<Longrightarrow> mset (concat (map (tasks_of_collection db) ks)) = mset (filter (\<lambda>t. row_coll t \<in> set ks) (task_rows db))"
proof (induction ks)
  case (Cons i ks)
  have "filter_mset (\<lambda>t. row_coll t = i \<or> row_coll t \<in> set ks) (mset (task_rows db)) =
      filter_mset (\<lambda>t. row_coll t = i) (mset (task_rows db)) + filter_mset (\<lambda>t. row_coll t \<in> set ks) (mset (task_rows db))"
    using Cons.prems by (induction "task_rows db" arbitrary: db) (auto simp: multiset_eq_iff)
  with Cons show ?case by (simp add: tasks_of_collection_def)
qed simp

lemma sql_tasks_by_collection_ok:
  assumes ok: "db_ok db" and my: "documented_mysql my" and c: "coll_map db i = Some c"
  shows "mset (sql_tasks_by_collection my i db) =
    image_mset (\<lambda>t. \<lparr>task_id = row_uuid t, exec_time = coll_exec c\<rparr>) (mset (tasks_of_collection db i))"
proof -
  have c': "c \<in> set (coll_rows db)" "coll_id c = i" using ok c by (simp_all add: coll_map_Some)
  have one: "filter (\<lambda>d. coll_id d = i) (coll_rows db) = [c]"
  proof -
    have "distinct (map coll_id (coll_rows db))" using ok by (simp add: db_ok_def)
    then show ?thesis using c'
    proof (induction "coll_rows db" arbitrary: db)
      case (Cons d ds)
      have "filter (\<lambda>d. coll_id d = i) ds = (if d = c then [] else [c])"
        using Cons.hyps(1) [of "db\<lparr>coll_rows := ds\<rparr>"] Cons.hyps(2) [symmetric] Cons.prems
        by (auto simp: filter_empty_conv image_iff)
      with Cons.hyps(2) [symmetric] Cons.prems show ?case by (auto simp: image_iff)
    qed simp
  qed
  have set: "set (row_order my (tasks_of_collection db i)) = set (tasks_of_collection db i)"
    using my mset_eq_setD unfolding documented_mysql_def by blast
  have "map (\<lambda>t. map (\<lambda>d. \<lparr>task_id = row_uuid t, exec_time = coll_exec d\<rparr>)
         (filter (\<lambda>d. coll_id d = row_coll t) (coll_rows db))) (row_order my (tasks_of_collection db i))
      = map (\<lambda>t. [\<lparr>task_id = row_uuid t, exec_time = coll_exec c\<rparr>]) (row_order my (tasks_of_collection db i))"
    using set one by (intro map_cong) (auto simp: tasks_of_collection_def)
  moreover have "concat (map (\<lambda>t. [f t]) xs) = map f xs" for f :: "task_row \<Rightarrow> task" and xs
    by (induction xs) auto
  ultimately have "sql_tasks_by_collection my i db =
      map (\<lambda>t. \<lparr>task_id = row_uuid t, exec_time = coll_exec c\<rparr>) (row_order my (tasks_of_collection db i))"
    unfolding sql_tasks_by_collection_def by (simp only:)
  moreover have "mset (row_order my (tasks_of_collection db i)) = mset (tasks_of_collection db i)"
    using my by (simp add: documented_mysql_def)
  ultimately show ?thesis by simp
qed

text \<open>Reading a list of collections yields each of their tasks once.\<close>

lemma read_collections_ok:
  fixes my :: mysql
  assumes ok: "db_ok db" and my: "documented_mysql my" and ks: "distinct ks" "set ks \<subseteq> coll_id ` set (coll_rows db)"
  defines "out \<equiv> concat (map (\<lambda>i. sql_tasks_by_collection my i db) ks)"
  shows "distinct (map task_id out)"
    "set out = {t. \<exists>c. home db (task_id t) = Some c \<and> exec_time t = coll_exec c \<and> coll_id c \<in> set ks}"
proof -
  let ?task = "\<lambda>t. \<lparr>task_id = row_uuid t, exec_time = coll_exec (the (coll_map db (row_coll t)))\<rparr>"
  let ?rows = "filter (\<lambda>t. row_coll t \<in> set ks) (task_rows db)"
  have one: "mset (sql_tasks_by_collection my i db) = image_mset ?task (mset (tasks_of_collection db i))" if "i \<in> set ks" for i
  proof -
    from that ks(2) obtain c where "c \<in> set (coll_rows db)" "coll_id c = i" by auto
    then have c: "coll_map db i = Some c" using ok by (simp add: coll_map_Some)
    have "image_mset (\<lambda>t. \<lparr>task_id = row_uuid t, exec_time = coll_exec c\<rparr>) (mset (tasks_of_collection db i)) =
        image_mset ?task (mset (tasks_of_collection db i))"
      by (rule image_mset_cong) (auto simp: tasks_of_collection_def c)
    with sql_tasks_by_collection_ok [OF ok my c] show ?thesis by (rule trans)
  qed
  have "mset (concat (map (\<lambda>i. sql_tasks_by_collection my i db) js)) =
      image_mset ?task (mset (concat (map (tasks_of_collection db) js)))" if "set js \<subseteq> set ks" for js
    using that by (induction js) (simp_all add: one)
  then have out: "mset out = image_mset ?task (mset ?rows)"
    using mset_tasks_of_collections [OF ks(1)] by (simp add: out_def)
  have "mset (map task_id out) = mset (map row_uuid ?rows)"
    unfolding mset_map out by (simp add: multiset.map_comp comp_def)
  moreover have "distinct (map row_uuid ?rows)"
    using ok by (intro distinct_map_filter) (simp add: db_ok_def)
  ultimately show "distinct (map task_id out)" using mset_eq_imp_distinct_iff by blast
  have "set out = ?task ` set ?rows" using arg_cong [OF out, of set_mset] by simp
  also have "\<dots> = {t. \<exists>c. home db (task_id t) = Some c \<and> exec_time t = coll_exec c \<and> coll_id c \<in> set ks}" (is "_ = ?R")
  proof (intro set_eqI iffI)
    fix t assume "t \<in> ?task ` set ?rows"
    then obtain row where row: "row \<in> set (task_rows db)" "row_coll row \<in> set ks" "t = ?task row" by auto
    obtain c where "c \<in> set (coll_rows db)" "coll_id c = row_coll row" "home db (row_uuid row) = Some c"
      by (rule home_task [OF ok row(1)])
    moreover from this have "coll_map db (row_coll row) = Some c" using ok by (simp add: coll_map_Some)
    ultimately show "t \<in> ?R" using row by simp
  next
    fix t assume "t \<in> ?R"
    then obtain c where c: "home db (task_id t) = Some c" "exec_time t = coll_exec c" "coll_id c \<in> set ks" by auto
    then obtain i where i: "task_map db (task_id t) = Some i" "coll_map db i = Some c"
      by (auto simp: home_def split: bind_split_asm)
    then obtain row where row: "row \<in> set (task_rows db)" "row_uuid row = task_id t" "row_coll row = i"
      using ok by (auto simp: task_map_Some)
    have "coll_id c = i" using i(2) ok by (simp add: coll_map_Some)
    with row c i have "t = ?task row" "row \<in> set ?rows" by auto
    then show "t \<in> ?task ` set ?rows" by blast
  qed
  finally show "set out = {t. \<exists>c. home db (task_id t) = Some c \<and> exec_time t = coll_exec c \<and> coll_id c \<in> set ks}" .
qed

end
