(* ===== verification/Repository.thy ===== *)
theory Repository
  imports Repository_Contract Database
begin

text \<open>
  \<open>repository/mysql_repository.go\<close>: every method of \<open>mysqlRepository\<close> and of \<open>Collections\<close>, over
  the tables and statements of theory Database. Each call of the driver uses up one outcome, in
  the order the code makes the calls. The server's \<open>unix_timestamp()\<close> is a sequence of readings
  like the program's own clock. The contexts the code passes on only decide when a driver call fails, which is an
  outcome.
\<close>

section \<open>State\<close>

record mysqlRepository =
  appInstanceId :: string
  MaxCountTasksInCollection :: int
  CleaningFrequency :: int

record repo_world = world +
  database :: database
  outcomes :: "outcome list"
  open_tx :: nat
  cleanRequestCount :: int
  server_clock :: "nat \<Rightarrow> unix_time"

record repository_options =
  opt_MaxCountTasksInCollection :: int
  opt_CleaningFrequency :: int

definition documented_repository_merge ::
    "(repository_options \<Rightarrow> repository_options \<Rightarrow> repository_options option) \<Rightarrow> bool" where
  "documented_repository_merge merge \<longleftrightarrow> (\<forall>d s. merge d s = Some
     \<lparr>opt_MaxCountTasksInCollection = fill_zero (opt_MaxCountTasksInCollection d) (opt_MaxCountTasksInCollection s),
      opt_CleaningFrequency = fill_zero (opt_CleaningFrequency d) (opt_CleaningFrequency s)\<rparr>)"

definition repository_New ::
    "(repository_options \<Rightarrow> repository_options \<Rightarrow> repository_options option) \<Rightarrow> string \<Rightarrow>
     repository_options option \<Rightarrow> mysqlRepository option" where
  "repository_New merge app options = do {
     let options = (case options of
         None \<Rightarrow> \<lparr>opt_MaxCountTasksInCollection = 0, opt_CleaningFrequency = 0\<rparr> | Some opts \<Rightarrow> opts);
     options \<leftarrow> merge options \<lparr>opt_MaxCountTasksInCollection = 1000, opt_CleaningFrequency = 10\<rparr>;
     Some \<lparr>appInstanceId = app, MaxCountTasksInCollection = opt_MaxCountTasksInCollection options,
       CleaningFrequency = opt_CleaningFrequency options\<rparr>
   }"

section \<open>Driver calls\<close>

definition next_outcome :: "'a repo_world_scheme \<Rightarrow> outcome \<times> 'a repo_world_scheme" where
  "next_outcome w = (case outcomes w of [] \<Rightarrow> (Acked, w) | x # xs \<Rightarrow> (x, w\<lparr>outcomes := xs\<rparr>))"

text \<open>A call that only reports (\<open>Begin\<close>, \<open>Rollback\<close>, \<open>Close\<close>): its error, if any.\<close>

definition plain_call :: "'a repo_world_scheme \<Rightarrow> db_error option \<times> 'a repo_world_scheme" where
  "plain_call w = (let (x, w) = next_outcome w in (call_error x, w))"

text \<open>
  A statement with the effect \<open>f\<close> on the database: the effect happens unless the server refuses,
  and the result is the statement's own error or the error of the call.
\<close>

definition exec_call ::
    "(database \<Rightarrow> 'r \<times> database) \<Rightarrow> 'a repo_world_scheme \<Rightarrow> (db_error + 'r) \<times> 'a repo_world_scheme" where
  "exec_call f w =
     (let (x, w) = next_outcome w; (r, db) = f (database w);
          w' = (if call_done x then w\<lparr>database := db\<rparr> else w)
      in (case call_error x of Some e \<Rightarrow> Inl e | None \<Rightarrow> Inr r, w'))"

text \<open>
  Reading the rows of a result set. A failure keeps the rows read before it: \<open>Scan\<close> of a row can
  fail, or \<open>Next\<close> ends early and \<open>rows.Err()\<close> tells why.
\<close>

datatype 'r rows_read = AllRows "'r list" | ScanError string "'r list" | RowsErr db_error "'r list"

definition read_rows :: "'r list \<Rightarrow> 'a repo_world_scheme \<Rightarrow> 'r rows_read \<times> 'a repo_world_scheme" where
  "read_rows rows w =
     (let (x, w) = next_outcome w
      in (case x of
            Acked \<Rightarrow> AllRows rows
          | ScanFails k msg \<Rightarrow> if k < length rows then ScanError msg (take k rows) else AllRows rows
          | Refused e \<Rightarrow> RowsErr e []
          | Unacked e \<Rightarrow> RowsErr e rows
          | BreaksAfter k e \<Rightarrow> RowsErr e (take k rows), w))"

definition log_error :: "string \<Rightarrow> 'a repo_world_scheme \<Rightarrow> 'a repo_world_scheme" where
  "log_error msg w = eh_New LevelError msg w"

text \<open>\<open>errors.Wrap(err, msg)\<close> puts the message before the error.\<close>

definition wrap_text :: "string \<Rightarrow> string \<Rightarrow> string" where
  "wrap_text err msg = msg @ '': '' @ err"

text \<open>The deferred \<open>rows.Close()\<close>.\<close>

definition close_rows :: "'a repo_world_scheme \<Rightarrow> 'a repo_world_scheme" where
  "close_rows w =
     (let (e, w) = plain_call w in case e of None \<Rightarrow> w | Some err \<Rightarrow> log_error (db_error_text err) w)"

section \<open>Create, Delete, Count\<close>

definition repo_Count :: "'a repo_world_scheme \<Rightarrow> (int \<times> go_error option) \<times> 'a repo_world_scheme" where
  "repo_Count w =
     (let (r, w) = exec_call (\<lambda>db. (sql_count db, db)) w
      in case r of
           Inl err \<Rightarrow> ((0, Some RepoErrorCountingTasks), log_error (db_error_text err) w)
         | Inr n \<Rightarrow> ((int n, None), w))"

text \<open>
  The call of \<open>create_task\<close>. \<open>BreaksAfter\<close> is a failure of its last statement, when a collection it
  may have inserted is already committed.
\<close>

definition call_create_task ::
    "mysqlRepository \<Rightarrow> mysql \<Rightarrow> task \<Rightarrow> bool \<Rightarrow> 'a repo_world_scheme \<Rightarrow>
     db_error option \<times> 'a repo_world_scheme" where
  "call_create_task r my t isTaken w =
     (let (x, w) = next_outcome w;
          create = sql_create_task my (appInstanceId r) (task_id t) (exec_time t) isTaken
            (MaxCountTasksInCollection r) (database w)
      in case x of
           Refused e \<Rightarrow> (Some e, w)
         | BreaksAfter k e \<Rightarrow>
             (Some e, w\<lparr>database := snd (find_or_insert_collection my (appInstanceId r) (exec_time t)
                isTaken (MaxCountTasksInCollection r) (database w))\<rparr>)
         | Unacked e \<Rightarrow> (Some e, w\<lparr>database := snd create\<rparr>)
         | _ \<Rightarrow> (fst create, w\<lparr>database := snd create\<rparr>))"

definition repo_Create ::
    "mysqlRepository \<Rightarrow> mysql \<Rightarrow> task \<Rightarrow> bool \<Rightarrow> 'a repo_world_scheme \<Rightarrow>
     go_error option \<times> 'a repo_world_scheme" where
  "repo_Create r my t isTaken w =
     (case call_create_task r my t isTaken w of
        (None, w) \<Rightarrow> (None, w)
      | (Some err, w) \<Rightarrow>
          (let errCreating =
             (if has_number ER_DUP_ENTRY err then RepoErrorTaskExist
              else if has_number ER_LOCK_DEADLOCK err then RepoErrorDeadlock
              else RepoErrorCreatingTask)
           in (Some errCreating, log_error (db_error_text err) w)))"

text \<open>\<open>deleteEmptyCollections\<close>: the text of its error, if any.\<close>

definition unix_timestamp :: "'a repo_world_scheme \<Rightarrow> unix_time \<times> 'a repo_world_scheme" where
  "unix_timestamp w =
     (server_clock w (clock_reads w), w\<lparr>clock_reads := Suc (clock_reads w)\<rparr>)"

definition deleteEmptyCollections ::
    "'a repo_world_scheme \<Rightarrow> string option \<times> 'a repo_world_scheme" where
  "deleteEmptyCollections w =
     (let (db_now, w) = unix_timestamp w;
          (q, w) = exec_call (\<lambda>db. (sql_empty_collections db_now db, db)) w
      in case q of
           Inl err \<Rightarrow> (Some (wrap_text (db_error_text err) ''deleting empty collections is fail''), w)
         | Inr rows \<Rightarrow>
             (let (read, w) = read_rows rows w;
                  (res, w) = (case read of
                      ScanError msg _ \<Rightarrow> (Some (wrap_text msg ''scan collection error''), w)
                    | RowsErr err _ \<Rightarrow> (Some (wrap_text (db_error_text err) ''scan collection error''), w)
                    | AllRows ks \<Rightarrow>
                        if 0 < length ks then
                          (let (d, w) = exec_call (sql_delete_collections ks) w
                           in case d of
                                Inl err \<Rightarrow> (Some (wrap_text (db_error_text err) ''clearing collections was fail''), w)
                              | Inr (Some err) \<Rightarrow> (Some (wrap_text (db_error_text err) ''clearing collections was fail''), w)
                              | Inr None \<Rightarrow> (None, w))
                        else (None, w))
              in (res, close_rows w)))"

text \<open>
  The counter of deletions is an \<open>int32\<close>; the remainder panics when \<open>int32(CleaningFrequency)\<close> is 0.
\<close>

definition count_and_clean ::
    "mysqlRepository \<Rightarrow> 'a repo_world_scheme \<Rightarrow> 'a repo_world_scheme option" where
  "count_and_clean r w =
     (let w = w\<lparr>cleanRequestCount := wrap32 (cleanRequestCount w + 1)\<rparr>
      in if 0 < CleaningFrequency r then
           if wrap32 (CleaningFrequency r) = 0 then None
           else if go_rem (cleanRequestCount w) (wrap32 (CleaningFrequency r)) = 0 then
             (let (err, w) = deleteEmptyCollections w;
                  w = (case err of None \<Rightarrow> w | Some msg \<Rightarrow> log_error msg w)
              in Some (w\<lparr>cleanRequestCount := 0\<rparr>))
           else Some w
         else Some w)"

definition repo_Delete ::
    "mysqlRepository \<Rightarrow> task list \<Rightarrow> 'a repo_world_scheme \<Rightarrow>
     ((int \<times> go_error option) \<times> 'a repo_world_scheme) option" where
  "repo_Delete r tasks w =
     (if length tasks = 0 then Some ((0, None), w)
      else
        (let (d, w) = exec_call (sql_delete_tasks (map task_id tasks)) w
         in case d of
              Inl err \<Rightarrow>
                (let errorReturn =
                   (if has_number ER_LOCK_DEADLOCK err then RepoErrorDeadlock else RepoErrorDeletingTask)
                 in Some ((0, Some errorReturn), log_error (db_error_text err) w))
            | Inr affected \<Rightarrow> do {
                w \<leftarrow> count_and_clean r w;
                Some ((int affected, None), w)
              }))"

section \<open>Finding collections\<close>

text \<open>
  A transaction is open from \<open>BeginTx\<close> to \<open>Commit\<close> or \<open>Rollback\<close>, which end it whether or not they
  report an error. What it writes reaches the database with the commit.
\<close>

definition begin_tx :: "'a repo_world_scheme \<Rightarrow> db_error option \<times> 'a repo_world_scheme" where
  "begin_tx w =
     (let (e, w) = plain_call w in case e of None \<Rightarrow> (None, w\<lparr>open_tx := Suc (open_tx w)\<rparr>) | Some err \<Rightarrow> (Some err, w))"

definition commit_tx ::
    "(database \<Rightarrow> database) \<Rightarrow> 'a repo_world_scheme \<Rightarrow> db_error option \<times> 'a repo_world_scheme" where
  "commit_tx f w =
     (let (x, w) = next_outcome w; w = w\<lparr>open_tx := open_tx w - 1\<rparr>
      in (call_error x, if call_done x then w\<lparr>database := f (database w)\<rparr> else w))"

text \<open>\<open>tx.Rollback()\<close> after an error with text \<open>childError\<close>: the text to log.\<close>

definition rollback_tx :: "string \<Rightarrow> 'a repo_world_scheme \<Rightarrow> string \<times> 'a repo_world_scheme" where
  "rollback_tx childError w =
     (let (e, w) = plain_call w; w = w\<lparr>open_tx := open_tx w - 1\<rparr>
      in (case e of None \<Rightarrow> childError | Some err \<Rightarrow> wrap_text childError (db_error_text err), w))"

text \<open>The update of the collections found, in the same transaction, and its commit.\<close>

definition take_found ::
    "mysqlRepository \<Rightarrow> nat list \<Rightarrow> 'a repo_world_scheme \<Rightarrow>
     (nat list option \<times> go_error option) \<times> 'a repo_world_scheme" where
  "take_found r ids w =
     (let (x, w) = next_outcome w
      in case call_error x of
           Some err \<Rightarrow>
             (let error = (if has_number ER_LOCK_DEADLOCK err then RepoErrorDeadlock else RepoErrorFindingTasks);
                  (childError, w) = rollback_tx (db_error_text err) w
              in ((None, Some error), log_error childError w))
         | None \<Rightarrow>
             (let (c, w) = commit_tx (sql_take_collections (appInstanceId r) ids) w
              in case c of
                   Some err \<Rightarrow> ((None, Some RepoErrorFindingTasks), log_error (db_error_text err) w)
                 | None \<Rightarrow> ((Some ids, None), w)))"

text \<open>From reading the rows to the deferred \<open>rows.Close()\<close>.\<close>

definition find_rows ::
  "mysqlRepository \<Rightarrow> nat list \<Rightarrow> 'a repo_world_scheme \<Rightarrow>
     (nat list option \<times> go_error option) \<times> 'a repo_world_scheme" where
  "find_rows r rows w =
     (let (read, w) = read_rows rows w
      in case read of
           ScanError msg _ \<Rightarrow> ((None, Some RepoErrorFindingTasks), log_error msg w)
         | RowsErr err _ \<Rightarrow>
             (let (childError, w) = rollback_tx (db_error_text err) w;
                  error = (if has_number ER_LOCK_WAIT_TIMEOUT err then RepoErrorLockWaitTimeout
                           else RepoErrorFindingTasks)
              in ((None, Some error), log_error childError w))
         | AllRows collectionIds \<Rightarrow>
             if length collectionIds = 0 then
               (let (c, w) = commit_tx (\<lambda>db. db) w
                in case c of
                     Some err \<Rightarrow> ((None, Some RepoErrorFindingTasks), log_error (db_error_text err) w)
                   | None \<Rightarrow> ((None, Some RepoErrorNoTasksFound), w))
             else take_found r collectionIds w)"

definition FindBySecToExecTime ::
  "mysqlRepository \<Rightarrow> mysql \<Rightarrow> duration \<Rightarrow> 'a repo_world_scheme \<Rightarrow>
     (nat list option \<times> go_error option) \<times> 'a repo_world_scheme" where
  "FindBySecToExecTime r my preloadingTimeRange w =
     (let (now, w) = time_Now w;
          toNextExecTime = Unix (now + preloadingTimeRange);
          (b, w) = begin_tx w
      in case b of
           Some err \<Rightarrow> ((None, Some RepoErrorFindingTasks), log_error (db_error_text err) w)
         | None \<Rightarrow>
             (let (q, w) = exec_call
                  (\<lambda>db. (sql_find_collections my toNextExecTime (appInstanceId r) db, db)) w
              in case q of
                   Inl err \<Rightarrow>
                     (let error = (if has_number ER_LOCK_DEADLOCK err then RepoErrorDeadlock
                                   else RepoErrorFindingTasks);
                          (childError, w) = rollback_tx (db_error_text err) w
                      in ((None, Some error), log_error childError w))
                 | Inr rows \<Rightarrow>
                     (let (res, w) = find_rows r rows w in (res, close_rows w))))"

section \<open>Collections\<close>

definition getTasksByCollection ::
  "mysql \<Rightarrow> nat \<Rightarrow> 'a repo_world_scheme \<Rightarrow> (task list \<times> go_error option) \<times> 'a repo_world_scheme" where
  "getTasksByCollection my collectionId w =
     (let (q, w) = exec_call (\<lambda>db. (sql_tasks_by_collection my collectionId db, db)) w
      in case q of
           Inl err \<Rightarrow> (([], Some RepoErrorGettingTasks), log_error (db_error_text err) w)
         | Inr rows \<Rightarrow>
             (let (read, w) = read_rows rows w;
                  (res, w) = (case read of
                      ScanError msg tasks \<Rightarrow> ((tasks, Some RepoErrorGettingTasks), log_error msg w)
                    | RowsErr err tasks \<Rightarrow>
                        ((tasks, Some RepoErrorGettingTasks), log_error (db_error_text err) w)
                    | AllRows tasks \<Rightarrow> ((tasks, None), w))
              in (res, close_rows w)))"

text \<open>\<open>takeCollectionId\<close> runs under the mutex of \<open>Collections\<close>: the id, and whether the end is reached.\<close>

fun takeCollectionId :: "nat list \<Rightarrow> (nat \<times> bool) \<times> nat list" where
  "takeCollectionId [] = ((0, True), [])"
| "takeCollectionId (i # rest) = ((i, False), rest)"

definition Collections_Next ::
  "mysql \<Rightarrow> nat list \<Rightarrow> 'a repo_world_scheme \<Rightarrow>
     (task list \<times> go_error option) \<times> nat list \<times> 'a repo_world_scheme" where
  "Collections_Next my c w =
     (let ((i, isEnd), c) = takeCollectionId c
      in if isEnd then (([], Some RepoErrorNoCollections), c, w)
         else (let ((tasks, err), w) = getTasksByCollection my i w
               in case err of
                    Some e \<Rightarrow> (([], Some e), c, w)
                  | None \<Rightarrow> ((tasks, None), c, w)))"

section \<open>Schema\<close>

text \<open>
  DDL statements commit by themselves, so a failed \<open>Up\<close> keeps what it has created. \<open>CREATE PROCEDURE\<close>
  fails with \<open>ER_SP_ALREADY_EXISTS\<close> when the procedure is there.
\<close>

definition create_collection_table :: "database \<Rightarrow> unit \<times> database" where
  "create_collection_table db = ((), db\<lparr>has_collection_table := True\<rparr>)"

definition create_task_table :: "database \<Rightarrow> unit \<times> database" where
  "create_task_table db = ((), db\<lparr>has_task_table := True\<rparr>)"

definition create_procedure :: "database \<Rightarrow> db_error option \<times> database" where
  "create_procedure db =
     (if has_create_task db then (Some (MySQLError ER_SP_ALREADY_EXISTS ''PROCEDURE create_task already exists''), db)
      else (None, db\<lparr>has_create_task := True\<rparr>))"

definition up_failed :: "db_error \<Rightarrow> 'a repo_world_scheme \<Rightarrow> go_error option \<times> 'a repo_world_scheme" where
  "up_failed err w =
     (let (childError, w) = rollback_tx (db_error_text err) w
      in (Some RepoErrorSchemaSetup, log_error childError w))"

definition repo_Up :: "'a repo_world_scheme \<Rightarrow> go_error option \<times> 'a repo_world_scheme" where
  "repo_Up w =
     (let (b, w) = begin_tx w
      in case b of
           Some err \<Rightarrow> (Some RepoErrorSchemaSetup, log_error (db_error_text err) w)
         | None \<Rightarrow>
             (let (c, w) = exec_call create_collection_table w
              in case c of
                   Inl err \<Rightarrow> up_failed err w
                 | Inr _ \<Rightarrow>
                     (let (t, w) = exec_call create_task_table w
                      in case t of
                           Inl err \<Rightarrow> up_failed err w
                         | Inr _ \<Rightarrow>
                             (let (p, w) = exec_call create_procedure w;
                                  errorQuery = (case p of Inl err \<Rightarrow> Some err | Inr own \<Rightarrow> own)
                              in if (case errorQuery of None \<Rightarrow> False
                                     | Some err \<Rightarrow> \<not> has_number ER_SP_ALREADY_EXISTS err)
                                 then up_failed (the errorQuery) w
                                 else
                                   (let (c, w) = commit_tx (\<lambda>db. db) w
                                    in case c of
                                         Some err \<Rightarrow> (Some RepoErrorFindingTasks, log_error (db_error_text err) w)
                                       | None \<Rightarrow> (None, w))))))"

section \<open>What the driver calls keep\<close>

text \<open>
  \<open>steady w w'\<close>: the step from \<open>w\<close> to \<open>w'\<close> leaves the monitoring, the transaction count and the
  deletion counter alone and brings no outcomes; \<open>undisturbed\<close>: the database as well.
\<close>

definition steady :: "'a repo_world_scheme \<Rightarrow> 'a repo_world_scheme \<Rightarrow> bool" where
  "steady w w' \<longleftrightarrow> monitor w' = monitor w \<and> set (outcomes w') \<subseteq> set (outcomes w) \<and>
     open_tx w' = open_tx w \<and> cleanRequestCount w' = cleanRequestCount w"

definition undisturbed :: "'a repo_world_scheme \<Rightarrow> 'a repo_world_scheme \<Rightarrow> bool" where
  "undisturbed w w' \<longleftrightarrow> steady w w' \<and> database w' = database w"

lemma steady_refl [simp, intro]: "steady w w" "undisturbed w w"
  by (simp_all add: steady_def undisturbed_def)

lemma steady_trans [trans]: "steady w w' \<Longrightarrow> steady w' w'' \<Longrightarrow> steady w w''"
  by (auto simp: steady_def)

lemma undisturbed_trans [trans]: "undisturbed w w' \<Longrightarrow> undisturbed w' w'' \<Longrightarrow> undisturbed w w''"
  by (auto simp: undisturbed_def intro: steady_trans)

lemma undisturbed_steady: "undisturbed w w' \<Longrightarrow> steady w w'"
  by (simp add: undisturbed_def)

lemma undisturbed_database: "undisturbed w w' \<Longrightarrow> database w' = database w"
  by (simp add: undisturbed_def)

lemma undisturbed_log_error [intro!]: "undisturbed w (log_error msg w)"
  by (simp add: undisturbed_def steady_def log_error_def eh_New_def)

lemma log_error_simps [simp]: "database (log_error msg w) = database w"
  "open_tx (log_error msg w) = open_tx w" "outcomes (log_error msg w) = outcomes w"
  "monitor (log_error msg w) = monitor w" "cleanRequestCount (log_error msg w) = cleanRequestCount w"
  by (simp_all add: log_error_def eh_New_def)

lemma next_outcome_undisturbed: "next_outcome w = (x, w') \<Longrightarrow> undisturbed w w'"
  by (auto simp: next_outcome_def undisturbed_def steady_def split: list.splits)

lemma next_outcome_in: "next_outcome w = (x, w') \<Longrightarrow> x \<in> set (outcomes w) \<or> x = Acked"
  by (auto simp: next_outcome_def split: list.splits)

lemma plain_call_undisturbed: "plain_call w = (e, w') \<Longrightarrow> undisturbed w w'"
  by (auto simp: plain_call_def Let_def split: prod.splits dest: next_outcome_undisturbed)

lemma time_Now_undisturbed: "time_Now w = (n, w') \<Longrightarrow> undisturbed w (w' :: 'a repo_world_scheme)"
  by (auto simp: time_Now_def undisturbed_def steady_def)

lemma unix_timestamp_undisturbed: "unix_timestamp w = (n, w') \<Longrightarrow> undisturbed w w'"
  by (auto simp: unix_timestamp_def undisturbed_def steady_def)

lemma close_rows_undisturbed [intro!]: "undisturbed w (close_rows w)"
proof -
  obtain e w1 where p: "plain_call w = (e, w1)" by (metis surj_pair)
  then have "undisturbed w w1" by (rule plain_call_undisturbed)
  with p show ?thesis
    by (cases e) (auto simp: close_rows_def intro: undisturbed_trans)
qed

lemma read_rows_undisturbed: "read_rows rows w = (res, w') \<Longrightarrow> undisturbed w w'"
  by (auto simp: read_rows_def Let_def split: prod.splits dest: next_outcome_undisturbed)

lemma read_rows_result:
  "read_rows rows w = (res, w') \<Longrightarrow>
    (case res of AllRows xs \<Rightarrow> xs = rows | ScanError m xs \<Rightarrow> \<exists>k. xs = take k rows | RowsErr e xs \<Rightarrow> \<exists>k. xs = take k rows)"
  by (auto simp: read_rows_def Let_def split: prod.splits outcome.splits if_splits intro: exI [of _ "0::nat"])
     (metis take_all order_refl)

text \<open>The three ways a statement ends: not done, done but reported as failed, done and answered.\<close>

lemma exec_call_cases:
  assumes "exec_call f w = (res, w')"
  obtains (refused) e where "res = Inl e" "undisturbed w w'"
    | (unacked) e where "res = Inl e" "steady w w'" "database w' = snd (f (database w))"
        "Unacked e \<in> set (outcomes w)"
    | (answered) "res = Inr (fst (f (database w)))" "steady w w'" "database w' = snd (f (database w))"
proof -
  obtain x w1 where n: "next_outcome w = (x, w1)" by (metis surj_pair)
  have u: "undisturbed w w1" using n by (rule next_outcome_undisturbed)
  then have db: "database w1 = database w" by (rule undisturbed_database)
  have s: "steady w (w1\<lparr>database := d\<rparr>)" for d
    using u by (simp add: undisturbed_def steady_def)
  have x: "x \<in> set (outcomes w) \<or> x = Acked" using n by (rule next_outcome_in)
  have r: "res = (case call_error x of Some e \<Rightarrow> Inl e | None \<Rightarrow> Inr (fst (f (database w))))"
    "w' = (if call_done x then w1\<lparr>database := snd (f (database w))\<rparr> else w1)"
    using assms unfolding exec_call_def n Let_def split_beta prod.sel db by auto
  show thesis
  proof (cases x)
    case (Refused e)
    with r u refused show thesis by simp
  next
    case (Unacked e)
    with r s x unacked show thesis by simp
  qed (use r s answered in simp_all)
qed

lemma exec_query_cases:
  assumes "exec_call (\<lambda>db. (g db, db)) w = (res, w')"
  shows "undisturbed w w'" "res = Inr (g (database w)) \<or> (\<exists>e. res = Inl e)"
  using assms by (auto elim!: exec_call_cases simp: undisturbed_def)

lemma documented_unacked:
  "documented_outcome (Unacked e) \<Longrightarrow> \<not> has_number ER_LOCK_DEADLOCK e \<and> \<not> has_number ER_DUP_ENTRY e"
  by (cases e) auto

section \<open>What each method does\<close>

text \<open>
  \<open>repo_sound\<close>: the tables are consistent, the server and the driver answer as documented, and the
  cleaning frequency does not make the remainder panic.
\<close>

definition repo_sound :: "mysqlRepository \<Rightarrow> mysql \<Rightarrow> 'a repo_world_scheme \<Rightarrow> bool" where
  "repo_sound r my w \<longleftrightarrow> db_ok (database w) \<and> documented_mysql my \<and>
     (\<forall>x \<in> set (outcomes w). documented_outcome x) \<and>
     (CleaningFrequency r \<le> 0 \<or> wrap32 (CleaningFrequency r) \<noteq> 0)"

definition stored_tasks :: "'a repo_world_scheme \<Rightarrow> string \<rightharpoonup> int64" where
  "stored_tasks w = stored (database w)"

lemma repo_soundD: "repo_sound r my w \<Longrightarrow> db_ok (database w)" "repo_sound r my w \<Longrightarrow> documented_mysql my"
  by (simp_all add: repo_sound_def)

lemma sound_steady:
  "repo_sound r my w \<Longrightarrow> set (outcomes w') \<subseteq> set (outcomes w) \<Longrightarrow> db_ok (database w') \<Longrightarrow> repo_sound r my w'"
  by (auto simp: repo_sound_def)

lemma steadyD: "steady w w' \<Longrightarrow> monitor w' = monitor w" "steady w w' \<Longrightarrow> set (outcomes w') \<subseteq> set (outcomes w)"
  by (simp_all add: steady_def)

lemma stored_home: "home db' = home db \<Longrightarrow> stored db' = stored db"
  by (simp add: stored_def fun_eq_iff)

lemma stored_home_upd: "home db' = (home db)(u \<mapsto> c) \<Longrightarrow> stored db' = (stored db)(u \<mapsto> coll_exec c)"
  by (simp add: stored_def fun_eq_iff)

lemma stored_home_restrict: "home db' = home db |` D \<Longrightarrow> stored db' = stored db |` D"
  by (simp add: stored_def fun_eq_iff restrict_map_def)

lemma stored_home_taken:
  "home db' = map_option (taken_by app ks) \<circ> home db \<Longrightarrow> stored db' = stored db"
  by (simp add: stored_def fun_eq_iff option.map_comp comp_def)

lemma repo_Count_facts:
  assumes "repo_Count w = ((n, err), w')"
  shows "undisturbed w w'" "err = None \<Longrightarrow> n = int (sql_count (database w))"
proof -
  obtain q w1 where q: "exec_call (\<lambda>db. (sql_count db, db)) w = (q, w1)" by (metis surj_pair)
  note e = exec_query_cases [OF q]
  show "undisturbed w w'" "err = None \<Longrightarrow> n = int (sql_count (database w))"
    using assms e by (cases q; auto simp: repo_Count_def q intro: undisturbed_trans)+
qed

text \<open>What a call of \<open>create_task\<close> can leave behind.\<close>

definition created :: "mysqlRepository \<Rightarrow> task \<Rightarrow> bool \<Rightarrow> database \<Rightarrow> database \<Rightarrow> bool" where
  "created r t isTaken db db' \<longleftrightarrow> task_id t \<notin> dom (stored db) \<and>
     (\<exists>c. homed_at c (exec_time t) isTaken (appInstanceId r) \<and> home db' = (home db)(task_id t \<mapsto> c))"

lemma created_stored: "created r t isTaken db db' \<Longrightarrow> stored db' = (stored db)(task_id t \<mapsto> exec_time t)"
  by (auto simp: created_def homed_at_def dest!: stored_home_upd)

lemma call_create_task_facts:
  assumes s: "repo_sound r my w" and c: "call_create_task r my t isTaken w = (e, w')"
  shows "steady w w'" "db_ok (database w')"
    "case e of None \<Rightarrow> created r t isTaken (database w) (database w')
     | Some err \<Rightarrow>
         (if has_number ER_DUP_ENTRY err then task_id t \<in> dom (stored (database w)) \<and> home (database w') = home (database w)
          else if has_number ER_LOCK_DEADLOCK err then home (database w') = home (database w)
          else home (database w') = home (database w) \<or> created r t isTaken (database w) (database w'))"
proof -
  note ok = repo_soundD [OF s]
  let ?db = "database w"
  define db1 where "db1 = snd (sql_create_task my (appInstanceId r) (task_id t) (exec_time t) isTaken
      (MaxCountTasksInCollection r) ?db)"
  define own where "own = fst (sql_create_task my (appInstanceId r) (task_id t) (exec_time t) isTaken
      (MaxCountTasksInCollection r) ?db)"
  define db0 where "db0 = snd (find_or_insert_collection my (appInstanceId r) (exec_time t) isTaken
      (MaxCountTasksInCollection r) ?db)"
  have db0: "db_ok db0" "home db0 = home ?db"
    unfolding db0_def using find_or_insert_collection_ok [OF ok] by (metis surj_pair snd_conv)+
  have db1: "db_ok db1 \<and> (if task_id t \<in> dom (stored ?db)
      then own = Some (MySQLError ER_DUP_ENTRY ''Duplicate entry'') \<and> home db1 = home ?db
      else own = None \<and> created r t isTaken ?db db1)"
  proof (cases "task_id t \<in> dom (stored ?db)")
    case True
    from sql_create_task_dup [OF ok this, of "appInstanceId r" "exec_time t" isTaken "MaxCountTasksInCollection r"]
    show ?thesis using True unfolding own_def db1_def by (metis fst_conv snd_conv)
  next
    case False
    from sql_create_task_new [OF ok this, of "appInstanceId r" "exec_time t" isTaken "MaxCountTasksInCollection r"]
    show ?thesis using False unfolding own_def db1_def created_def by (metis fst_conv snd_conv)
  qed
  obtain x w1 where n: "next_outcome w = (x, w1)" by (metis surj_pair)
  have u: "undisturbed w w1" using n by (rule next_outcome_undisturbed)
  then have w1: "database w1 = ?db" by (rule undisturbed_database)
  have st: "steady w (w1\<lparr>database := d\<rparr>)" "steady w w1" for d
    using u by (simp_all add: undisturbed_def steady_def)
  have x: "documented_outcome x" using s next_outcome_in [OF n] by (auto simp: repo_sound_def)
  have r: "(e, w') = (case x of Refused e \<Rightarrow> (Some e, w1) | BreaksAfter k e \<Rightarrow> (Some e, w1\<lparr>database := db0\<rparr>)
      | Unacked e \<Rightarrow> (Some e, w1\<lparr>database := db1\<rparr>) | _ \<Rightarrow> (own, w1\<lparr>database := db1\<rparr>))"
    using c unfolding call_create_task_def n Let_def prod.case w1 db0_def db1_def own_def by simp
  show "steady w w'" using r st by (cases x) auto
  show "db_ok (database w')" using r db0(1) db1 w1 ok(1) by (cases x) auto
  have nodup: "\<not> has_number ER_DUP_ENTRY err" if "x = Refused err \<or> x = Unacked err \<or> (\<exists>k. x = BreaksAfter k err)" for err
    using that x by (cases err) auto
  have nodead: "\<not> has_number ER_LOCK_DEADLOCK err" if "x = Unacked err" for err
    using that x by (cases err) auto
  have dup: "has_number ER_DUP_ENTRY (MySQLError ER_DUP_ENTRY m)" for m by simp
  show "case e of None \<Rightarrow> created r t isTaken ?db (database w')
     | Some err \<Rightarrow>
         (if has_number ER_DUP_ENTRY err then task_id t \<in> dom (stored ?db) \<and> home (database w') = home ?db
          else if has_number ER_LOCK_DEADLOCK err then home (database w') = home ?db
          else home (database w') = home ?db \<or> created r t isTaken ?db (database w'))"
    using r nodup nodead db0(2) db1 w1
    by (cases x; cases "task_id t \<in> dom (stored ?db)") (auto simp: dup)
qed

lemma repo_Create_facts:
  assumes s: "repo_sound r my w" and c: "repo_Create r my t isTaken w = (err, w')"
  shows "steady w w'" "repo_sound r my w'"
    "create_result t (stored_tasks w) err (stored_tasks w')"
    "err = None \<Longrightarrow> created r t isTaken (database w) (database w')"
    "err = Some RepoErrorDeadlock \<Longrightarrow> home (database w') = home (database w)"
proof -
  obtain e w1 where e: "call_create_task r my t isTaken w = (e, w1)" by (metis surj_pair)
  note f = call_create_task_facts [OF s e]
  have u: "undisturbed w1 w'" using c by (cases e) (auto simp: repo_Create_def e Let_def)
  then have w': "database w' = database w1" by (rule undisturbed_database)
  show st: "steady w w'" using f(1) undisturbed_steady [OF u] by (rule steady_trans)
  show "repo_sound r my w'" using s st f(2) w' by (simp add: sound_steady steadyD)
  show "created r t isTaken (database w) (database w')" if "err = None"
  proof -
    have "e = None" using that c by (cases e) (simp_all add: repo_Create_def e Let_def)
    with f(3) w' show ?thesis by simp
  qed
  show "home (database w') = home (database w)" if "err = Some RepoErrorDeadlock"
  proof (cases e)
    case None
    with that c show ?thesis by (simp add: repo_Create_def e)
  next
    case (Some x)
    with that c have "has_number ER_LOCK_DEADLOCK x"
      by (simp add: repo_Create_def e Let_def split: if_splits)
    with Some f(3) w' show ?thesis by (simp split: if_splits)
  qed
  have new: "task_id t \<notin> dom (stored (database w))"
    if "created r t isTaken (database w) (database w1)" using that by (simp add: created_def)
  show "create_result t (stored_tasks w) err (stored_tasks w')"
  proof (cases e)
    case None
    then have "created r t isTaken (database w) (database w1)" "err = None"
      using f(3) c by (simp_all add: repo_Create_def e)
    with new w' show ?thesis by (simp add: create_result_def stored_tasks_def created_stored)
  next
    case (Some x)
    then have "err = Some (if has_number ER_DUP_ENTRY x then RepoErrorTaskExist
        else if has_number ER_LOCK_DEADLOCK x then RepoErrorDeadlock else RepoErrorCreatingTask)"
      using c by (simp add: repo_Create_def e Let_def)
    with Some f(3) w' new stored_home [of "database w1" "database w"] created_stored show ?thesis
      by (cases "has_number ER_DUP_ENTRY x"; cases "has_number ER_LOCK_DEADLOCK x";
          cases "home (database w1) = home (database w)")
         (simp_all add: create_result_def stored_tasks_def)
  qed
qed

text \<open>Cleaning removes old empty collections only, so no task moves.\<close>

lemma deleteEmptyCollections_facts:
  assumes ok: "db_ok (database w)" and d: "deleteEmptyCollections w = (res, w')"
  shows "steady w w'" "db_ok (database w')" "home (database w') = home (database w)"
proof -
  obtain db_now w0 where t: "unix_timestamp w = (db_now, w0)" by (metis surj_pair)
  obtain q w1 where q: "exec_call (\<lambda>db. (sql_empty_collections db_now db, db)) w0 = (q, w1)" by (metis surj_pair)
  have u1: "undisturbed w w1"
    using unix_timestamp_undisturbed [OF t] exec_query_cases(1) [OF q] by (rule undisturbed_trans)
  have "steady w w' \<and> db_ok (database w') \<and> home (database w') = home (database w)"
  proof (cases q)
    case (Inl e)
    with u1 d ok show ?thesis by (auto simp: deleteEmptyCollections_def t q undisturbed_def)
  next
    case (Inr rows)
    then have rows: "rows = sql_empty_collections db_now (database w)"
      using exec_query_cases [OF q] undisturbed_database [OF unix_timestamp_undisturbed [OF t]] by auto
    obtain read w2 where r: "read_rows rows w1 = (read, w2)" by (metis surj_pair)
    have u2: "undisturbed w w2" using u1 read_rows_undisturbed [OF r] by (rule undisturbed_trans)
    have closed: "steady w (close_rows v) \<and> db_ok (database (close_rows v)) \<and>
        home (database (close_rows v)) = home (database w)"
      if "steady w v" "db_ok (database v)" "home (database v) = home (database w)" for v
      using that close_rows_undisturbed [of v] by (auto simp: undisturbed_def intro: steady_trans)
    have easy: "steady w w2" "db_ok (database w2)" "home (database w2) = home (database w)"
      using u2 ok by (simp_all add: undisturbed_def)
    show ?thesis
    proof (cases "\<exists>ks. read = AllRows ks \<and> 0 < length ks")
      case False
      then have "w' = close_rows w2"
        using d by (cases read) (auto simp: deleteEmptyCollections_def t q r Inr)
      with closed easy show ?thesis by simp
    next
      case True
      then have read: "read = AllRows rows" "0 < length rows" using read_rows_result [OF r] by auto
      obtain del w3 where del: "exec_call (sql_delete_collections rows) w2 = (del, w3)" by (metis surj_pair)
      obtain db' where db': "sql_delete_collections rows (database w) = (None, db')" "db_ok db'"
        "home db' = home (database w)" using sql_clean_ok [OF ok, of db_now] rows by metis
      have "w' = close_rows w3"
        using d read by (auto simp: deleteEmptyCollections_def t q r Inr del split: sum.splits option.splits)
      moreover have "steady w w3 \<and> db_ok (database w3) \<and> home (database w3) = home (database w)"
        using del easy db' undisturbed_database [OF u2]
        by (cases rule: exec_call_cases) (auto simp: undisturbed_def intro: steady_trans)
      ultimately show ?thesis using closed by simp
    qed
  qed
  then show "steady w w'" "db_ok (database w')" "home (database w') = home (database w)" by simp_all
qed

lemma count_and_clean_facts:
  assumes s: "repo_sound r my w"
  obtains w' where "count_and_clean r w = Some w'" "repo_sound r my w'" "monitor w' = monitor w"
    "home (database w') = home (database w)"
proof -
  let ?w = "w\<lparr>cleanRequestCount := wrap32 (cleanRequestCount w + 1)\<rparr>"
  obtain res w1 where d: "deleteEmptyCollections ?w = (res, w1)" by (metis surj_pair)
  have ok: "db_ok (database ?w)" using s by (simp add: repo_sound_def)
  note f = deleteEmptyCollections_facts [OF ok d]
  have s1: "repo_sound r my w1" "monitor w1 = monitor w" "home (database w1) = home (database w)"
    using s f by (auto simp: repo_sound_def steady_def)
  have s0: "repo_sound r my ?w" using s by (simp add: repo_sound_def)
  have s2: "repo_sound r my (v\<lparr>cleanRequestCount := 0\<rparr>)" if "repo_sound r my v" for v :: "'a repo_world_scheme"
    using that by (simp add: repo_sound_def)
  have s3: "repo_sound r my (log_error m w1)" for m using s1(1) by (simp add: repo_sound_def)
  have no_panic: "\<not> (0 < CleaningFrequency r \<and> wrap32 (CleaningFrequency r) = 0)"
    using s by (auto simp: repo_sound_def)
  define v where "v = (case res of None \<Rightarrow> w1 | Some msg \<Rightarrow> log_error msg w1)"
  have v: "repo_sound r my (v\<lparr>cleanRequestCount := 0\<rparr>)" "monitor v = monitor w"
    "home (database v) = home (database w)"
    unfolding v_def using s1 s2 s3 by (cases res; simp)+
  have "count_and_clean r w = Some ?w \<or> count_and_clean r w = Some (v\<lparr>cleanRequestCount := 0\<rparr>)"
    using no_panic by (simp add: count_and_clean_def d Let_def v_def)
  then show thesis
  proof
    assume "count_and_clean r w = Some ?w"
    with s0 show thesis by (intro that [of ?w]) simp_all
  next
    assume "count_and_clean r w = Some (v\<lparr>cleanRequestCount := 0\<rparr>)"
    with v show thesis by (intro that [of "v\<lparr>cleanRequestCount := 0\<rparr>"]) simp_all
  qed
qed

lemma repo_Delete_facts:
  assumes s: "repo_sound r my w"
  obtains res w' where "repo_Delete r ts w = Some (res, w')" "repo_sound r my w'" "monitor w' = monitor w"
    "delete_result (task_id ` set ts) (stored_tasks w) res (stored_tasks w')"
    "snd res = None \<Longrightarrow> home (database w') = home (database w) |` (- task_id ` set ts)"
proof (cases "ts = []")
  case True
  with s that [of "(0, None)" w] show thesis
    by (simp add: repo_Delete_def delete_result_def restrict_map_def fun_eq_iff)
next
  case False
  note ok = repo_soundD(1) [OF s]
  obtain d w1 where d: "exec_call (sql_delete_tasks (map task_id ts)) w = (d, w1)" by (metis surj_pair)
  note f = sql_delete_tasks_ok [OF ok, of "map task_id ts"]
  let ?D = "task_id ` set ts"
  have gone: "stored (snd (sql_delete_tasks (map task_id ts) (database w))) = stored (database w) |` (- ?D)"
    using f(2) by (simp add: stored_home_restrict)
  from d show thesis
  proof (cases rule: exec_call_cases)
    case (refused e)
    let ?err = "if has_number ER_LOCK_DEADLOCK e then RepoErrorDeadlock else RepoErrorDeletingTask"
    have db: "database w1 = database w" using refused(2) by (rule undisturbed_database)
    note st = undisturbed_steady [OF refused(2)]
    show thesis
    proof (rule that [of "(0, Some ?err)" "log_error (db_error_text e) w1"])
      show "repo_Delete r ts w = Some ((0, Some ?err), log_error (db_error_text e) w1)"
        using False by (simp add: repo_Delete_def d refused(1))
      show "repo_sound r my (log_error (db_error_text e) w1)"
        using s st ok by (simp add: sound_steady steadyD db)
      show "delete_result ?D (stored_tasks w) (0, Some ?err) (stored_tasks (log_error (db_error_text e) w1))"
        by (simp add: delete_result_def stored_tasks_def db)
    qed (simp_all add: steadyD(1) [OF st])
  next
    case (unacked e)
    have nodead: "\<not> has_number ER_LOCK_DEADLOCK e"
      using unacked(4) s documented_unacked by (auto simp: repo_sound_def)
    show thesis
    proof (rule that [of "(0, Some RepoErrorDeletingTask)" "log_error (db_error_text e) w1"])
      show "repo_Delete r ts w = Some ((0, Some RepoErrorDeletingTask), log_error (db_error_text e) w1)"
        using False nodead by (simp add: repo_Delete_def d unacked(1))
      show "repo_sound r my (log_error (db_error_text e) w1)"
        using s unacked(2,3) f(1) by (simp add: sound_steady steadyD)
      show "delete_result ?D (stored_tasks w) (0, Some RepoErrorDeletingTask)
          (stored_tasks (log_error (db_error_text e) w1))"
        using gone unacked(3) by (simp add: delete_result_def stored_tasks_def)
    qed (simp_all add: steadyD(1) [OF unacked(2)])
  next
    case answered
    have s1: "repo_sound r my w1" using s answered(2,3) f(1) by (simp add: sound_steady steadyD)
    from count_and_clean_facts [OF this] obtain w2 where c: "count_and_clean r w1 = Some w2"
      "repo_sound r my w2" "monitor w2 = monitor w1" "home (database w2) = home (database w1)" by metis
    have h: "home (database w2) = home (database w) |` (- ?D)" using c(4) answered(3) f(2) by simp
    let ?n = "int (fst (sql_delete_tasks (map task_id ts) (database w)))"
    show thesis
    proof (rule that [of "(?n, None)" w2])
      show "repo_Delete r ts w = Some ((?n, None), w2)"
        using False c(1) by (simp add: repo_Delete_def d answered(1))
      show "delete_result ?D (stored_tasks w) (?n, None) (stored_tasks w2)"
        using f(4) stored_home_restrict [OF h] by (simp add: delete_result_def stored_tasks_def)
      show "home (database w2) = home (database w) |` (- ?D)" by (rule h)
    qed (simp_all add: c(2,3) steadyD(1) [OF answered(2)])
  qed
qed

section \<open>Transactions\<close>

text \<open>
  \<open>came_to w k db v\<close>: since \<open>w\<close> the steps have led to \<open>v\<close>, with \<open>k\<close> open transactions and the
  database \<open>db\<close>.
\<close>

definition came_to :: "'a repo_world_scheme \<Rightarrow> nat \<Rightarrow> database \<Rightarrow> 'a repo_world_scheme \<Rightarrow> bool" where
  "came_to w k db v \<longleftrightarrow> monitor v = monitor w \<and> set (outcomes v) \<subseteq> set (outcomes w) \<and>
     cleanRequestCount v = cleanRequestCount w \<and> open_tx v = k \<and> database v = db"

lemma came_to_start: "undisturbed w v \<Longrightarrow> came_to w (open_tx w) (database w) v"
  by (simp add: came_to_def undisturbed_def steady_def)

lemma came_to_undisturbed: "came_to w k db v \<Longrightarrow> undisturbed v v' \<Longrightarrow> came_to w k db v'"
  by (auto simp: came_to_def undisturbed_def steady_def)

lemma came_to_steady: "came_to w k db v \<Longrightarrow> steady v v' \<Longrightarrow> came_to w k (database v') v'"
  by (auto simp: came_to_def steady_def)

lemma came_to_log_error [simp]: "came_to w k db (log_error m v) \<longleftrightarrow> came_to w k db v"
  by (simp add: came_to_def)

lemma came_to_close_rows: "came_to w k db v \<Longrightarrow> came_to w k db (close_rows v)"
  using close_rows_undisturbed by (rule came_to_undisturbed [rotated])

lemma came_to_tx: "came_to w k db v \<Longrightarrow> came_to w j db (v\<lparr>open_tx := j\<rparr>)"
  by (simp add: came_to_def)

lemma came_to_begin:
  assumes "came_to w k db v" "begin_tx v = (e, v')"
  shows "came_to w (if e = None then Suc k else k) db v'"
proof -
  obtain e1 v1 where p: "plain_call v = (e1, v1)" by (metis surj_pair)
  have "came_to w k db v1" using assms(1) plain_call_undisturbed [OF p] by (rule came_to_undisturbed)
  moreover from this have "open_tx v1 = k" by (simp add: came_to_def)
  ultimately show ?thesis
    using assms(2) by (cases e1) (auto simp: begin_tx_def p intro: came_to_tx)
qed

lemma came_to_rollback:
  assumes "came_to w k db v" "rollback_tx m v = (t, v')"
  shows "came_to w (k - 1) db v'"
proof -
  obtain e1 v1 where p: "plain_call v = (e1, v1)" by (metis surj_pair)
  have c: "came_to w k db v1" using assms(1) plain_call_undisturbed [OF p] by (rule came_to_undisturbed)
  then have "open_tx v1 = k" by (simp add: came_to_def)
  with c show ?thesis using assms(2) by (auto simp: rollback_tx_def p Let_def intro: came_to_tx)
qed

lemma came_to_commit:
  assumes "came_to w k db v" "commit_tx f v = (e, v')"
  shows "came_to w (k - 1) (f db) v' \<or> (came_to w (k - 1) db v' \<and> e \<noteq> None)"
proof -
  obtain x v1 where n: "next_outcome v = (x, v1)" by (metis surj_pair)
  have c: "came_to w k db v1" using assms(1) next_outcome_undisturbed [OF n] by (rule came_to_undisturbed)
  then have "open_tx v1 = k" "database v1 = db" by (simp_all add: came_to_def)
  with c show ?thesis
    using assms(2) by (cases x) (auto simp: commit_tx_def n Let_def came_to_def)
qed

text \<open>\<open>found_by\<close>: the ids a search sees; the readings of the clock are those of the world it starts in.\<close>

definition found_by :: "mysqlRepository \<Rightarrow> mysql \<Rightarrow> duration \<Rightarrow> 'a repo_world_scheme \<Rightarrow> nat list" where
  "found_by r my d w = sql_find_collections my (Unix (clock w (clock_reads w) + d)) (appInstanceId r) (database w)"

definition taken_db :: "mysqlRepository \<Rightarrow> nat list \<Rightarrow> database \<Rightarrow> database" where
  "taken_db r ks db = sql_take_collections (appInstanceId r) ks db"

definition find_done :: "mysqlRepository \<Rightarrow> nat list \<Rightarrow> database \<Rightarrow> nat list option \<times> go_error option \<Rightarrow> database \<Rightarrow> bool" where
  "find_done r found db res db' \<longleftrightarrow>
     (case res of
        (Some ks, None) \<Rightarrow> ks = found \<and> ks \<noteq> [] \<and> db' = taken_db r found db
      | (None, Some e) \<Rightarrow> e \<in> {RepoErrorNoTasksFound, RepoErrorFindingTasks, RepoErrorDeadlock, RepoErrorLockWaitTimeout} \<and>
          (e = RepoErrorNoTasksFound \<longrightarrow> found = []) \<and>
          (db' = db \<or> e = RepoErrorFindingTasks \<and> db' = taken_db r found db)
      | _ \<Rightarrow> False)"

lemma take_found_facts:
  assumes c: "came_to w k db v" and t: "take_found r ids v = (res, v')" and ids: "ids \<noteq> []"
  obtains db' where "came_to w (k - 1) db' v'" "find_done r ids db res db'"
proof -
  obtain x v1 where n: "next_outcome v = (x, v1)" by (metis surj_pair)
  have c1: "came_to w k db v1" using c next_outcome_undisturbed [OF n] by (rule came_to_undisturbed)
  show thesis
  proof (cases "call_error x")
    case (Some err)
    obtain m v2 where rb: "rollback_tx (db_error_text err) v1 = (m, v2)" by (metis surj_pair)
    show thesis
      using that [of db] came_to_rollback [OF c1 rb] t Some
      by (auto simp: take_found_def n rb Let_def find_done_def)
  next
    case None
    obtain e v2 where cm: "commit_tx (sql_take_collections (appInstanceId r) ids) v1 = (e, v2)" by (metis surj_pair)
    have r: "res = (case e of None \<Rightarrow> (Some ids, None) | Some err \<Rightarrow> (None, Some RepoErrorFindingTasks))"
      "v' = (case e of None \<Rightarrow> v2 | Some err \<Rightarrow> log_error (db_error_text err) v2)"
      using t None by (auto simp: take_found_def n cm split: option.splits)
    show thesis using came_to_commit [OF c1 cm]
    proof
      assume "came_to w (k - 1) (sql_take_collections (appInstanceId r) ids db) v2"
      then show thesis
        using r ids by (intro that [of "taken_db r ids db"]) (auto simp: find_done_def taken_db_def split: option.splits)
    next
      assume "came_to w (k - 1) db v2 \<and> e \<noteq> None"
      then show thesis using r by (intro that [of db]) (auto simp: find_done_def split: option.splits)
    qed
  qed
qed

lemma read_rows_scan: "read_rows rows v = (ScanError m xs, v') \<Longrightarrow> \<exists>i. ScanFails i m \<in> set (outcomes v)"
  using next_outcome_in [of v]
  by (auto simp: read_rows_def Let_def split: prod.splits outcome.splits if_splits)

lemma find_rows_facts:
  assumes c: "came_to w k db v" and t: "find_rows r rows v = (res, v')"
  obtains db' j where "came_to w j db' v'" "find_done r rows db res db'"
    "j = k - 1 \<or> j = k \<and> (\<exists>i m. ScanFails i m \<in> set (outcomes w))"
proof -
  obtain read v1 where rd: "read_rows rows v = (read, v1)" by (metis surj_pair)
  have c1: "came_to w k db v1" using c read_rows_undisturbed [OF rd] by (rule came_to_undisturbed)
  show thesis
  proof (cases read)
    case (ScanError m xs)
    have "\<exists>i m. ScanFails i m \<in> set (outcomes w)"
      using read_rows_scan rd c by (fastforce simp: ScanError came_to_def)
    then show thesis
      using that [of k db] c1 t by (auto simp: find_rows_def rd ScanError find_done_def)
  next
    case (RowsErr err xs)
    obtain m v2 where rb: "rollback_tx (db_error_text err) v1 = (m, v2)" by (metis surj_pair)
    show thesis
      using that [of "k - 1" db] came_to_rollback [OF c1 rb] t
      by (auto simp: find_rows_def rd RowsErr rb Let_def find_done_def)
  next
    case (AllRows xs)
    then have xs: "read = AllRows rows" using read_rows_result [OF rd] by simp
    show thesis
    proof (cases "rows = []")
      case True
      obtain e v2 where cm: "commit_tx (\<lambda>db. db) v1 = (e, v2)" by (metis surj_pair)
      have r: "(res, v') = (case e of Some err \<Rightarrow> ((None, Some RepoErrorFindingTasks), log_error (db_error_text err) v2)
          | None \<Rightarrow> ((None, Some RepoErrorNoTasksFound), v2))"
        using t unfolding find_rows_def rd xs by (simp add: True cm)
      show thesis
        using that [of "k - 1" db] came_to_commit [OF c1 cm] r True
        by (cases e) (auto simp: find_done_def)
    next
      case False
      then have "take_found r rows v1 = (res, v')" using t by (simp add: find_rows_def rd xs)
      from take_found_facts [OF c1 this False] that show thesis by metis
    qed
  qed
qed

lemma Find_facts:
  assumes t: "FindBySecToExecTime r my d w = (res, w')"
  obtains db' j where "came_to w j db' w'" "find_done r (found_by r my d w) (database w) res db'"
    "j = open_tx w \<or> j = Suc (open_tx w) \<and> (\<exists>i m. ScanFails i m \<in> set (outcomes w))"
proof -
  obtain now w1 where n: "time_Now w = (now, w1)" by (metis surj_pair)
  have now: "now = clock w (clock_reads w)" using n by (simp add: time_Now_def)
  obtain b w2 where b: "begin_tx w1 = (b, w2)" by (metis surj_pair)
  have c1: "came_to w (open_tx w) (database w) w1" using time_Now_undisturbed [OF n] by (rule came_to_start)
  note c2 = came_to_begin [OF c1 b]
  show thesis
  proof (cases b)
    case (Some err)
    then show thesis
      using that [of "open_tx w" "database w"] c2 t by (auto simp: FindBySecToExecTime_def n b find_done_def)
  next
    case None
    then have c2: "came_to w (Suc (open_tx w)) (database w) w2" using c2 by simp
    let ?g = "\<lambda>db. sql_find_collections my (Unix (now + d)) (appInstanceId r) db"
    obtain q w3 where q: "exec_call (\<lambda>db. (?g db, db)) w2 = (q, w3)" by (metis surj_pair)
    have c3: "came_to w (Suc (open_tx w)) (database w) w3"
      using c2 exec_query_cases(1) [OF q] by (rule came_to_undisturbed)
    show thesis
    proof (cases q)
      case (Inl err)
      obtain m w4 where rb: "rollback_tx (db_error_text err) w3 = (m, w4)" by (metis surj_pair)
      have "came_to w (open_tx w) (database w) w4" using came_to_rollback [OF c3 rb] by simp
      then show thesis
        using that [of "open_tx w" "database w"] t
        by (auto simp: FindBySecToExecTime_def n b None q Inl rb Let_def find_done_def)
    next
      case (Inr rows)
      have "database w2 = database w" using c2 by (simp add: came_to_def)
      then have rows: "rows = found_by r my d w"
        using exec_query_cases(2) [OF q] Inr now by (simp add: found_by_def)
      obtain res1 w4 where f: "find_rows r rows w3 = (res1, w4)" by (metis surj_pair)
      have "res1 = res" "w' = close_rows w4" using t by (auto simp: FindBySecToExecTime_def n b None q Inr f)
      with find_rows_facts [OF c3 f] that came_to_close_rows rows show thesis by (metis diff_Suc_1)
    qed
  qed
qed

section \<open>The contract\<close>

definition same_rows :: "database \<Rightarrow> database \<Rightarrow> bool" where
  "same_rows db db' \<longleftrightarrow> coll_rows db' = coll_rows db \<and> task_rows db' = task_rows db \<and>
     next_coll_id db' = next_coll_id db"

lemma same_rows_ok: "same_rows db db' \<Longrightarrow> db_ok db \<Longrightarrow> db_ok db'"
  by (simp add: same_rows_def db_ok_def)

lemma same_rows_home: "same_rows db db' \<Longrightarrow> home db' = home db"
  by (simp add: same_rows_def home_def task_map_def coll_map_def fun_eq_iff)

lemma same_rows_exec:
  assumes "came_to w k db v" "same_rows db0 db" "exec_call f v = (res, v')" "\<And>d. same_rows d (snd (f d))"
  obtains db' where "came_to w k db' v'" "same_rows db0 db'"
proof -
  have "database v = db" using assms(1) by (simp add: came_to_def)
  then have s: "same_rows db0 (snd (f (database v)))" using assms(2) assms(4) [of db] by (simp add: same_rows_def)

  from assms(3) show thesis
  proof (cases rule: exec_call_cases)
    case (refused e)
    show thesis using came_to_undisturbed [OF assms(1) refused(2)] assms(2) by (rule that)
  next
    case (unacked e)
    then show thesis using came_to_steady [OF assms(1) unacked(2)] s by (intro that) simp_all
  next
    case answered
    then show thesis using came_to_steady [OF assms(1) answered(2)] s by (intro that) simp_all
  qed
qed

lemma same_rows_ddl:
  "same_rows d (snd (create_collection_table d))" "same_rows d (snd (create_task_table d))"
  "same_rows d (snd (create_procedure d))"
  by (simp_all add: create_collection_table_def create_task_table_def create_procedure_def same_rows_def)

lemma up_failed_facts: "came_to w k db v \<Longrightarrow> up_failed err v = (res, v') \<Longrightarrow> came_to w (k - 1) db v'"
  by (auto simp: up_failed_def split: prod.splits dest: came_to_rollback)

lemma repo_Up_facts:
  assumes u: "repo_Up w = (res, w')"
  obtains db' where "came_to w (open_tx w) db' w'" "same_rows (database w) db'"
proof -
  obtain b w1 where b: "begin_tx w = (b, w1)" by (metis surj_pair)
  have c0: "came_to w (open_tx w) (database w) w" by (rule came_to_start) simp
  have c1: "came_to w (if b = None then Suc (open_tx w) else open_tx w) (database w) w1"
    using c0 b by (rule came_to_begin)
  have id: "same_rows (database w) (database w)" by (simp add: same_rows_def)
  show thesis
  proof (cases b)
    case (Some e)
    with that [OF _ id] c1 u show thesis by (auto simp: repo_Up_def b)
  next
    case None
    then have c1: "came_to w (Suc (open_tx w)) (database w) w1" using c1 by simp
    obtain c w2 where c: "exec_call create_collection_table w1 = (c, w2)" by (metis surj_pair)
    obtain db2 where c2: "came_to w (Suc (open_tx w)) db2 w2" "same_rows (database w) db2"
      using same_rows_exec [OF c1 id c same_rows_ddl(1)] by metis
    obtain t w3 where t: "exec_call create_task_table w2 = (t, w3)" by (metis surj_pair)
    obtain db3 where c3: "came_to w (Suc (open_tx w)) db3 w3" "same_rows (database w) db3"
      using same_rows_exec [OF c2 t same_rows_ddl(2)] by metis
    obtain p w4 where p: "exec_call create_procedure w3 = (p, w4)" by (metis surj_pair)
    obtain db4 where c4: "came_to w (Suc (open_tx w)) db4 w4" "same_rows (database w) db4"
      using same_rows_exec [OF c3 p same_rows_ddl(3)] by metis
    obtain e w5 where m: "commit_tx (\<lambda>db. db) w4 = (e, w5)" by (metis surj_pair)
    have c5: "came_to w (open_tx w) db4 w5" using came_to_commit [OF c4(1) m] by auto
    define other where "other = (case p of Inl err \<Rightarrow> Some err | Inr own \<Rightarrow> own)"
    define fails where "fails = (case other of None \<Rightarrow> False | Some err \<Rightarrow> \<not> has_number ER_SP_ALREADY_EXISTS err)"
    have r: "(res, w') = (case c of Inl err \<Rightarrow> up_failed err w2
      | Inr _ \<Rightarrow> (case t of Inl err \<Rightarrow> up_failed err w3
        | Inr _ \<Rightarrow> if fails then up_failed (the other) w4
            else (case e of Some err \<Rightarrow> (Some RepoErrorFindingTasks, log_error (db_error_text err) w5) | None \<Rightarrow> (None, w5))))"
      using u unfolding repo_Up_def b None Let_def prod.case option.case c t p m other_def fails_def
      by (auto split: sum.splits)
    have f: "came_to w (open_tx w) db v'" if "came_to w (Suc (open_tx w)) db v" "(res, v') = up_failed err v" for db v v' err
      using up_failed_facts [of w "Suc (open_tx w)"] that by (metis diff_Suc_1)
    consider (coll) err where "(res, w') = up_failed err w2" | (task) err where "(res, w') = up_failed err w3"
      | (proc) "(res, w') = up_failed (the other) w4" | (committed) "w' = w5 \<or> (\<exists>m. w' = log_error m w5)"
      using r by (auto split: sum.splits if_splits option.splits)
    then show thesis
    proof cases
      case coll then show thesis using f c2 that by metis
    next
      case task then show thesis using f c3 that by metis
    next
      case proc then show thesis using f c4 that by metis
    next
      case committed then show thesis using c5 c4(2) that by auto
    qed
  qed
qed

definition mysql_ops :: "mysqlRepository \<Rightarrow> mysql \<Rightarrow> 'a repo_world_scheme repository_ops" where
  "mysql_ops r my =
     \<lparr>op_Create = (\<lambda>t isTaken w. Some (repo_Create r my t isTaken w)),
      op_Delete = repo_Delete r,
      op_Find = (\<lambda>d w. Some (FindBySecToExecTime r my d w)),
      op_Up = (\<lambda>w. Some (repo_Up w)),
      op_Count = (\<lambda>w. Some (repo_Count w))\<rparr>"

lemma came_to_sound:
  "repo_sound r my w \<Longrightarrow> came_to w k db w' \<Longrightarrow> db_ok db \<Longrightarrow> repo_sound r my w'"
  by (auto simp: came_to_def repo_sound_def)

lemma find_done_facts:
  assumes ok: "db_ok db" and f: "find_done r found db res db'"
  shows "db_ok db'" "stored db' = stored db" "find_result res"
proof -
  have "db' = db \<or> db' = taken_db r found db"
    using f by (auto simp: find_done_def split: option.splits prod.splits)
  then show "db_ok db'" "stored db' = stored db"
    using ok sql_take_collections_ok [OF ok] by (auto simp: taken_db_def intro: stored_home_taken)
  show "find_result res"
    using f by (auto simp: find_done_def find_result_def split: option.splits prod.splits)
qed

interpretation mysql_repo: repository_contract "mysql_ops r my" "repo_sound r my" stored_tasks
proof
  fix w :: "'a repo_world_scheme" and t isTaken ts d es m k
  assume s: "repo_sound r my w"
  note ok = repo_soundD(1) [OF s]
  show "\<exists>err w'. op_Create (mysql_ops r my) t isTaken w = Some (err, w') \<and> repo_sound r my w' \<and>
      monitor w' = monitor w \<and> create_result t (stored_tasks w) err (stored_tasks w')"
  proof -
    obtain err w' where c: "repo_Create r my t isTaken w = (err, w')" by (metis surj_pair)
    from repo_Create_facts [OF s c] c show ?thesis by (auto simp: mysql_ops_def steady_def)
  qed
  show "\<exists>res w'. op_Delete (mysql_ops r my) ts w = Some (res, w') \<and> repo_sound r my w' \<and>
      monitor w' = monitor w \<and> delete_result (task_id ` set ts) (stored_tasks w) res (stored_tasks w')"
    using repo_Delete_facts [OF s, of ts] by (metis mysql_ops_def repository_ops.select_convs(2))
  show "\<exists>res w'. op_Find (mysql_ops r my) d w = Some (res, w') \<and> repo_sound r my w' \<and>
      monitor w' = monitor w \<and> stored_tasks w' = stored_tasks w \<and> find_result res"
  proof -
    obtain res w' where c: "FindBySecToExecTime r my d w = (res, w')" by (metis surj_pair)
    obtain db' j where f: "came_to w j db' w'" "find_done r (found_by r my d w) (database w) res db'"
      using Find_facts [OF c] by metis
    note g = find_done_facts [OF ok f(2)]
    have "database w' = db'" "monitor w' = monitor w" using f(1) by (simp_all add: came_to_def)
    with g came_to_sound [OF s f(1)] c show ?thesis by (simp add: mysql_ops_def stored_tasks_def)
  qed
  show "\<exists>n err w'. op_Count (mysql_ops r my) w = Some ((n, err), w') \<and> repo_sound r my w' \<and>
      monitor w' = monitor w \<and> stored_tasks w' = stored_tasks w \<and>
      (err = None \<longrightarrow> n = int (card (dom (stored_tasks w))))"
  proof -
    obtain n err w' where c: "repo_Count w = ((n, err), w')" by (metis surj_pair)
    note f = repo_Count_facts [OF c]
    have "database w' = database w" using f(1) by (rule undisturbed_database)
    moreover have "steady w w'" using f(1) by (rule undisturbed_steady)
    ultimately show ?thesis
      using f(2) s c ok by (simp add: mysql_ops_def stored_tasks_def card_stored sound_steady steadyD)
  qed
  show "\<exists>err w'. op_Up (mysql_ops r my) w = Some (err, w') \<and> repo_sound r my w' \<and>
      monitor w' = monitor w \<and> stored_tasks w' = stored_tasks w"
  proof -
    obtain err w' where c: "repo_Up w = (err, w')" by (metis surj_pair)
    obtain db' where f: "came_to w (open_tx w) db' w'" "same_rows (database w) db'"
      using repo_Up_facts [OF c] by metis
    have "database w' = db'" "monitor w' = monitor w" using f(1) by (simp_all add: came_to_def)
    with came_to_sound [OF s f(1)] same_rows_ok [OF f(2) ok] stored_home [OF same_rows_home [OF f(2)]] c
    show ?thesis by (simp add: mysql_ops_def stored_tasks_def)
  qed
  show "repo_sound r my (w\<lparr>events := es, monitor := m, clock_reads := k\<rparr>) \<and>
      stored_tasks (w\<lparr>events := es, monitor := m, clock_reads := k\<rparr>) = stored_tasks w"
    using s by (simp add: repo_sound_def stored_tasks_def)
  show "finite (dom (stored_tasks w))"
  proof -
    have "dom (stored (database w)) = row_uuid ` set (task_rows (database w))"
      using stored_None [OF ok] by (auto simp: dom_def)
    then show ?thesis by (simp add: stored_tasks_def)
  qed
qed

section \<open>Runs without failures\<close>

text \<open>With no outcomes left every call is answered.\<close>

lemma quiet_calls:
  assumes "outcomes w = []"
  shows "plain_call w = (None, w)"
    "exec_call f w = (Inr (fst (f (database w))), w\<lparr>database := snd (f (database w))\<rparr>)"
    "read_rows rows w = (AllRows rows, w)" "close_rows w = w"
    "next_outcome w = (Acked, w)"
    "begin_tx w = (None, w\<lparr>open_tx := Suc (open_tx w)\<rparr>)"
    "commit_tx g w = (None, w\<lparr>open_tx := open_tx w - 1, database := g (database w)\<rparr>)"
proof -
  show n: "next_outcome w = (Acked, w)" using assms by (simp add: next_outcome_def)
  show p: "plain_call w = (None, w)" by (simp add: plain_call_def n)
  show "exec_call f w = (Inr (fst (f (database w))), w\<lparr>database := snd (f (database w))\<rparr>)"
    by (simp add: exec_call_def n split_beta)
  show "read_rows rows w = (AllRows rows, w)" by (simp add: read_rows_def n)
  show "close_rows w = w" by (simp add: close_rows_def p)
  show "begin_tx w = (None, w\<lparr>open_tx := Suc (open_tx w)\<rparr>)" by (simp add: begin_tx_def p)
  show "commit_tx g w = (None, w\<lparr>open_tx := open_tx w - 1, database := g (database w)\<rparr>)"
    by (simp add: commit_tx_def n)
qed

lemma repo_world_same_database [simp]: "w\<lparr>database := database w\<rparr> = (w :: 'a repo_world_scheme)"
  by simp

lemma quiet_deleteEmptyCollections:
  assumes q: "outcomes w = []" and ok: "db_ok (database w)"
  obtains db' where "deleteEmptyCollections w = (None, w\<lparr>clock_reads := Suc (clock_reads w), database := db'\<rparr>)"
    "db_ok db'" "home db' = home (database w)" "task_rows db' = task_rows (database w)"
    "\<And>c. c \<in> set (coll_rows db') \<longleftrightarrow> c \<in> set (coll_rows (database w)) \<and>
       (server_clock w (clock_reads w) - 5 \<le> coll_exec c \<or> coll_size (database w) (coll_id c) \<noteq> 0)"
proof -
  let ?now = "server_clock w (clock_reads w)" and ?w = "w\<lparr>clock_reads := Suc (clock_reads w)\<rparr>"
  let ?ks = "sql_empty_collections ?now (database w)"
  obtain db' where db': "sql_delete_collections ?ks (database w) = (None, db')"
    "db_ok db'" "home db' = home (database w)" "task_rows db' = task_rows (database w)"
    "\<And>c. c \<in> set (coll_rows db') \<longleftrightarrow> c \<in> set (coll_rows (database w)) \<and>
       (?now - 5 \<le> coll_exec c \<or> coll_size (database w) (coll_id c) \<noteq> 0)"
    using sql_clean_ok [OF ok, of ?now] by metis
  have q1: "outcomes ?w = []" "outcomes (?w\<lparr>database := d\<rparr>) = []" for d using q by simp_all
  have t: "unix_timestamp w = (?now, ?w)" by (simp add: unix_timestamp_def)
  have "deleteEmptyCollections w = (None, ?w\<lparr>database := db'\<rparr>)"
  proof (cases "?ks = []")
    case True
    then have "db' = database w" using db'(1) by (simp add: sql_delete_collections_def)
    then show ?thesis by (simp add: deleteEmptyCollections_def t quiet_calls [OF q1(1)] True)
  next
    case False
    then show ?thesis
      by (simp add: deleteEmptyCollections_def t quiet_calls [OF q1(1)] quiet_calls [OF q1(2)] db'(1))
  qed
  then show thesis using that db' by simp
qed

lemma quiet_Find:
  fixes w :: "'a repo_world_scheme" and r :: mysqlRepository and my :: mysql and d :: duration
  assumes q: "outcomes w = []"
  defines "ks \<equiv> found_by r my d w"
  shows "FindBySecToExecTime r my d w =
    (if ks = [] then ((None, Some RepoErrorNoTasksFound), w\<lparr>clock_reads := Suc (clock_reads w)\<rparr>)
     else ((Some ks, None), w\<lparr>clock_reads := Suc (clock_reads w), database := taken_db r ks (database w)\<rparr>))"
proof -
  let ?w = "w\<lparr>clock_reads := Suc (clock_reads w)\<rparr>"
  let ?w1 = "?w\<lparr>open_tx := Suc (open_tx w)\<rparr>"
  have q1: "outcomes ?w = []" "outcomes ?w1 = []" using q by simp_all
  have q2: "outcomes (?w1\<lparr>open_tx := j, database := db\<rparr>) = []" for j db using q by simp
  have t: "time_Now w = (clock w (clock_reads w), ?w)" by (simp add: time_Now_def)
  have "find_rows r ks ?w1 =
    (if ks = [] then ((None, Some RepoErrorNoTasksFound), ?w)
     else ((Some ks, None), ?w\<lparr>database := taken_db r ks (database w)\<rparr>))"
    by (simp add: find_rows_def take_found_def quiet_calls [OF q1(2)] taken_db_def)
  moreover have "ks = sql_find_collections my (Unix (clock w (clock_reads w) + d)) (appInstanceId r) (database w)"
    by (simp add: ks_def found_by_def)
  moreover have "close_rows ?w = ?w" "close_rows (?w\<lparr>database := db\<rparr>) = ?w\<lparr>database := db\<rparr>" for db
    using q by (simp_all add: quiet_calls)
  ultimately show ?thesis
    by (simp add: FindBySecToExecTime_def t quiet_calls [OF q1(1)] quiet_calls [OF q1(2)])
qed

text \<open>The tasks of the collections of a list of ids, read one collection after the other.\<close>

fun drain :: "mysql \<Rightarrow> nat \<Rightarrow> nat list \<Rightarrow> 'a repo_world_scheme \<Rightarrow>
    (task list \<times> go_error option) \<times> nat list \<times> 'a repo_world_scheme" where
  "drain my 0 c w = (([], None), c, w)"
| "drain my (Suc n) c w =
     (case Collections_Next my c w of
        ((ts, Some e), c, w) \<Rightarrow> (([], Some e), c, w)
      | ((ts, None), c, w) \<Rightarrow> (let ((out, err), c, w) = drain my n c w in ((ts @ out, err), c, w)))"

lemma quiet_drain:
  assumes q: "outcomes w = []" and n: "length c < n"
  shows "drain my n c w =
    ((concat (map (\<lambda>i. sql_tasks_by_collection my i (database w)) c), Some RepoErrorNoCollections), [], w)"
  using n
proof (induction c arbitrary: n)
  case Nil
  then show ?case by (cases n) (simp_all add: Collections_Next_def)
next
  case (Cons i c)
  then obtain m where m: "n = Suc m" "length c < m" by (cases n) auto
  have "Collections_Next my (i # c) w = ((sql_tasks_by_collection my i (database w), None), c, w)"
    using q by (simp add: Collections_Next_def getTasksByCollection_def quiet_calls)
  with m Cons.IH show ?case by simp
qed

end
