(* ===== verification/Repository_Properties.thy ===== *)
theory Repository_Properties
  imports Repository
begin

text \<open>
  The properties of the repository, for every way the driver calls can fail unless a property says
  that none does (\<open>outcomes w = []\<close>).
\<close>

section \<open>A sample state\<close>

definition sample_repository :: mysqlRepository where
  "sample_repository = \<lparr>appInstanceId = ''me'', MaxCountTasksInCollection = 2, CleaningFrequency = 1\<rparr>"

definition sample_database :: database where
  "sample_database = \<lparr>coll_rows = [\<lparr>coll_id = 1, coll_exec = 50, coll_taken = ''old''\<rparr>,
       \<lparr>coll_id = 2, coll_exec = 7, coll_taken = ''''\<rparr>],
     task_rows = [\<lparr>row_uuid = ''a'', row_coll = 1\<rparr>], next_coll_id = 3,
     has_collection_table = True, has_task_table = True, has_create_task = True\<rparr>"

definition sample_world :: "outcome list \<Rightarrow> repo_world" where
  "sample_world xs = \<lparr>events = [], monitor = \<lparr>periodMeasure = second, metrics = Map.empty, subscriptionChs = Map.empty\<rparr>,
     clock = (\<lambda>_. 100 * second), clock_reads = 0, database = sample_database, outcomes = xs,
     open_tx = 0, cleanRequestCount = 0, server_clock = (\<lambda>_. 100)\<rparr>"

lemma sample_ok [simp]: "db_ok sample_database"
  by (simp add: db_ok_def sample_database_def)

lemma sample_world_simps [simp]: "database (sample_world xs) = sample_database"
  "outcomes (sample_world xs) = xs" "open_tx (sample_world xs) = 0" "cleanRequestCount (sample_world xs) = 0"
  "clock (sample_world xs) n = 100 * second" "server_clock (sample_world xs) n = 100"
  by (simp_all add: sample_world_def)

lemma sample_sound [simp]:
  "repo_sound sample_repository example_mysql (sample_world xs) \<longleftrightarrow> (\<forall>x \<in> set xs. documented_outcome x)"
  by (simp add: repo_sound_def sample_repository_def wrap32_def)

text \<open>What the collections found by an instance that owns none hold.\<close>

lemma found_tasks:
  fixes w :: "'a repo_world_scheme" and d :: duration
  assumes "repo_sound r my w"
    and other: "\<forall>c \<in> set (coll_rows (database w)). coll_taken c \<noteq> appInstanceId r"
  defines "ks \<equiv> found_by r my d w"
  defines "out \<equiv> concat (map (\<lambda>i. sql_tasks_by_collection my i (taken_db r ks (database w))) ks)"
  shows "distinct (map task_id out)"
    "\<forall>t. t \<in> set out \<longleftrightarrow> stored_tasks w (task_id t) = Some (exec_time t) \<and>
       exec_time t \<le> Unix (clock w (clock_reads w) + d)"
proof -
  note ok = repo_soundD [OF assms(1)]
  let ?T = "Unix (clock w (clock_reads w) + d)"
  have ks: "ks = sql_find_collections my ?T (appInstanceId r) (database w)" by (simp add: ks_def found_by_def)
  note k = sql_find_collections_ok [OF ok, of ?T "appInstanceId r", folded ks]
  have set: "set ks = coll_id ` set (due (database w) ?T (appInstanceId r))"
    using k(1) by (metis mset_eq_setD set_map)
  note taken = sql_take_collections_ok [OF ok(1), of "appInstanceId r" ks, folded taken_db_def]
  have sub: "set ks \<subseteq> coll_id ` set (coll_rows (taken_db r ks (database w)))"
    unfolding set taken(5) by (auto simp: due_def image_image)
  note read = read_collections_ok [OF taken(1) ok(2) k(2) sub, folded out_def]
  show "distinct (map task_id out)" by (rule read(1))
  show "\<forall>t. t \<in> set out \<longleftrightarrow> stored_tasks w (task_id t) = Some (exec_time t) \<and> exec_time t \<le> ?T"
  proof
    fix t
    have in_ks: "coll_id c \<in> set ks \<longleftrightarrow> coll_exec c \<le> ?T" if "home (database w) u = Some c" for u c
    proof -
      from that obtain i where "coll_map (database w) i = Some c" by (auto simp: home_def split: bind_split_asm)
      then have c: "c \<in> set (coll_rows (database w))" using ok(1) by (simp add: coll_map_Some)
      have same: "e = c" if "e \<in> set (coll_rows (database w))" "coll_id e = coll_id c" for e
        using that c ok(1) coll_map_Some [OF ok(1)] by (metis option.inject)
      have "coll_id c \<in> set ks \<longleftrightarrow> c \<in> set (due (database w) ?T (appInstanceId r))"
        unfolding set using same by (fastforce simp: due_def)
      also have "\<dots> \<longleftrightarrow> coll_exec c \<le> ?T" using c other by (simp add: due_def)
      finally show ?thesis .
    qed
    have "t \<in> set out \<longleftrightarrow> (\<exists>c. home (database w) (task_id t) = Some c \<and> exec_time t = coll_exec c \<and> coll_id c \<in> set ks)"
      unfolding read(2) taken(2) by auto
    also have "\<dots> \<longleftrightarrow> stored_tasks w (task_id t) = Some (exec_time t) \<and> exec_time t \<le> ?T"
      using in_ks by (auto simp: stored_tasks_def stored_def)
    finally show "t \<in> set out \<longleftrightarrow> stored_tasks w (task_id t) = Some (exec_time t) \<and> exec_time t \<le> ?T" .
  qed
qed

section \<open>Properties\<close>

text \<open>
  C19: \<open>Create\<close> puts the task, with its execution time, into a collection of that time, one of the
  instance itself exactly when the task is created as taken; it answers \<open>RepoErrorTaskExist\<close> only
  for an id that is stored, and no other stored task changes, whatever the server answers. After
  \<open>RepoErrorTaskExist\<close> and \<open>RepoErrorDeadlock\<close> nothing is stored.
\<close>

theorem Create_stores_in_place:
  assumes "repo_sound r my w" "repo_Create r my t isTaken w = (err, w')"
  shows "repo_sound r my w' \<and> create_result t (stored_tasks w) err (stored_tasks w') \<and>
    (err = None \<longrightarrow> (\<exists>c. home (database w') (task_id t) = Some c \<and> coll_exec c = exec_time t \<and>
       (isTaken \<longrightarrow> coll_taken c = appInstanceId r) \<and>
       (\<not> isTaken \<longrightarrow> coll_taken c \<noteq> appInstanceId r \<or> coll_taken c = '''')))"
proof -
  note f = repo_Create_facts [OF assms]
  have "\<exists>c. home (database w') (task_id t) = Some c \<and> homed_at c (exec_time t) isTaken (appInstanceId r)" if "err = None"
    using f(4) that by (fastforce simp: created_def)
  with f(2,3) show ?thesis by (auto simp: homed_at_def)
qed

theorem Create_stores_in_place_witness:
  "\<exists>w'. repo_Create sample_repository example_mysql \<lparr>task_id = ''b'', exec_time = 50\<rparr> True (sample_world []) = (None, w') \<and>
     stored_tasks w' = (stored_tasks (sample_world []))(''b'' \<mapsto> 50)"
proof -
  have s: "repo_sound sample_repository example_mysql (sample_world [])" by simp
  obtain w' where c: "repo_Create sample_repository example_mysql \<lparr>task_id = ''b'', exec_time = 50\<rparr> True (sample_world []) = (None, w')"
    by (simp add: repo_Create_def call_create_task_def quiet_calls sql_create_task_def find_or_insert_collection_def
        collections_with_room_def insert_collection_def insert_task_def sample_database_def sample_repository_def split_beta Let_def)
  from Create_stores_in_place [OF s c] have "stored_tasks w' = (stored_tasks (sample_world []))(''b'' \<mapsto> 50)"
    by (simp add: create_result_def)
  with c show ?thesis by blast
qed

text \<open>
  \<open>Create\<close> never makes a collection larger than \<open>MaxCountTasksInCollection\<close> tasks (or larger than
  one task, when that is less), whatever the outcome of the call.
\<close>

theorem Create_bounds_collections:
  assumes "repo_sound r my w" "sizes_ok (MaxCountTasksInCollection r) (database w)"
  shows "sizes_ok (MaxCountTasksInCollection r) (database (snd (repo_Create r my t isTaken w)))"
proof -
  note ok = repo_soundD [OF assms(1)]
  let ?limit = "MaxCountTasksInCollection r"
  let ?find = "find_or_insert_collection my (appInstanceId r) (exec_time t) isTaken ?limit (database w)"
  have "tasks_of_collection (snd ?find) i = tasks_of_collection (database w) i" for i
    using find_or_insert_collection_ok(3) [OF ok, of "appInstanceId r" "exec_time t" isTaken ?limit "fst ?find" "snd ?find"]
    by (simp add: tasks_of_collection_def)
  then have half: "sizes_ok ?limit (snd ?find)" using assms(2) by (simp add: sizes_ok_def)
  note whole = sizes_ok_create [OF ok assms(2), of "appInstanceId r" "task_id t" "exec_time t" isTaken]
  obtain x w1 where n: "next_outcome w = (x, w1)" by (metis surj_pair)
  have w1: "database w1 = database w" using next_outcome_undisturbed [OF n] by (rule undisturbed_database)
  have "sizes_ok ?limit (database (snd (call_create_task r my t isTaken w)))"
    unfolding call_create_task_def n Let_def prod.case w1 using half whole w1 assms(2) by (cases x) simp_all
  then show ?thesis
    by (cases "call_create_task r my t isTaken w")
       (simp add: repo_Create_def Let_def split: option.split)
qed

theorem Create_bounds_collections_witness:
  "sizes_ok 2 (database (snd (repo_Create sample_repository example_mysql \<lparr>task_id = ''b'', exec_time = 50\<rparr> True
     (sample_world [BreaksAfter 0 (DriverError ''lost'')]))))"
proof -
  let ?w = "sample_world [BreaksAfter 0 (DriverError ''lost'')]"
  have s: "repo_sound sample_repository example_mysql ?w" by simp
  have "sizes_ok (MaxCountTasksInCollection sample_repository) (database ?w)"
    by (simp add: sizes_ok_def sample_repository_def sample_database_def tasks_of_collection_def)
  from Create_bounds_collections [OF s this] show ?thesis by (simp add: sample_repository_def)
qed

text \<open>
  C20: \<open>Delete\<close> never panics; without an error it removes exactly the tasks of the given ids and
  returns how many of them were stored, whatever happens during the cleaning of collections that may
  follow; every other task keeps its collection. After \<open>RepoErrorDeadlock\<close> nothing is removed.
\<close>

theorem Delete_removes_exactly:
  assumes "repo_sound r my w"
  shows "\<exists>res w'. repo_Delete r ts w = Some (res, w') \<and> repo_sound r my w' \<and>
    delete_result (task_id ` set ts) (stored_tasks w) res (stored_tasks w') \<and>
    (snd res = None \<longrightarrow> home (database w') = home (database w) |` (- task_id ` set ts))"
  using repo_Delete_facts [OF assms, of ts] by metis

theorem Delete_removes_exactly_witness:
  "\<exists>w'. repo_Delete sample_repository [\<lparr>task_id = ''a'', exec_time = 0\<rparr>, \<lparr>task_id = ''z'', exec_time = 0\<rparr>]
       (sample_world [Acked, Refused (DriverError ''no search'')]) = Some ((1, None), w') \<and>
     stored_tasks w' = stored_tasks (sample_world []) |` (- {''a'', ''z''})"
proof -
  let ?w = "sample_world [Acked, Refused (DriverError ''no search'')]"
  let ?ts = "[\<lparr>task_id = ''a'', exec_time = 0\<rparr>, \<lparr>task_id = ''z'', exec_time = 0\<rparr>]"
  have s: "repo_sound sample_repository example_mysql ?w" by simp
  obtain res w' where d: "repo_Delete sample_repository ?ts ?w = Some (res, w')"
    "delete_result (task_id ` set ?ts) (stored_tasks ?w) res (stored_tasks w')"
    using Delete_removes_exactly [OF s, of ?ts] by blast
  have "res = (1, None)"
    using d(1) by (auto simp: repo_Delete_def exec_call_def next_outcome_def sql_delete_tasks_def sample_world_def
        sample_database_def bind_eq_Some_conv)
  with d show ?thesis by (auto simp: delete_result_def stored_tasks_def)
qed

text \<open>
  Every \<open>CleaningFrequency\<close>-th call of \<open>Delete\<close> cleans: when the calls are answered, no empty
  collection older than five seconds is left, and every other collection and every task not deleted
  stays where it was.
\<close>

theorem Delete_cleans:
  assumes "repo_sound r my w" "outcomes w = []" "ts \<noteq> []"
    "0 < CleaningFrequency r" "CleaningFrequency r < 2 ^ 31" "cleanRequestCount w = CleaningFrequency r - 1"
  shows "\<exists>n w'. repo_Delete r ts w = Some ((n, None), w') \<and> cleanRequestCount w' = 0 \<and>
    set (coll_rows (database w')) = {c \<in> set (coll_rows (database w)).
      server_clock w (clock_reads w) - 5 \<le> coll_exec c \<or> c \<in> ran (home (database w'))} \<and>
    home (database w') = home (database w) |` (- task_id ` set ts)"
proof -
  note ok = repo_soundD [OF assms(1)]
  define db1 where "db1 = snd (sql_delete_tasks (map task_id ts) (database w))"
  note d = sql_delete_tasks_ok [OF ok(1), of "map task_id ts", folded db1_def]
  let ?F = "CleaningFrequency r" and ?w = "w\<lparr>database := db1, cleanRequestCount := CleaningFrequency r\<rparr>"
  have F: "wrap32 ?F = ?F" "go_rem ?F ?F = 0"
    using assms(4,5) by (simp_all add: wrap32_id go_rem_nonneg)
  obtain db' where c: "deleteEmptyCollections ?w = (None, ?w\<lparr>clock_reads := Suc (clock_reads w), database := db'\<rparr>)"
    "home db' = home db1" "task_rows db' = task_rows db1"
    "\<And>c. c \<in> set (coll_rows db') \<longleftrightarrow> c \<in> set (coll_rows db1) \<and>
       (server_clock w (clock_reads w) - 5 \<le> coll_exec c \<or> coll_size db1 (coll_id c) \<noteq> 0)"
    using quiet_deleteEmptyCollections [of ?w] d(1) assms(2) by auto
  let ?n = "int (fst (sql_delete_tasks (map task_id ts) (database w)))"
  let ?w' = "w\<lparr>clock_reads := Suc (clock_reads w), database := db', cleanRequestCount := 0\<rparr>"
  have "count_and_clean r (w\<lparr>database := db1\<rparr>) = Some ?w'"
    using assms(4,6) F by (simp add: count_and_clean_def c(1))
  then have "repo_Delete r ts w = Some ((?n, None), ?w')"
    using assms(3) by (simp add: repo_Delete_def quiet_calls [OF assms(2)] db1_def [symmetric])
  moreover have "set (coll_rows db') = {c \<in> set (coll_rows (database w)).
      server_clock w (clock_reads w) - 5 \<le> coll_exec c \<or> c \<in> ran (home db')}"
    using c(4) nonempty_in_home [OF d(1)] by (auto simp: d(3) c(2))
  ultimately show ?thesis
    using c(2) d(2) by (intro exI [of _ ?n] exI [of _ ?w']) simp
qed

theorem Delete_cleans_witness:
  "\<exists>n w'. repo_Delete sample_repository [\<lparr>task_id = ''b'', exec_time = 0\<rparr>] (sample_world []) = Some ((n, None), w') \<and>
     set (coll_rows (database w')) = {\<lparr>coll_id = 1, coll_exec = 50, coll_taken = ''old''\<rparr>}"
proof -
  let ?ts = "[\<lparr>task_id = ''b'', exec_time = 0\<rparr>]"
  have "\<exists>n w'. repo_Delete sample_repository ?ts (sample_world []) = Some ((n, None), w') \<and> cleanRequestCount w' = 0 \<and>
    set (coll_rows (database w')) = {c \<in> set (coll_rows (database (sample_world []))).
      server_clock (sample_world []) (clock_reads (sample_world [])) - 5 \<le> coll_exec c \<or> c \<in> ran (home (database w'))} \<and>
    home (database w') = home (database (sample_world [])) |` (- task_id ` set ?ts)"
    by (rule Delete_cleans [where my = example_mysql], simp) (simp_all add: sample_repository_def)
  then obtain n w' where d: "repo_Delete sample_repository ?ts (sample_world []) = Some ((n, None), w')"
    "set (coll_rows (database w')) = {c \<in> set (coll_rows sample_database).
      95 \<le> coll_exec c \<or> c \<in> ran (home (database w'))}"
    "home (database w') = home sample_database |` (- {''b''})" by auto
  have "home sample_database = [''a'' \<mapsto> \<lparr>coll_id = 1, coll_exec = 50, coll_taken = ''old''\<rparr>]"
    by (auto simp: home_def task_map_def coll_map_def sample_database_def fun_eq_iff)
  then have "home (database w') = [''a'' \<mapsto> \<lparr>coll_id = 1, coll_exec = 50, coll_taken = ''old''\<rparr>]"
    using d(3) by (simp add: restrict_map_def fun_eq_iff)
  then have "ran (home (database w')) = {\<lparr>coll_id = 1, coll_exec = 50, coll_taken = ''old''\<rparr>}" by simp
  with d(2) have "set (coll_rows (database w')) =
      {c \<in> set (coll_rows sample_database). 95 \<le> coll_exec c \<or> c \<in> {\<lparr>coll_id = 1, coll_exec = 50, coll_taken = ''old''\<rparr>}}"
    by (simp only:)
  also have "\<dots> = {\<lparr>coll_id = 1, coll_exec = 50, coll_taken = ''old''\<rparr>}"
    by (auto simp: sample_database_def)
  finally show ?thesis using d(1) by blast
qed

text \<open>
  C18: When the calls are answered, \<open>FindBySecToExecTime\<close> returns the ids of exactly the collections
  that are due within the range and not the instance's own, earliest first, and takes all of them for
  the instance; when there is none it returns \<open>RepoErrorNoTasksFound\<close> and changes no data. Stored
  tasks stay as they are.
\<close>

theorem Find_takes_what_is_due:
  fixes w :: "'a repo_world_scheme" and d :: duration
  assumes "repo_sound r my w" "outcomes w = []"
  defines "t \<equiv> Unix (clock w (clock_reads w) + d)"
  shows "\<exists>w'. (if due (database w) t (appInstanceId r) = []
      then FindBySecToExecTime r my d w = ((None, Some RepoErrorNoTasksFound), w') \<and> database w' = database w
      else \<exists>ks. FindBySecToExecTime r my d w = ((Some ks, None), w') \<and>
        mset ks = mset (map coll_id (due (database w) t (appInstanceId r))) \<and>
        sorted (map (\<lambda>i. coll_exec (the (coll_map (database w) i))) ks) \<and>
        due (database w') t (appInstanceId r) = [] \<and> stored_tasks w' = stored_tasks w)"
proof -
  note ok = repo_soundD [OF assms(1)]
  define ks where "ks = found_by r my d w"
  have ks_def': "ks = sql_find_collections my t (appInstanceId r) (database w)"
    by (simp add: ks_def found_by_def t_def)
  note k = sql_find_collections_ok [OF ok, of t "appInstanceId r", folded ks_def']
  have empty: "ks = [] \<longleftrightarrow> due (database w) t (appInstanceId r) = []"
    using k(1) by (metis map_is_Nil_conv mset_zero_iff)
  note taken = sql_take_collections_ok [OF ok(1), of "appInstanceId r" ks, folded taken_db_def]
  have set: "set ks = coll_id ` set (due (database w) t (appInstanceId r))"
    using k(1) by (metis mset_eq_setD set_map)
  have "coll_id c \<in> set ks" if "c \<in> set (coll_rows (database w))" "coll_exec c \<le> t" "coll_taken c \<noteq> appInstanceId r" for c
    using that set by (auto simp: due_def)
  then have gone: "due (taken_db r ks (database w)) t (appInstanceId r) = []"
    by (auto simp: due_def taken(5) filter_empty_conv)
  show ?thesis
    unfolding quiet_Find [OF assms(2)] ks_def [symmetric]
    using empty k(1,3) gone stored_home_taken [OF taken(2)]
    by (cases "ks = []") (simp_all add: stored_tasks_def)
qed

theorem Find_takes_what_is_due_witness:
  "\<exists>w'. FindBySecToExecTime sample_repository example_mysql second (sample_world []) = ((Some [2, 1], None), w') \<and>
     due (database w') 101 ''me'' = []"
proof -
  have s: "repo_sound sample_repository example_mysql (sample_world [])" "outcomes (sample_world []) = []" by simp_all
  have u: "Unix (100 * second + second) = 101" "Unix (101 * second) = 101" by (simp_all add: Unix_def second_def)
  have d: "due sample_database 101 ''me'' = coll_rows sample_database" by (simp add: due_def sample_database_def)
  have f: "found_by sample_repository example_mysql second (sample_world []) = [2, 1]"
    by (simp add: found_by_def sql_find_collections_def u sample_repository_def sample_database_def example_mysql_def)
  have eqs: "Unix (clock (sample_world []) (clock_reads (sample_world [])) + second) = 101"
    "appInstanceId sample_repository = ''me''" "database (sample_world []) = sample_database"
    by (simp_all add: u sample_repository_def)
  have "due sample_database 101 ''me'' \<noteq> []" unfolding d by (simp add: sample_database_def)
  with Find_takes_what_is_due [OF s, of second, unfolded eqs] obtain w' ks where
    w': "FindBySecToExecTime sample_repository example_mysql second (sample_world []) = ((Some ks, None), w')"
    "due (database w') 101 ''me'' = []" by (auto simp: d)
  then have "ks = [2, 1]" using f by (simp add: quiet_Find)
  with w' show ?thesis by blast
qed

text \<open>
  After a restart nothing is lost: an instance to which no collection belongs yet (its id is new)
  gets, from one search and the \<open>Next\<close> calls on its result, every stored task that is due within
  the range, each exactly once and with its execution time.
\<close>

theorem restart_recovers_due_tasks:
  assumes "repo_sound r my w" "outcomes w = []"
    and "\<forall>c \<in> set (coll_rows (database w)). coll_taken c \<noteq> appInstanceId r"
    and "FindBySecToExecTime r my d w = ((Some ks, None), w1)"
  shows "\<exists>out w2. drain my (Suc (length ks)) ks w1 = ((out, Some RepoErrorNoCollections), [], w2) \<and>
    distinct (map task_id out) \<and>
    (\<forall>t. t \<in> set out \<longleftrightarrow> stored_tasks w (task_id t) = Some (exec_time t) \<and>
       exec_time t \<le> Unix (clock w (clock_reads w) + d))"
proof -
  have ks: "found_by r my d w = ks"
    using assms(4) unfolding quiet_Find [OF assms(2)] by (simp split: if_splits)
  have w1: "w1 = w\<lparr>clock_reads := Suc (clock_reads w), database := taken_db r ks (database w)\<rparr>"
    using assms(4) unfolding quiet_Find [OF assms(2)] ks by (simp add: ks split: if_splits)
  then have q: "outcomes w1 = []" "database w1 = taken_db r ks (database w)" using assms(2) by simp_all
  let ?out = "concat (map (\<lambda>i. sql_tasks_by_collection my i (taken_db r ks (database w))) ks)"
  have "drain my (Suc (length ks)) ks w1 = ((?out, Some RepoErrorNoCollections), [], w1)"
    using quiet_drain [OF q(1), of ks "Suc (length ks)"] q(2) by simp
  with found_tasks [OF assms(1,3), of d, unfolded ks] show ?thesis by blast
qed

theorem restart_recovers_due_tasks_witness:
  "\<exists>ks w1 out w2. FindBySecToExecTime sample_repository example_mysql second (sample_world []) = ((Some ks, None), w1) \<and>
     drain example_mysql (Suc (length ks)) ks w1 = ((out, Some RepoErrorNoCollections), [], w2) \<and>
     \<lparr>task_id = ''a'', exec_time = 50\<rparr> \<in> set out"
proof -
  have s: "repo_sound sample_repository example_mysql (sample_world [])" "outcomes (sample_world []) = []"
    "\<forall>c \<in> set (coll_rows (database (sample_world []))). coll_taken c \<noteq> appInstanceId sample_repository"
    by simp_all (simp add: sample_database_def sample_repository_def)
  have u: "Unix (100 * second + second) = 101" "Unix (101 * second) = 101" by (simp_all add: Unix_def second_def)
  have "found_by sample_repository example_mysql second (sample_world []) = [2, 1]"
    by (simp add: found_by_def sql_find_collections_def u sample_repository_def sample_database_def example_mysql_def)
  then obtain ks w1 where f: "FindBySecToExecTime sample_repository example_mysql second (sample_world []) = ((Some ks, None), w1)"
    by (simp add: quiet_Find)
  have "stored_tasks (sample_world []) ''a'' = Some 50"
    by (simp add: stored_tasks_def stored_def home_def task_map_def coll_map_def sample_database_def)
  with restart_recovers_due_tasks [OF s f] f show ?thesis by (fastforce simp: u)
qed

text \<open>
  \<open>FindBySecToExecTime\<close> ends the transaction it begins, whatever fails, except when decoding a row
  fails; if it returns collections they are all those that were due, taken for the instance; stored
  tasks stay as they are in any case.
\<close>

theorem Find_ends_its_transaction:
  assumes "repo_sound r my w" "\<forall>i m. ScanFails i m \<notin> set (outcomes w)"
    "FindBySecToExecTime r my d w = (res, w')"
  shows "open_tx w' = open_tx w \<and> find_result res \<and> stored_tasks w' = stored_tasks w \<and>
    (snd res = None \<longrightarrow> fst res = Some (found_by r my d w) \<and> database w' = taken_db r (found_by r my d w) (database w))"
proof -
  obtain db' j where f: "came_to w j db' w'" "find_done r (found_by r my d w) (database w) res db'"
    "j = open_tx w \<or> j = Suc (open_tx w) \<and> (\<exists>i m. ScanFails i m \<in> set (outcomes w))"
    using Find_facts [OF assms(3)] by metis
  then have w': "open_tx w' = open_tx w" "database w' = db'" using assms(2) by (auto simp: came_to_def)
  moreover have "fst res = Some (found_by r my d w) \<and> db' = taken_db r (found_by r my d w) (database w)" if "snd res = None"
    using f(2) that by (auto simp: find_done_def split: prod.splits option.splits)
  ultimately show ?thesis
    using find_done_facts [OF repo_soundD(1) [OF assms(1)] f(2)] by (simp add: stored_tasks_def)
qed

theorem Find_ends_its_transaction_witness:
  "\<exists>res w'. FindBySecToExecTime sample_repository example_mysql second
       (sample_world [Acked, Acked, BreaksAfter 1 (DriverError ''lost'')]) = (res, w') \<and> open_tx w' = 0"
proof -
  let ?w = "sample_world [Acked, Acked, BreaksAfter 1 (DriverError ''lost'')]"
  have s: "repo_sound sample_repository example_mysql ?w" by simp
  have n: "\<forall>i m. ScanFails i m \<notin> set (outcomes ?w)" by simp
  obtain res w' where f: "FindBySecToExecTime sample_repository example_mysql second ?w = (res, w')" by (metis surj_pair)
  from Find_ends_its_transaction [OF s n f] f show ?thesis by simp
qed

text \<open>
  When decoding a row fails, \<open>FindBySecToExecTime\<close> returns without a rollback, unlike on every
  other failure: the transaction, with its row locks, stays open until the caller's context ends.
\<close>

theorem Find_scan_error_leaves_transaction:
  assumes "outcomes w = [Acked, Acked, ScanFails i m]" "i < length (found_by r my d w)"
  shows "fst (FindBySecToExecTime r my d w) = (None, Some RepoErrorFindingTasks) \<and>
    open_tx (snd (FindBySecToExecTime r my d w)) = Suc (open_tx w)"
proof -
  have "close_rows (log_error m v) = log_error m v" if "outcomes v = []" for v :: "'a repo_world_scheme" and m
    using that by (simp add: quiet_calls)
  then show ?thesis
    using assms
    by (simp add: FindBySecToExecTime_def time_Now_def begin_tx_def plain_call_def next_outcome_def exec_call_def
        found_by_def find_rows_def read_rows_def)
qed

theorem Find_scan_error_leaves_transaction_witness:
  "open_tx (snd (FindBySecToExecTime sample_repository example_mysql second
     (sample_world [Acked, Acked, ScanFails 0 ''bad row'']))) = 1"
proof -
  let ?w = "sample_world [Acked, Acked, ScanFails 0 ''bad row'']"
  have u: "Unix (101 * second) = 101" by (simp add: Unix_def second_def)
  have o: "outcomes ?w = [Acked, Acked, ScanFails 0 ''bad row'']" by simp
  have "0 < length (found_by sample_repository example_mysql second ?w)"
    by (simp add: found_by_def sql_find_collections_def u sample_repository_def sample_database_def example_mysql_def)
  from Find_scan_error_leaves_transaction [OF o this] show ?thesis by simp
qed

text \<open>
  \<open>Up\<close> may be called again: when the calls are answered it succeeds on any database, creates what
  is missing, changes no row, and ends its transaction; calling it a second time changes nothing.
\<close>

theorem Up_is_idempotent:
  assumes "outcomes w = []"
  shows "\<exists>w'. repo_Up w = (None, w') \<and> repo_Up w' = (None, w') \<and> open_tx w' = open_tx w \<and>
    database w' = (database w)\<lparr>has_collection_table := True, has_task_table := True, has_create_task := True\<rparr>"
proof -
  let ?db = "(database w)\<lparr>has_collection_table := True, has_task_table := True, has_create_task := True\<rparr>"
  have up: "repo_Up v = (None, v\<lparr>database := (database v)\<lparr>has_collection_table := True, has_task_table := True, has_create_task := True\<rparr>\<rparr>)"
    if "outcomes v = []" for v :: "'a repo_world_scheme"
    using that by (cases "has_create_task (database v)")
      (simp_all add: repo_Up_def quiet_calls create_collection_table_def create_task_table_def create_procedure_def Let_def)
  have "repo_Up (w\<lparr>database := ?db\<rparr>) = (None, w\<lparr>database := ?db\<rparr>)" using up [of "w\<lparr>database := ?db\<rparr>"] assms by simp
  with up [OF assms] show ?thesis by simp
qed

theorem Up_is_idempotent_witness:
  "\<exists>w'. repo_Up (sample_world [] \<lparr>database := fresh_database\<rparr>) = (None, w') \<and> repo_Up w' = (None, w') \<and>
     has_create_task (database w')"
proof -
  have "outcomes (sample_world [] \<lparr>database := fresh_database\<rparr>) = []" by simp
  from Up_is_idempotent [OF this] show ?thesis by auto
qed

text \<open>
  When only the commit of \<open>Up\<close> fails, it reports \<open>RepoErrorFindingTasks\<close>, not
  \<open>RepoErrorSchemaSetup\<close>.
\<close>

theorem Up_commit_error:
  assumes "outcomes w = [Acked, Acked, Acked, Acked, Refused err]"
  shows "fst (repo_Up w) = Some RepoErrorFindingTasks"
  using assms
  by (cases "has_create_task (database w)")
     (simp_all add: repo_Up_def begin_tx_def commit_tx_def exec_call_def plain_call_def next_outcome_def
       create_collection_table_def create_task_table_def create_procedure_def Let_def)

theorem Up_commit_error_witness:
  "fst (repo_Up (sample_world [Acked, Acked, Acked, Acked, Refused (DriverError ''gone'')])) = Some RepoErrorFindingTasks"
  by (rule Up_commit_error) simp

text \<open>
  The documented value 0 of \<open>CleaningFrequency\<close>, \<open>disable deleting empty collections\<close>, never
  reaches the repository: the constructor replaces it by the default 10.
\<close>

theorem zero_cleaning_becomes_default:
  assumes "documented_repository_merge merge"
    and "repository_New merge app (Some \<lparr>opt_MaxCountTasksInCollection = n, opt_CleaningFrequency = 0\<rparr>) = Some r"
  shows "CleaningFrequency r = 10"
  using assms by (auto simp: repository_New_def documented_repository_merge_def fill_zero_def)

theorem zero_cleaning_becomes_default_witness:
  "map_option CleaningFrequency (repository_New (\<lambda>d s. Some
      \<lparr>opt_MaxCountTasksInCollection = fill_zero (opt_MaxCountTasksInCollection d) (opt_MaxCountTasksInCollection s),
       opt_CleaningFrequency = fill_zero (opt_CleaningFrequency d) (opt_CleaningFrequency s)\<rparr>)
     ''me'' (Some \<lparr>opt_MaxCountTasksInCollection = 5, opt_CleaningFrequency = 0\<rparr>)) = Some 10"
proof -
  let ?merge = "\<lambda>d s. Some
      \<lparr>opt_MaxCountTasksInCollection = fill_zero (opt_MaxCountTasksInCollection d) (opt_MaxCountTasksInCollection s),
       opt_CleaningFrequency = fill_zero (opt_CleaningFrequency d) (opt_CleaningFrequency s)\<rparr>"
  have m: "documented_repository_merge ?merge" by (simp add: documented_repository_merge_def)
  obtain r where r: "repository_New ?merge ''me'' (Some \<lparr>opt_MaxCountTasksInCollection = 5, opt_CleaningFrequency = 0\<rparr>) = Some r"
    by (simp add: repository_New_def)
  from zero_cleaning_becomes_default [OF m r] r show ?thesis by simp
qed

end
