(* ===== verification/Task_Manager.thy ===== *)
theory Task_Manager
  imports Repository_Properties
begin

text \<open>
  \<open>task_manager/task_manager.go\<close>, over any implementation \<open>R\<close> of the repository interface. Ids come
  from a third-party package, so \<open>new_id\<close> (the value \<open>util.NewId()\<close> returns) and \<open>uuid_ok\<close> (the test
  \<open>util.IsIdValid\<close>) are arguments. A panic is \<open>None\<close>. \<open>time.Sleep\<close> between two tries has no other
  effect than a later clock reading.
\<close>

section \<open>State and construction\<close>

record taskManager =
  maxRetry :: int
  timeGapBetweenRetry :: duration

record task_manager_options =
  opt_MaxRetry :: int
  opt_TimeGapBetweenRetry :: duration

definition documented_task_manager_merge ::
    "(task_manager_options \<Rightarrow> task_manager_options \<Rightarrow> task_manager_options option) \<Rightarrow> bool" where
  "documented_task_manager_merge merge \<longleftrightarrow> (\<forall>d s. merge d s = Some
     \<lparr>opt_MaxRetry = fill_zero (opt_MaxRetry d) (opt_MaxRetry s),
      opt_TimeGapBetweenRetry = fill_zero (opt_TimeGapBetweenRetry d) (opt_TimeGapBetweenRetry s)\<rparr>)"

definition task_manager_New ::
    "(task_manager_options \<Rightarrow> task_manager_options \<Rightarrow> task_manager_options option) \<Rightarrow>
     'a world_scheme repository_ops \<Rightarrow> task_manager_options option \<Rightarrow> 'a world_scheme \<Rightarrow>
     (taskManager \<times> 'a world_scheme) option" where
  "task_manager_New merge R options w = do {
     (errUp, w) \<leftarrow> op_Up R w;
     if errUp \<noteq> None then None else do {
       let options = (case options of
           None \<Rightarrow> \<lparr>opt_MaxRetry = 0, opt_TimeGapBetweenRetry = 0\<rparr> | Some opts \<Rightarrow> opts);
       options \<leftarrow> merge options \<lparr>opt_MaxRetry = 3, opt_TimeGapBetweenRetry = 10 * millisecond\<rparr>;
       ((count, err), w) \<leftarrow> op_Count R w;
       if err \<noteq> None then None else do {
         w \<leftarrow> init_or_panic AllTasks IntegralMetricType w;
         (case mon_Publish AllTasks count w of
            (Some err, w) \<Rightarrow> None
          | (None, w) \<Rightarrow> Some (\<lparr>maxRetry = opt_MaxRetry options,
              timeGapBetweenRetry = opt_TimeGapBetweenRetry options\<rparr>, w))
       }
     }
   }"

section \<open>retry\<close>

text \<open>
  The loop of \<open>retry\<close> from the given \<open>attempt\<close> on. The callback returns its error and the value \<open>x\<close> it
  assigns to a variable of its caller; both keep the value of the last call.
\<close>

function retry_from ::
    "taskManager \<Rightarrow> ('a world_scheme \<Rightarrow> ((go_error option \<times> 'x) \<times> 'a world_scheme) option) \<Rightarrow>
     go_error list \<Rightarrow> int \<Rightarrow> go_error option \<times> 'x \<Rightarrow> 'a world_scheme \<Rightarrow>
     ((go_error option \<times> 'x) \<times> 'a world_scheme) option" where
  "retry_from s callback retryableErrors attempt (err, x) w =
     (if attempt \<le> maxRetry s then
        (case callback w of
           None \<Rightarrow> None
         | Some ((None, x), w) \<Rightarrow> Some ((None, x), w)
         | Some ((Some e, x), w) \<Rightarrow>
             if Contains retryableErrors e then
               retry_from s callback retryableErrors (attempt + 1) (Some e, x) (eh_New LevelError (error_text e) w)
             else Some ((Some e, x), w))
      else Some ((err, x), w))"
  by pat_completeness auto
termination
  by (relation "measure (\<lambda>(s, _, _, attempt, _, _). nat (maxRetry s + 1 - attempt))") auto

declare retry_from.simps [simp del]

definition retry ::
    "taskManager \<Rightarrow> ('a world_scheme \<Rightarrow> ((go_error option \<times> 'x) \<times> 'a world_scheme) option) \<Rightarrow>
     go_error list \<Rightarrow> 'x \<Rightarrow> 'a world_scheme \<Rightarrow> ((go_error option \<times> 'x) \<times> 'a world_scheme) option" where
  "retry s callback retryableErrors x w = retry_from s callback retryableErrors 1 (None, x) w"

section \<open>Operations\<close>

text \<open>\<open>Create\<close> returns its error and what it makes of the task behind the pointer.\<close>

definition create_clamped :: "task \<Rightarrow> unix_time \<Rightarrow> task" where
  "create_clamped t now = (if exec_time t < now then t\<lparr>exec_time := now\<rparr> else t)"

definition task_manager_Create ::
    "taskManager \<Rightarrow> 'a world_scheme repository_ops \<Rightarrow> (string \<Rightarrow> bool) \<Rightarrow> string \<Rightarrow> task \<Rightarrow> bool \<Rightarrow>
     'a world_scheme \<Rightarrow> ((go_error option \<times> task) \<times> 'a world_scheme) option" where
  "task_manager_Create s R uuid_ok new_id t isTaken w =
     (let (now, w) = time_Now w;
          t = create_clamped t (Unix now);
          valid = (task_id t = [] \<or> uuid_ok (task_id t));
          t = (if task_id t = [] then t\<lparr>task_id := new_id\<rparr> else t)
      in if \<not> valid then Some ((Some TmErrorUuidIsNotCorrect, t), w)
         else do {
           ((err, _), w) \<leftarrow> retry s
              (\<lambda>w. map_option (\<lambda>(err, w). ((err, ()), w)) (op_Create R t isTaken w)) [RepoErrorDeadlock] () w;
           if err = Some RepoErrorTaskExist then
             Some ((Some TmErrorTaskExist, t), eh_New LevelDebug (error_text RepoErrorTaskExist) w)
           else (case err of
               Some e \<Rightarrow> Some ((Some TmErrorCreatingTasks, t), eh_New LevelError (error_text e) w)
             | None \<Rightarrow> Some ((None, t), publish_or_log AllTasks 1 w))
         })"

definition delete_tasks ::
    "'a world_scheme repository_ops \<Rightarrow> task list \<Rightarrow> 'a world_scheme \<Rightarrow>
     ((go_error option \<times> int) \<times> 'a world_scheme) option" where
  "delete_tasks R ts w = map_option (\<lambda>((affected, err), w). ((err, affected), w)) (op_Delete R ts w)"

definition task_manager_Delete ::
    "taskManager \<Rightarrow> 'a world_scheme repository_ops \<Rightarrow> string \<Rightarrow> 'a world_scheme \<Rightarrow>
     (go_error option \<times> 'a world_scheme) option" where
  "task_manager_Delete s R taskId w = do {
     ((errDeleting, affected), w) \<leftarrow>
       retry s (delete_tasks R [\<lparr>task_id = taskId, exec_time = 0\<rparr>]) [RepoErrorDeadlock] 0 w;
     (case errDeleting of
        Some e \<Rightarrow> Some (Some TmErrorDeletingTask, eh_New LevelError (error_text e) w)
      | None \<Rightarrow>
          if affected = 0 then Some (Some TmErrorTaskNotFound, w)
          else Some (None, publish_or_log AllTasks (wrap64 (- affected)) w))
   }"

definition GetTasksToComplete ::
    "taskManager \<Rightarrow> 'a world_scheme repository_ops \<Rightarrow> duration \<Rightarrow> 'a world_scheme \<Rightarrow>
     ((nat list option \<times> go_error option) \<times> 'a world_scheme) option" where
  "GetTasksToComplete s R preloadingTimeRange w = do {
     ((errFinding, collections), w) \<leftarrow>
       retry s (\<lambda>w. map_option (\<lambda>((c, err), w). ((err, c), w)) (op_Find R preloadingTimeRange w))
         [RepoErrorDeadlock, RepoErrorLockWaitTimeout] None w;
     (case errFinding of
        None \<Rightarrow> Some ((collections, None), w)
      | Some e \<Rightarrow>
          if e = RepoErrorNoTasksFound then Some ((None, Some TmErrorCollectionsNotFound), w)
          else Some ((collections, Some TmErrorGetTasks), eh_New LevelError (error_text e) w))
   }"

definition ConfirmExecution ::
    "taskManager \<Rightarrow> 'a world_scheme repository_ops \<Rightarrow> task list \<Rightarrow> 'a world_scheme \<Rightarrow>
     (go_error option \<times> 'a world_scheme) option" where
  "ConfirmExecution s R tasks w = do {
     ((errConfirm, affected), w) \<leftarrow> retry s (delete_tasks R tasks) [RepoErrorDeadlock] 0 w;
     (case errConfirm of
        Some e \<Rightarrow> Some (Some TmErrorConfirmationTasks, eh_New LevelError (error_text e) w)
      | None \<Rightarrow> Some (None, publish_or_log AllTasks (wrap64 (- affected)) w))
   }"

section \<open>What retry does\<close>

lemma retry_no_tries: "maxRetry s < 1 \<Longrightarrow> retry s callback es x w = Some ((None, x), w)"
  by (simp add: retry_def retry_from.simps)

text \<open>
  The rule for a callback that never panics: \<open>I\<close> holds before every attempt, \<open>Q\<close> is what an attempt
  gives, after the event that reports a retryable error. With at least one attempt \<open>Q\<close> holds in the end.
\<close>

lemma retry_from_rule:
  assumes step: "\<And>w. I w \<Longrightarrow> \<exists>e x w'. callback w = Some ((e, x), w') \<and>
      (if \<exists>r \<in> set es. e = Some r
       then I (eh_New LevelError (error_text (the e)) w') \<and> Q e x (eh_New LevelError (error_text (the e)) w')
       else Q e x w')"
    and start: "I w" "attempt \<le> maxRetry s"
  shows "\<exists>e x w'. retry_from s callback es attempt (err, x0) w = Some ((e, x), w') \<and> Q e x w'"
  using start
proof (induction "nat (maxRetry s - attempt)" arbitrary: attempt err x0 w)
  case 0
  from step [OF 0(2)] obtain e x w' where "callback w = Some ((e, x), w')"
    "if \<exists>r \<in> set es. e = Some r then Q e x (eh_New LevelError (error_text (the e)) w') else Q e x w'" by metis
  with 0 show ?case
    by (cases e) (auto simp: retry_from.simps [of s callback es attempt] retry_from.simps [of s callback es "attempt + 1"])
next
  case (Suc n)
  from step [OF Suc(3)] obtain e x w' where c: "callback w = Some ((e, x), w')"
    "if \<exists>r \<in> set es. e = Some r then I (eh_New LevelError (error_text (the e)) w') else Q e x w'" by metis
  show ?case
  proof (cases "\<exists>r \<in> set es. e = Some r")
    case False
    with c Suc(4) show ?thesis by (cases e) (auto simp: retry_from.simps [of s callback es attempt])
  next
    case True
    then obtain r where r: "r \<in> set es" "e = Some r" by auto
    let ?w = "eh_New LevelError (error_text r) w'"
    have "n = nat (maxRetry s - (attempt + 1))" "attempt + 1 \<le> maxRetry s" "I ?w" using Suc(2,4) c(2) r by auto
    from Suc(1) [OF this(1,3,2), of "Some r" x]
    show ?thesis using c(1) r Suc(4) by (simp add: retry_from.simps [of s callback es attempt])
  qed
qed

lemma retry_rule:
  assumes "\<And>w. I w \<Longrightarrow> \<exists>e x w'. callback w = Some ((e, x), w') \<and>
      (if \<exists>r \<in> set es. e = Some r
       then I (eh_New LevelError (error_text (the e)) w') \<and> Q e x (eh_New LevelError (error_text (the e)) w')
       else Q e x w')"
    and "I w" "1 \<le> maxRetry s"
  obtains e x w' where "retry s callback es x0 w = Some ((e, x), w')" "Q e x w'"
proof -
  have "\<exists>e x w'. retry_from s callback es 1 (None, x0) w = Some ((e, x), w') \<and> Q e x w'"
    using assms by (rule retry_from_rule)
  with that show thesis unfolding retry_def by blast
qed

text \<open>A callback that answers from a script, to state how often it is called.\<close>

record script_world = world +
  script :: "go_error option list"

definition scripted :: "'a script_world_scheme \<Rightarrow> ((go_error option \<times> unit) \<times> 'a script_world_scheme) option" where
  "scripted w = (case script w of [] \<Rightarrow> None | e # es \<Rightarrow> Some ((e, ()), w\<lparr>script := es\<rparr>))"

definition retryable :: "go_error list \<Rightarrow> go_error option \<Rightarrow> bool" where
  "retryable es e \<longleftrightarrow> (case e of None \<Rightarrow> False | Some r \<Rightarrow> r \<in> set es)"

lemma script_eh_New [simp]: "script (eh_New l m w) = script (w :: 'a script_world_scheme)"
  by (simp add: eh_New_def)

lemma retry_from_script:
  fixes es :: "go_error list"
  assumes "attempt \<le> maxRetry s" "nat (maxRetry s - attempt) < length (script w)"
  defines "n \<equiv> min (length (takeWhile (retryable es) (script w))) (nat (maxRetry s - attempt))"
  shows "\<exists>w'. retry_from s scripted es attempt (err, x) w = Some ((script w ! n, ()), w') \<and>
    script w' = drop (Suc n) (script w)"
  using assms unfolding n_def
proof (induction "nat (maxRetry s - attempt)" arbitrary: attempt err x w)
  case 0
  then obtain e rest where sc: "script w = e # rest" by (cases "script w") auto
  with 0 show ?case
    by (cases e) (auto simp: retry_from.simps [of s scripted es attempt] retry_from.simps [of s scripted es "attempt + 1"] scripted_def)
next
  case (Suc k)
  then obtain e rest where sc: "script w = e # rest" by (cases "script w") auto
  show ?case
  proof (cases "retryable es e")
    case False
    with sc Suc(3) show ?thesis
      by (cases e) (auto simp: retry_from.simps [of s scripted es attempt] scripted_def retryable_def)
  next
    case True
    then obtain r where r: "e = Some r" "r \<in> set es" by (auto simp: retryable_def split: option.splits)
    let ?w = "eh_New LevelError (error_text r) (w\<lparr>script := rest\<rparr>)"
    have "k = nat (maxRetry s - (attempt + 1))" "attempt + 1 \<le> maxRetry s" "nat (maxRetry s - (attempt + 1)) < length (script ?w)"
      using Suc(2,3,4) sc by auto
    from Suc(1) [OF this, of "Some r" "()"] True
    show ?thesis using sc Suc(2,3) r \<open>k = _\<close>
      by (simp add: retry_from.simps [of s scripted es attempt] scripted_def Suc(2) [symmetric])
  qed
qed

section \<open>Over the repository's contract\<close>

text \<open>
  The outcomes of the operations in terms of the stored tasks before (\<open>m\<close>) and after (\<open>m'\<close>).
  \<open>counts m w\<close>: the metric \<open>All\<close> is the number of stored tasks.
\<close>

definition counts :: "(string \<rightharpoonup> int64) \<Rightarrow> 'a world_scheme \<Rightarrow> bool" where
  "counts m w \<longleftrightarrow> metrics (monitor w) AllTasks = Some (IntegralMetric (wrap64 (int (card (dom m)))))"

definition created_task :: "string \<Rightarrow> unix_time \<Rightarrow> task \<Rightarrow> task" where
  "created_task new_id now t = \<lparr>task_id = (if task_id t = [] then new_id else task_id t), exec_time = max now (exec_time t)\<rparr>"

definition creation_outcome ::
    "(string \<Rightarrow> bool) \<Rightarrow> task \<Rightarrow> task \<Rightarrow> (string \<rightharpoonup> int64) \<Rightarrow> go_error option \<Rightarrow> (string \<rightharpoonup> int64) \<Rightarrow> bool" where
  "creation_outcome uuid_ok t t' m err m' \<longleftrightarrow>
     (let added = (task_id t' \<notin> dom m \<and> m' = m(task_id t' \<mapsto> exec_time t'));
          valid = (task_id t = [] \<or> uuid_ok (task_id t))
      in case err of
           None \<Rightarrow> valid \<and> added
         | Some e \<Rightarrow>
             if e = TmErrorUuidIsNotCorrect then \<not> valid \<and> m' = m
             else if e = TmErrorTaskExist then valid \<and> task_id t' \<in> dom m \<and> m' = m
             else e = TmErrorCreatingTasks \<and> valid \<and> (m' = m \<or> added))"

definition deletion_outcome :: "string \<Rightarrow> (string \<rightharpoonup> int64) \<Rightarrow> go_error option \<Rightarrow> (string \<rightharpoonup> int64) \<Rightarrow> bool" where
  "deletion_outcome tid m err m' \<longleftrightarrow>
     (case err of
        None \<Rightarrow> tid \<in> dom m \<and> m' = m(tid := None)
      | Some e \<Rightarrow>
          if e = TmErrorTaskNotFound then tid \<notin> dom m \<and> m' = m
          else e = TmErrorDeletingTask \<and> (m' = m \<or> m' = m(tid := None)))"

definition confirmation_outcome ::
    "string set \<Rightarrow> (string \<rightharpoonup> int64) \<Rightarrow> go_error option \<Rightarrow> (string \<rightharpoonup> int64) \<Rightarrow> bool" where
  "confirmation_outcome D m err m' \<longleftrightarrow>
     (case err of
        None \<Rightarrow> m' = m |` (- D)
      | Some e \<Rightarrow> e = TmErrorConfirmationTasks \<and> (m' = m \<or> m' = m |` (- D)))"

definition search_outcome :: "nat list option \<times> go_error option \<Rightarrow> bool" where
  "search_outcome res \<longleftrightarrow>
     (case res of
        (c, None) \<Rightarrow> c \<noteq> None
      | (c, Some e) \<Rightarrow> c = None \<and> e \<in> {TmErrorCollectionsNotFound, TmErrorGetTasks})"

lemma counts_eh_New [simp]: "counts m (eh_New l msg w) = counts m w"
  by (simp add: counts_def)

lemma counts_publish:
  assumes "counts m w" "int (card (dom m')) = int (card (dom m)) + v"
  shows "counts m' (publish_or_log AllTasks v w)"
  using assms publish_or_log_known [of w AllTasks "IntegralMetric (wrap64 (int (card (dom m))))" v]
  by (simp add: counts_def)

lemma publish_wrap64:
  "counts m w \<Longrightarrow> int (card (dom m')) = int (card (dom m)) + v \<Longrightarrow> counts m' (publish_or_log AllTasks (wrap64 v) w)"
  using publish_or_log_known [of w AllTasks "IntegralMetric (wrap64 (int (card (dom m))))" "wrap64 v"]
  by (simp add: counts_def)

lemma card_dom_upd: "finite (dom m) \<Longrightarrow> k \<notin> dom m \<Longrightarrow> card (dom (m(k \<mapsto> v))) = Suc (card (dom m))"
  by simp

lemma card_dom_restrict:
  "finite (dom m) \<Longrightarrow> int (card (dom (m |` (- D)))) = int (card (dom m)) + - int (card (dom m \<inter> D))"
proof -
  assume "finite (dom m)"
  then have "card (dom m) = card (dom m \<inter> D) + card (dom m - D)" by (rule card_Int_Diff)
  moreover have "dom (m |` (- D)) = dom m - D" by auto
  ultimately show ?thesis by simp
qed

lemma restrict_single: "m |` (- {k}) = m(k := None)"
  by (auto simp: restrict_map_def fun_eq_iff)

lemma publish_or_log_world:
  "\<exists>es mo. publish_or_log t v w = w\<lparr>events := es, monitor := mo, clock_reads := clock_reads w\<rparr>"
proof -
  obtain err mo where "monitoring_Publish t v (monitor w) = (err, mo)" by (metis surj_pair)
  then show ?thesis
    by (intro exI [of _ "case err of None \<Rightarrow> events w | Some e \<Rightarrow> events w @ [(LevelError, error_text e)]"] exI [of _ mo])
       (cases err; cases w; simp add: publish_or_log_def mon_Publish_def eh_New_def)
qed

context repository_contract
begin

lemma sound_eh_New:
  assumes "sound w"
  shows "sound (eh_New l m w)" "stored_in (eh_New l m w) = stored_in w"
proof -
  have "eh_New l m w = w\<lparr>events := events w @ [(l, m)], monitor := monitor w, clock_reads := clock_reads w\<rparr>"
    by (simp add: eh_New_def)
  with env_irrelevant [OF assms] show "sound (eh_New l m w)" "stored_in (eh_New l m w) = stored_in w" by metis+
qed

lemma sound_time_Now:
  assumes "sound w" "time_Now w = (n, w')"
  shows "sound w'" "stored_in w' = stored_in w" "monitor w' = monitor w"
proof -
  have "w' = w\<lparr>events := events w, monitor := monitor w, clock_reads := Suc (clock_reads w)\<rparr>"
    using assms(2) by (simp add: time_Now_def)
  with env_irrelevant [OF assms(1)] show "sound w'" "stored_in w' = stored_in w" by metis+
  show "monitor w' = monitor w" using assms(2) by (auto simp: time_Now_def)
qed

lemma sound_publish:
  assumes "sound w"
  shows "sound (publish_or_log t v w)" "stored_in (publish_or_log t v w) = stored_in w"
  using publish_or_log_world [of t v w] env_irrelevant [OF assms] by metis+

lemmas sound_simps = sound_eh_New sound_publish

end

context repository_contract
begin

text \<open>Each operation of the repository under \<open>retry\<close>: a refused call leaves what the next one starts from.\<close>

lemma retry_create:
  fixes t :: task
  assumes s: "sound w" and tries: "1 \<le> maxRetry s"
  obtains err w' where
    "retry s (\<lambda>w. map_option (\<lambda>(err, w). ((err, ()), w)) (op_Create R t isTaken w)) [RepoErrorDeadlock] () w =
       Some ((err, ()), w')"
    "sound w'" "monitor w' = monitor w" "create_result t (stored_in w) err (stored_in w')"
proof -
  let ?cb = "\<lambda>w. map_option (\<lambda>(err, w). ((err, ()), w)) (op_Create R t isTaken w)"
  let ?I = "\<lambda>v. sound v \<and> monitor v = monitor w \<and> stored_in v = stored_in w"
  let ?Q = "\<lambda>e x v. sound v \<and> monitor v = monitor w \<and> create_result t (stored_in w) e (stored_in v)"
  have "\<exists>e x v'. ?cb v = Some ((e, x), v') \<and>
      (if \<exists>r \<in> set [RepoErrorDeadlock]. e = Some r
       then ?I (eh_New LevelError (error_text (the e)) v') \<and> ?Q e x (eh_New LevelError (error_text (the e)) v')
       else ?Q e x v')"
    if "?I v" for v
  proof -
    from that create [of v t isTaken] obtain e v' where c: "op_Create R t isTaken v = Some (e, v')" "sound v'"
      "monitor v' = monitor w" "create_result t (stored_in w) e (stored_in v')" by auto
    moreover have "stored_in v' = stored_in w" if "e = Some RepoErrorDeadlock"
      using c(4) that by (simp add: create_result_def)
    ultimately show ?thesis by (auto simp: sound_simps)
  qed
  from retry_rule [of ?I ?cb "[RepoErrorDeadlock]" ?Q, OF this _ tries] s that show thesis
    by (metis (lifting) unit.exhaust)
qed

lemma retry_delete:
  assumes s: "sound w" and tries: "1 \<le> maxRetry s"
  obtains err n w' where
    "retry s (delete_tasks R ts) [RepoErrorDeadlock] 0 w = Some ((err, n), w')"
    "sound w'" "monitor w' = monitor w" "delete_result (task_id ` set ts) (stored_in w) (n, err) (stored_in w')"
proof -
  let ?cb = "delete_tasks R ts"
  let ?I = "\<lambda>v. sound v \<and> monitor v = monitor w \<and> stored_in v = stored_in w"
  let ?Q = "\<lambda>e n v. sound v \<and> monitor v = monitor w \<and> delete_result (task_id ` set ts) (stored_in w) (n, e) (stored_in v)"
  have "\<exists>e n v'. ?cb v = Some ((e, n), v') \<and>
      (if \<exists>r \<in> set [RepoErrorDeadlock]. e = Some r
       then ?I (eh_New LevelError (error_text (the e)) v') \<and> ?Q e n (eh_New LevelError (error_text (the e)) v')
       else ?Q e n v')"
    if "?I v" for v
  proof -
    from that delete [of v ts] obtain n e v' where c: "op_Delete R ts v = Some ((n, e), v')" "sound v'"
      "monitor v' = monitor w" "delete_result (task_id ` set ts) (stored_in w) (n, e) (stored_in v')" by auto
    moreover have "stored_in v' = stored_in w" if "e = Some RepoErrorDeadlock"
      using c(4) that by (simp add: delete_result_def)
    ultimately show ?thesis by (auto simp: delete_tasks_def sound_simps)
  qed
  from retry_rule [of ?I ?cb "[RepoErrorDeadlock]" ?Q, OF this _ tries] s that show thesis
    by (metis (lifting))
qed

lemma retry_find:
  assumes s: "sound w" and tries: "1 \<le> maxRetry s"
  obtains err c w' where
    "retry s (\<lambda>w. map_option (\<lambda>((c, err), w). ((err, c), w)) (op_Find R d w))
       [RepoErrorDeadlock, RepoErrorLockWaitTimeout] None w = Some ((err, c), w')"
    "sound w'" "monitor w' = monitor w" "stored_in w' = stored_in w" "find_result (c, err)"
proof -
  let ?cb = "\<lambda>w. map_option (\<lambda>((c, err), w). ((err, c), w)) (op_Find R d w)"
  let ?es = "[RepoErrorDeadlock, RepoErrorLockWaitTimeout]"
  let ?I = "\<lambda>v. sound v \<and> monitor v = monitor w \<and> stored_in v = stored_in w"
  let ?Q = "\<lambda>e c v. ?I v \<and> find_result (c, e)"
  have "\<exists>e c v'. ?cb v = Some ((e, c), v') \<and>
      (if \<exists>r \<in> set ?es. e = Some r
       then ?I (eh_New LevelError (error_text (the e)) v') \<and> ?Q e c (eh_New LevelError (error_text (the e)) v')
       else ?Q e c v')"
    if "?I v" for v
  proof -
    from that find [of v d] obtain c e v' where "op_Find R d v = Some ((c, e), v')" "?Q e c v'" by auto
    then show ?thesis by (auto simp: sound_simps)
  qed
  from retry_rule [of ?I ?cb ?es ?Q, OF this _ tries] s that show thesis
    by (metis (lifting))
qed

end

context repository_contract
begin

lemma manager_create:
  fixes t :: task and new_id :: string
  assumes s: "sound w" and tries: "1 \<le> maxRetry s"
  defines "t' \<equiv> created_task new_id (Unix (clock w (clock_reads w))) t"
  shows "\<exists>err w'. task_manager_Create s R uuid_ok new_id t isTaken w = Some ((err, t'), w') \<and> sound w' \<and>
    creation_outcome uuid_ok t t' (stored_in w) err (stored_in w') \<and>
    (counts (stored_in w) w \<longrightarrow> err \<noteq> Some TmErrorCreatingTasks \<longrightarrow> counts (stored_in w') w')"
proof -
  obtain w1 where n: "time_Now w = (clock w (clock_reads w), w1)" by (simp add: time_Now_def)
  note w1 = sound_time_Now [OF s n]
  let ?now = "Unix (clock w (clock_reads w))"
  have t': "(if task_id t = [] then create_clamped t ?now\<lparr>task_id := new_id\<rparr> else create_clamped t ?now) = t'"
    by (cases t) (auto simp: t'_def created_task_def create_clamped_def)
  have id: "task_id (create_clamped t ?now) = task_id t" by (simp add: create_clamped_def)
  obtain err w2 where r: "retry s (\<lambda>w. map_option (\<lambda>(err, w). ((err, ()), w)) (op_Create R t' isTaken w)) [RepoErrorDeadlock] () w1 =
       Some ((err, ()), w2)" and w2: "sound w2" "monitor w2 = monitor w" "create_result t' (stored_in w) err (stored_in w2)"
    using retry_create [OF w1(1) tries, of t' isTaken] w1(2,3) by metis
  have c: "counts m w2 = counts m w" "counts m w1 = counts m w" for m using w2(2) w1(3) by (simp_all add: counts_def)
  show ?thesis
  proof (cases "task_id t = [] \<or> uuid_ok (task_id t)")
    case False
    then have "task_manager_Create s R uuid_ok new_id t isTaken w = Some ((Some TmErrorUuidIsNotCorrect, t'), w1)"
      unfolding task_manager_Create_def n using t' id by (simp add: Let_def)
    then show ?thesis using w1 False c by (simp add: creation_outcome_def Let_def)
  next
    case True
    then have run: "task_manager_Create s R uuid_ok new_id t isTaken w =
        (if err = Some RepoErrorTaskExist then
           Some ((Some TmErrorTaskExist, t'), eh_New LevelDebug (error_text RepoErrorTaskExist) w2)
         else (case err of
             Some e \<Rightarrow> Some ((Some TmErrorCreatingTasks, t'), eh_New LevelError (error_text e) w2)
           | None \<Rightarrow> Some ((None, t'), publish_or_log AllTasks 1 w2)))"
      unfolding task_manager_Create_def n Let_def prod.case id t' r by auto
    show ?thesis
    proof (cases err)
      case None
      then have new: "task_id t' \<notin> dom (stored_in w)" "stored_in w2 = (stored_in w)(task_id t' \<mapsto> exec_time t')"
        using w2(3) by (simp_all add: create_result_def)
      have "counts (stored_in w2) (publish_or_log AllTasks 1 w2)" if "counts (stored_in w) w"
        using that c new finite_stored [OF s] by (intro counts_publish [of "stored_in w"]) auto
      with None run new w2(1) True show ?thesis by (auto simp: sound_simps creation_outcome_def Let_def)
    next
      case (Some e)
      show ?thesis
      proof (cases "e = RepoErrorTaskExist")
        case True
        with Some w2 \<open>task_id t = [] \<or> _\<close> c run show ?thesis
          by (simp add: sound_simps creation_outcome_def create_result_def Let_def)
      next
        case False
        with Some w2 \<open>task_id t = [] \<or> _\<close> c run show ?thesis
          by (simp add: sound_simps creation_outcome_def create_result_def Let_def split: if_splits)
      qed
    qed
  qed
qed

lemma manager_delete:
  assumes s: "sound w" and tries: "1 \<le> maxRetry s"
  shows "\<exists>err w'. task_manager_Delete s R tid w = Some (err, w') \<and> sound w' \<and>
    deletion_outcome tid (stored_in w) err (stored_in w') \<and>
    (counts (stored_in w) w \<longrightarrow> err \<noteq> Some TmErrorDeletingTask \<longrightarrow> counts (stored_in w') w')"
proof -
  obtain err n w1 where r: "retry s (delete_tasks R [\<lparr>task_id = tid, exec_time = 0\<rparr>]) [RepoErrorDeadlock] 0 w = Some ((err, n), w1)"
    and w1: "sound w1" "monitor w1 = monitor w" "delete_result {tid} (stored_in w) (n, err) (stored_in w1)"
    using retry_delete [OF s tries, of "[\<lparr>task_id = tid, exec_time = 0\<rparr>]"] by auto
  have c: "counts m w1 = counts m w" for m using w1(2) by (simp add: counts_def)
  show ?thesis
  proof (cases err)
    case (Some e)
    with r have "task_manager_Delete s R tid w = Some (Some TmErrorDeletingTask, eh_New LevelError (error_text e) w1)"
      by (simp add: task_manager_Delete_def)
    with w1 Some show ?thesis
      by (auto simp: sound_simps deletion_outcome_def delete_result_def restrict_single split: if_splits)
  next
    case None
    then have n: "n = int (card (dom (stored_in w) \<inter> {tid}))" "stored_in w1 = (stored_in w)(tid := None)"
      using w1(3) by (simp_all add: delete_result_def restrict_single)
    show ?thesis
    proof (cases "tid \<in> dom (stored_in w)")
      case True
      then have one: "n = 1" using n(1) by (simp add: Int_absorb1)
      have "int (card (dom (stored_in w1))) = int (card (dom (stored_in w))) + -1"
        using card_dom_restrict [OF finite_stored [OF s], of "{tid}"] n one by (simp add: restrict_single)
      then have "counts (stored_in w1) (publish_or_log AllTasks (wrap64 (- n)) w1)" if "counts (stored_in w) w"
        using that c one by (intro publish_wrap64 [of "stored_in w"]) simp_all
      moreover have "task_manager_Delete s R tid w = Some (None, publish_or_log AllTasks (wrap64 (- n)) w1)"
        using r None one by (simp add: task_manager_Delete_def)
      ultimately show ?thesis using w1(1) True n(2) by (simp add: sound_simps deletion_outcome_def)
    next
      case False
      then have none: "n = 0" "stored_in w1 = stored_in w" using n by (auto simp: fun_eq_iff)
      then have "task_manager_Delete s R tid w = Some (Some TmErrorTaskNotFound, w1)"
        using r None by (simp add: task_manager_Delete_def)
      with none False w1(1) c show ?thesis by (simp add: deletion_outcome_def)
    qed
  qed
qed

lemma manager_confirm:
  assumes s: "sound w" and tries: "1 \<le> maxRetry s"
  shows "\<exists>err w'. ConfirmExecution s R ts w = Some (err, w') \<and> sound w' \<and>
    confirmation_outcome (task_id ` set ts) (stored_in w) err (stored_in w') \<and>
    (counts (stored_in w) w \<longrightarrow> err = None \<longrightarrow> counts (stored_in w') w')"
proof -
  obtain err n w1 where r: "retry s (delete_tasks R ts) [RepoErrorDeadlock] 0 w = Some ((err, n), w1)"
    and w1: "sound w1" "monitor w1 = monitor w" "delete_result (task_id ` set ts) (stored_in w) (n, err) (stored_in w1)"
    using retry_delete [OF s tries, of ts] by metis
  have c: "counts m w1 = counts m w" for m using w1(2) by (simp add: counts_def)
  show ?thesis
  proof (cases err)
    case (Some e)
    with r have "ConfirmExecution s R ts w = Some (Some TmErrorConfirmationTasks, eh_New LevelError (error_text e) w1)"
      by (simp add: ConfirmExecution_def)
    with w1 Some show ?thesis
      by (auto simp: sound_simps confirmation_outcome_def delete_result_def split: if_splits)
  next
    case None
    then have n: "n = int (card (dom (stored_in w) \<inter> task_id ` set ts))" "stored_in w1 = stored_in w |` (- task_id ` set ts)"
      using w1(3) by (simp_all add: delete_result_def)
    have "counts (stored_in w1) (publish_or_log AllTasks (wrap64 (- n)) w1)" if "counts (stored_in w) w"
      using that c card_dom_restrict [OF finite_stored [OF s]] n by (intro publish_wrap64 [of "stored_in w"]) simp_all
    moreover have "ConfirmExecution s R ts w = Some (None, publish_or_log AllTasks (wrap64 (- n)) w1)"
      using r None by (simp add: ConfirmExecution_def)
    ultimately show ?thesis using w1(1) n(2) by (simp add: sound_simps confirmation_outcome_def)
  qed
qed

lemma manager_get:
  assumes s: "sound w" and tries: "1 \<le> maxRetry s"
  shows "\<exists>res w'. GetTasksToComplete s R d w = Some (res, w') \<and> sound w' \<and>
    stored_in w' = stored_in w \<and> monitor w' = monitor w \<and> search_outcome res"
proof -
  obtain err c w1 where r: "retry s (\<lambda>w. map_option (\<lambda>((c, err), w). ((err, c), w)) (op_Find R d w))
       [RepoErrorDeadlock, RepoErrorLockWaitTimeout] None w = Some ((err, c), w1)"
    and w1: "sound w1" "monitor w1 = monitor w" "stored_in w1 = stored_in w" "find_result (c, err)"
    using retry_find [OF s tries, of d] by metis
  show ?thesis
    using r w1 by (cases err) (auto simp: GetTasksToComplete_def find_result_def search_outcome_def sound_simps)
qed

lemma manager_new:
  assumes s: "sound w" and fresh: "metrics (monitor w) AllTasks = None"
    and new: "task_manager_New merge R options w = Some (m, w')"
  shows "sound w' \<and> stored_in w' = stored_in w \<and> counts (stored_in w') w' \<and>
    metrics (monitor w') = (metrics (monitor w))(AllTasks \<mapsto> IntegralMetric (wrap64 (int (card (dom (stored_in w))))))"
proof -
  obtain err w1 where u: "op_Up R w = Some (err, w1)" "sound w1" "monitor w1 = monitor w" "stored_in w1 = stored_in w"
    using up [OF s] by metis
  obtain n err2 w2 where c: "op_Count R w1 = Some ((n, err2), w2)" "sound w2" "monitor w2 = monitor w"
    "stored_in w2 = stored_in w" "err2 = None \<longrightarrow> n = int (card (dom (stored_in w)))"
    using count [OF u(2)] u(3,4) by metis
  define mo where "mo = (monitor w)\<lparr>metrics := (metrics (monitor w))(AllTasks \<mapsto> IntegralMetric (wrap64 n))\<rparr>"
  define mo0 where "mo0 = (monitor w)\<lparr>metrics := (metrics (monitor w))(AllTasks \<mapsto> IntegralMetric 0)\<rparr>"
  have i: "init_or_panic AllTasks IntegralMetricType w2 = Some (w2\<lparr>monitor := mo0\<rparr>)"
    using fresh c(3) by (simp add: init_or_panic_def mon_Init_def monitoring_Init_def mo0_def)
  have p: "mon_Publish AllTasks n (w2\<lparr>monitor := mo0\<rparr>) = (None, w2\<lparr>monitor := mo\<rparr>)"
    by (simp add: mon_Publish_def monitoring_Publish_def mo0_def mo_def)
  have e: "err = None" using new u(1) by (cases err) (simp_all add: task_manager_New_def)
  have "err2 = None" using new u(1) c(1) e
    by (cases err2) (auto simp: task_manager_New_def Let_def bind_eq_Some_conv)
  moreover from this have "w' = w2\<lparr>monitor := mo\<rparr>"
    using new u(1) c(1) e by (auto simp: task_manager_New_def Let_def bind_eq_Some_conv i p)
  moreover have "sound (w2\<lparr>monitor := mo\<rparr>) \<and> stored_in (w2\<lparr>monitor := mo\<rparr>) = stored_in w"
    using env_irrelevant [OF c(2), where es = "events w2" and m = mo and k = "clock_reads w2"] c(4) by simp
  ultimately show ?thesis using c(5) by (simp add: counts_def mo_def)
qed

end

section \<open>Sequences of calls\<close>

datatype manager_call =
  CallCreate task bool string
  | CallDeleteTask string
  | CallConfirm "task list"
  | CallGet duration

fun run_manager_call ::
    "taskManager \<Rightarrow> 'a world_scheme repository_ops \<Rightarrow> (string \<Rightarrow> bool) \<Rightarrow> manager_call \<Rightarrow>
     'a world_scheme \<Rightarrow> (go_error option \<times> 'a world_scheme) option" where
  "run_manager_call s R uuid_ok (CallCreate t isTaken new_id) w =
     map_option (\<lambda>((err, _), w). (err, w)) (task_manager_Create s R uuid_ok new_id t isTaken w)"
| "run_manager_call s R uuid_ok (CallDeleteTask tid) w = task_manager_Delete s R tid w"
| "run_manager_call s R uuid_ok (CallConfirm ts) w = ConfirmExecution s R ts w"
| "run_manager_call s R uuid_ok (CallGet d) w =
     map_option (\<lambda>((_, err), w). (err, w)) (GetTasksToComplete s R d w)"

fun run_manager_calls ::
    "taskManager \<Rightarrow> 'a world_scheme repository_ops \<Rightarrow> (string \<Rightarrow> bool) \<Rightarrow> manager_call list \<Rightarrow>
     'a world_scheme \<Rightarrow> (go_error option list \<times> 'a world_scheme) option" where
  "run_manager_calls s R uuid_ok [] w = Some ([], w)"
| "run_manager_calls s R uuid_ok (c # cs) w = do {
     (err, w) \<leftarrow> run_manager_call s R uuid_ok c w;
     (errs, w) \<leftarrow> run_manager_calls s R uuid_ok cs w;
     Some (err # errs, w)
   }"

text \<open>The answers after which it is open whether the statement was done.\<close>

definition unsure :: "go_error option \<Rightarrow> bool" where
  "unsure err \<longleftrightarrow> err \<in> Some ` {TmErrorCreatingTasks, TmErrorDeletingTask, TmErrorConfirmationTasks}"

context repository_contract
begin

lemma manager_call_sound:
  assumes s: "sound w" and tries: "1 \<le> maxRetry s"
  shows "\<exists>err w'. run_manager_call s R uuid_ok c w = Some (err, w') \<and> sound w' \<and>
    (counts (stored_in w) w \<longrightarrow> \<not> unsure err \<longrightarrow> counts (stored_in w') w')"
proof (cases c)
  case (CallCreate t isTaken new_id)
  with manager_create [OF s tries, of uuid_ok new_id t isTaken] show ?thesis by (fastforce simp: unsure_def)
next
  case (CallDeleteTask tid)
  with manager_delete [OF s tries, of tid] show ?thesis by (fastforce simp: unsure_def)
next
  case (CallConfirm ts)
  have clear: "err = None" if "confirmation_outcome D m err m'" "\<not> unsure err" for D m m' err
    using that by (auto simp: confirmation_outcome_def unsure_def split: option.splits)
  from CallConfirm manager_confirm [OF s tries, of ts] clear show ?thesis by simp metis
next
  case (CallGet d)
  from manager_get [OF s tries, of d] obtain res w' where "GetTasksToComplete s R d w = Some (res, w')"
    "sound w'" "stored_in w' = stored_in w" "monitor w' = monitor w" by metis
  with CallGet show ?thesis by (cases res) (simp add: counts_def)
qed

lemma manager_calls_sound:
  assumes "sound w" "1 \<le> maxRetry s"
  shows "\<exists>errs w'. run_manager_calls s R uuid_ok cs w = Some (errs, w') \<and> sound w' \<and>
    (counts (stored_in w) w \<longrightarrow> (\<forall>err \<in> set errs. \<not> unsure err) \<longrightarrow> counts (stored_in w') w')"
  using assms(1)
proof (induction cs arbitrary: w)
  case (Cons c cs)
  from manager_call_sound [OF Cons.prems assms(2), of uuid_ok c] obtain err w1 where
    c: "run_manager_call s R uuid_ok c w = Some (err, w1)" "sound w1"
    "counts (stored_in w) w \<longrightarrow> \<not> unsure err \<longrightarrow> counts (stored_in w1) w1" by metis
  from Cons.IH [OF c(2)] obtain errs w2 where
    "run_manager_calls s R uuid_ok cs w1 = Some (errs, w2)" "sound w2"
    "counts (stored_in w1) w1 \<longrightarrow> (\<forall>err \<in> set errs. \<not> unsure err) \<longrightarrow> counts (stored_in w2) w2" by metis
  with c show ?case by auto
qed simp

end

section \<open>Properties\<close>

definition sample_manager :: taskManager where
  "sample_manager = \<lparr>maxRetry = 3, timeGapBetweenRetry = 10 * millisecond\<rparr>"

lemma sample_tries [simp]: "1 \<le> maxRetry sample_manager"
  by (simp add: sample_manager_def)

definition counted_world :: "outcome list \<Rightarrow> repo_world" where
  "counted_world xs = (sample_world xs)\<lparr>monitor :=
     \<lparr>periodMeasure = second, metrics = [AllTasks \<mapsto> IntegralMetric 1], subscriptionChs = Map.empty\<rparr>\<rparr>"

lemma sample_stored: "stored_tasks (sample_world xs) = [''a'' \<mapsto> 50]"
  by (auto simp: stored_tasks_def stored_def home_def task_map_def coll_map_def sample_database_def fun_eq_iff)

lemma counted_world_ok [simp]:
  "repo_sound sample_repository example_mysql (counted_world xs) \<longleftrightarrow> (\<forall>x \<in> set xs. documented_outcome x)"
  "stored_tasks (counted_world xs) = [''a'' \<mapsto> 50]" "counts [''a'' \<mapsto> v] (counted_world xs)"
  "clock (counted_world xs) n = 100 * second"
proof -
  have "repo_sound sample_repository example_mysql (counted_world xs) \<longleftrightarrow>
      repo_sound sample_repository example_mysql (sample_world xs)"
    by (simp add: repo_sound_def counted_world_def)
  then show "repo_sound sample_repository example_mysql (counted_world xs) \<longleftrightarrow> (\<forall>x \<in> set xs. documented_outcome x)" by simp
  show "stored_tasks (counted_world xs) = [''a'' \<mapsto> 50]"
    using sample_stored [of xs] by (simp add: stored_tasks_def counted_world_def)
  show "counts [''a'' \<mapsto> v] (counted_world xs)" by (simp add: counts_def counted_world_def wrap64_def)
  show "clock (counted_world xs) n = 100 * second" by (simp add: counted_world_def)
qed

lemma sample_create_runs:
  "fst (the (task_manager_Create sample_manager (mysql_ops sample_repository example_mysql) (\<lambda>_. True) ''n''
      \<lparr>task_id = '''', exec_time = 7\<rparr> False (counted_world [Refused (MySQLError ER_LOCK_DEADLOCK ''deadlock'')]))) =
      (None, \<lparr>task_id = ''n'', exec_time = 100\<rparr>)"
  by (simp add: task_manager_Create_def retry_def retry_from.simps sample_manager_def mysql_ops_def repo_Create_def
      call_create_task_def counted_world_def sample_world_def sample_repository_def sample_database_def next_outcome_def
      time_Now_def create_clamped_def Unix_def second_def ER_LOCK_DEADLOCK_def ER_DUP_ENTRY_def log_error_def eh_New_def
      sql_create_task_def find_or_insert_collection_def collections_with_room_def insert_collection_def insert_task_def
      publish_or_log_def mon_Publish_def monitoring_Publish_def AllTasks_def)

text \<open>
  C14: \<open>Create\<close> of the task manager stores the task with an execution time not before now, under its
  own id or a new one, and only when the id was not in use; the named errors say exactly what was
  wrong (a malformed id, an id in use) and leave the stored tasks alone; after
  \<open>TmErrorCreatingTasks\<close> the task may or may not be stored. This holds for every behaviour of the
  server and whatever has to be retried.
\<close>

theorem manager_Create_stores:
  fixes w :: "'a repo_world_scheme" and t :: task and new_id :: string
  assumes "repo_sound r my w" "1 \<le> maxRetry s"
  defines "t' \<equiv> created_task new_id (Unix (clock w (clock_reads w))) t"
  shows "\<exists>err w'. task_manager_Create s (mysql_ops r my) uuid_ok new_id t isTaken w = Some ((err, t'), w') \<and>
    repo_sound r my w' \<and> creation_outcome uuid_ok t t' (stored_tasks w) err (stored_tasks w')"
  using mysql_repo.manager_create [OF assms(1,2), of uuid_ok new_id t isTaken] unfolding t'_def by blast

theorem manager_Create_stores_witness:
  "\<exists>w'. task_manager_Create sample_manager (mysql_ops sample_repository example_mysql) (\<lambda>_. True) ''n''
      \<lparr>task_id = '''', exec_time = 7\<rparr> False (counted_world [Refused (MySQLError ER_LOCK_DEADLOCK ''deadlock'')]) =
      Some ((None, \<lparr>task_id = ''n'', exec_time = 100\<rparr>), w') \<and> stored_tasks w' = [''a'' \<mapsto> 50, ''n'' \<mapsto> 100]"
proof -
  let ?w = "counted_world [Refused (MySQLError ER_LOCK_DEADLOCK ''deadlock'')]"
  let ?t = "\<lparr>task_id = '''', exec_time = 7\<rparr>"
  have s: "repo_sound sample_repository example_mysql ?w" by (simp add: ER_LOCK_DEADLOCK_def ER_DUP_ENTRY_def)
  have t: "created_task ''n'' (Unix (clock ?w (clock_reads ?w))) ?t = \<lparr>task_id = ''n'', exec_time = 100\<rparr>"
    by (simp add: created_task_def Unix_def second_def)
  from manager_Create_stores [OF s sample_tries, of "\<lambda>_. True" "''n''" ?t False] sample_create_runs
  show ?thesis unfolding t by (auto simp: creation_outcome_def)
qed

text \<open>
  \<open>Delete\<close> of the task manager removes exactly the task of the id, answers
  \<open>TmErrorTaskNotFound\<close> exactly when there is none, and after \<open>TmErrorDeletingTask\<close> the task may or
  may not be stored; no other task is touched. It never panics, whatever the server answers.
\<close>

theorem manager_Delete_removes:
  assumes "repo_sound r my w" "1 \<le> maxRetry s"
  shows "\<exists>err w'. task_manager_Delete s (mysql_ops r my) tid w = Some (err, w') \<and> repo_sound r my w' \<and>
    deletion_outcome tid (stored_tasks w) err (stored_tasks w')"
  using mysql_repo.manager_delete [OF assms, of tid] by blast

theorem manager_Delete_removes_witness:
  "\<exists>w'. task_manager_Delete sample_manager (mysql_ops sample_repository example_mysql) ''b'' (counted_world []) =
      Some (Some TmErrorTaskNotFound, w') \<and> stored_tasks w' = [''a'' \<mapsto> 50]"
proof -
  have s: "repo_sound sample_repository example_mysql (counted_world [])" by simp
  have "map_option fst (task_manager_Delete sample_manager (mysql_ops sample_repository example_mysql) ''b'' (counted_world [])) =
      Some (Some TmErrorTaskNotFound)"
    by (simp add: task_manager_Delete_def retry_def retry_from.simps sample_manager_def delete_tasks_def mysql_ops_def
        repo_Delete_def exec_call_def next_outcome_def counted_world_def sample_world_def sample_repository_def
        sample_database_def sql_delete_tasks_def count_and_clean_def wrap32_def go_rem_def deleteEmptyCollections_def
        unix_timestamp_def sql_empty_collections_def read_rows_def close_rows_def plain_call_def tasks_of_collection_def
        sql_delete_collections_def)
  with manager_Delete_removes [OF s sample_tries, of "''b''"] show ?thesis
    by (auto simp: deletion_outcome_def)
qed

text \<open>
  \<open>ConfirmExecution\<close> without an error leaves none of the confirmed tasks in the database and
  every other task as it was; after \<open>TmErrorConfirmationTasks\<close> either all of them or none are gone.
\<close>

theorem manager_Confirm_removes:
  assumes "repo_sound r my w" "1 \<le> maxRetry s"
  shows "\<exists>err w'. ConfirmExecution s (mysql_ops r my) ts w = Some (err, w') \<and> repo_sound r my w' \<and>
    confirmation_outcome (task_id ` set ts) (stored_tasks w) err (stored_tasks w')"
  using mysql_repo.manager_confirm [OF assms, of ts] by blast

theorem manager_Confirm_removes_witness:
  "\<exists>err w'. ConfirmExecution sample_manager (mysql_ops sample_repository example_mysql) [\<lparr>task_id = ''a'', exec_time = 50\<rparr>]
      (counted_world [Unacked (DriverError ''lost'')]) = Some (err, w') \<and>
     confirmation_outcome {''a''} [''a'' \<mapsto> 50] err (stored_tasks w')"
proof -
  have s: "repo_sound sample_repository example_mysql (counted_world [Unacked (DriverError ''lost'')])" by simp
  from manager_Confirm_removes [OF s sample_tries, of "[\<lparr>task_id = ''a'', exec_time = 50\<rparr>]"] show ?thesis by auto
qed

text \<open>
  C15: The metric \<open>All\<close> is the number of stored tasks: after the construction of the task manager and
  any calls of its operations, in any order and with any failures, unless a call answered that it
  does not know whether it was done. No call panics.
\<close>

theorem All_counts_stored_tasks:
  assumes "repo_sound r my w" "metrics (monitor w) AllTasks = None"
    "task_manager_New merge (mysql_ops r my) options w = Some (s, w0)" "1 \<le> maxRetry s"
  shows "\<exists>errs w'. run_manager_calls s (mysql_ops r my) uuid_ok cs w0 = Some (errs, w') \<and> repo_sound r my w' \<and>
    ((\<forall>err \<in> set errs. \<not> unsure err) \<longrightarrow> counts (stored_tasks w') w')"
proof -
  from mysql_repo.manager_new [OF assms(1-3)] have "repo_sound r my w0" "counts (stored_tasks w0) w0" by blast+
  with mysql_repo.manager_calls_sound [OF _ assms(4), of r my w0 uuid_ok cs] show ?thesis by blast
qed

definition standard_task_manager_merge ::
    "task_manager_options \<Rightarrow> task_manager_options \<Rightarrow> task_manager_options option" where
  "standard_task_manager_merge d s = Some
     \<lparr>opt_MaxRetry = fill_zero (opt_MaxRetry d) (opt_MaxRetry s),
      opt_TimeGapBetweenRetry = fill_zero (opt_TimeGapBetweenRetry d) (opt_TimeGapBetweenRetry s)\<rparr>"

lemma standard_task_manager_merge_ok: "documented_task_manager_merge standard_task_manager_merge"
  by (simp add: documented_task_manager_merge_def standard_task_manager_merge_def)

lemma sample_manager_new:
  obtains w0 where "task_manager_New standard_task_manager_merge (mysql_ops sample_repository example_mysql) None
     (sample_world []) = Some (sample_manager, w0)"
  by (simp add: task_manager_New_def mysql_ops_def repo_Up_def begin_tx_def plain_call_def next_outcome_def exec_call_def
      create_collection_table_def create_task_table_def create_procedure_def commit_tx_def repo_Count_def sql_count_def
      sample_world_def sample_database_def standard_task_manager_merge_def fill_zero_def init_or_panic_def mon_Init_def
      monitoring_Init_def mon_Publish_def monitoring_Publish_def sample_manager_def ER_SP_ALREADY_EXISTS_def)

theorem All_counts_stored_tasks_witness:
  "\<exists>w0 errs w'. task_manager_New standard_task_manager_merge (mysql_ops sample_repository example_mysql) None
      (sample_world []) = Some (sample_manager, w0) \<and>
     run_manager_calls sample_manager (mysql_ops sample_repository example_mysql) (\<lambda>_. True)
       [CallDeleteTask ''a'', CallDeleteTask ''a''] w0 = Some (errs, w') \<and>
     repo_sound sample_repository example_mysql w'"
proof -
  have s: "repo_sound sample_repository example_mysql (sample_world [])" by simp
  have m: "metrics (monitor (sample_world [])) AllTasks = None" by (simp add: sample_world_def)
  obtain w0 where n: "task_manager_New standard_task_manager_merge (mysql_ops sample_repository example_mysql) None
     (sample_world []) = Some (sample_manager, w0)" by (rule sample_manager_new)
  from All_counts_stored_tasks [OF s m n sample_tries] n show ?thesis by metis
qed

text \<open>
  C31: \<open>retry\<close> calls its callback until it succeeds, fails with an error that is not retryable, or has
  been called \<open>MaxRetry\<close> times, and returns what the last call returned.
\<close>

theorem retry_tries:
  fixes es :: "go_error list"
  assumes "1 \<le> maxRetry s" "nat (maxRetry s) \<le> length (script w)"
  defines "calls \<equiv> min (Suc (length (takeWhile (retryable es) (script w)))) (nat (maxRetry s))"
  shows "\<exists>w'. retry s scripted es () w = Some ((script w ! (calls - 1), ()), w') \<and> script w' = drop calls (script w)"
proof -
  have "nat (maxRetry s - 1) < length (script w)" using assms(1,2) by linarith
  moreover have "calls = Suc (min (length (takeWhile (retryable es) (script w))) (nat (maxRetry s - 1)))"
    using assms(1) unfolding calls_def by linarith
  ultimately show ?thesis
    using retry_from_script [OF assms(1), of w es None "()"] by (simp add: retry_def)
qed

theorem retry_tries_witness:
  "\<exists>w'. retry sample_manager scripted [RepoErrorDeadlock] ()
       \<lparr>events = [], monitor = \<lparr>periodMeasure = second, metrics = Map.empty, subscriptionChs = Map.empty\<rparr>,
        clock = (\<lambda>_. 0), clock_reads = 0, script = [Some RepoErrorDeadlock, Some RepoErrorTaskExist, None]\<rparr> =
       Some ((Some RepoErrorTaskExist, ()), w') \<and> script w' = [None]" (is "\<exists>w'. retry _ _ _ _ ?w = _ \<and> _")
proof -
  have "nat (maxRetry sample_manager) \<le> length (script ?w)" by (simp add: sample_manager_def)
  from retry_tries [OF sample_tries this, of "[RepoErrorDeadlock]"] show ?thesis
    by (simp add: retryable_def sample_manager_def)
qed

text \<open>
  With a negative \<open>MaxRetry\<close>, which the options do not exclude, no operation reaches the
  repository and \<open>Create\<close> reports a success: it returns no error, counts the task, and stores nothing.
\<close>

theorem negative_MaxRetry_creates_nothing:
  assumes "maxRetry s < 1" "uuid_ok (task_id t)" "task_id t \<noteq> ''''"
  shows "\<exists>t' w'. task_manager_Create s R uuid_ok new_id t isTaken w = Some ((None, t'), w') \<and>
    world.more w' = world.more w"
proof -
  have "task_id (create_clamped t n) = task_id t" for n by (simp add: create_clamped_def)
  then show ?thesis
    using assms by (simp add: task_manager_Create_def retry_no_tries time_Now_def Let_def)
qed

theorem negative_MaxRetry_creates_nothing_witness:
  "\<exists>t' w'. task_manager_Create \<lparr>maxRetry = -1, timeGapBetweenRetry = 0\<rparr> (mysql_ops sample_repository example_mysql)
      (\<lambda>_. True) ''n'' \<lparr>task_id = ''b'', exec_time = 200\<rparr> False (counted_world []) = Some ((None, t'), w') \<and>
    world.more w' = world.more (counted_world [])"
  by (rule negative_MaxRetry_creates_nothing) simp_all

text \<open>
  \<open>GetTasksToComplete\<close> changes no stored task, and either returns the collections the repository
  found, without an error, or one of its two errors and no collections.
\<close>

theorem manager_Get_answers:
  assumes "repo_sound r my w" "1 \<le> maxRetry s"
  shows "\<exists>res w'. GetTasksToComplete s (mysql_ops r my) d w = Some (res, w') \<and> repo_sound r my w' \<and>
    stored_tasks w' = stored_tasks w \<and> monitor w' = monitor w \<and> search_outcome res"
  by (rule mysql_repo.manager_get [OF assms])

theorem manager_Get_answers_witness:
  "\<exists>res w'. GetTasksToComplete sample_manager (mysql_ops sample_repository example_mysql) second
      (counted_world [Acked, Refused (MySQLError ER_LOCK_DEADLOCK ''deadlock'')]) = Some (res, w') \<and> search_outcome res"
proof -
  have s: "repo_sound sample_repository example_mysql (counted_world [Acked, Refused (MySQLError ER_LOCK_DEADLOCK ''deadlock'')])"
    by (simp add: ER_LOCK_DEADLOCK_def ER_DUP_ENTRY_def)
  from manager_Get_answers [OF s sample_tries, of second] show ?thesis by blast
qed

end
