(* ===== verification/Task_Manager_Contract.thy ===== *)
theory Task_Manager_Contract
  imports Task_Manager
begin

text \<open>
  \<open>contracts.TaskManagerInterface\<close>: the table of methods the services call, the contract they rely on,
  and the task manager over MySQL as an instance of it.
\<close>

record 'w task_manager_ops =
  tm_Create :: "string \<Rightarrow> task \<Rightarrow> bool \<Rightarrow> 'w \<Rightarrow> ((go_error option \<times> task) \<times> 'w) option"
  tm_Delete :: "string \<Rightarrow> 'w \<Rightarrow> (go_error option \<times> 'w) option"
  tm_Get :: "duration \<Rightarrow> 'w \<Rightarrow> ((nat list option \<times> go_error option) \<times> 'w) option"
  tm_Confirm :: "task list \<Rightarrow> 'w \<Rightarrow> (go_error option \<times> 'w) option"

locale task_manager_contract =
  fixes TM :: "'a world_scheme task_manager_ops"
    and sound :: "'a world_scheme \<Rightarrow> bool"
    and stored_in :: "'a world_scheme \<Rightarrow> string \<rightharpoonup> int64"
    and valid_id :: "string \<Rightarrow> bool"
  assumes create: "sound w \<Longrightarrow> \<exists>err t' w'. tm_Create TM new_id t isTaken w = Some ((err, t'), w') \<and> sound w' \<and>
      t' = created_task new_id (Unix (clock w (clock_reads w))) t \<and>
      creation_outcome valid_id t t' (stored_in w) err (stored_in w')"
    and delete: "sound w \<Longrightarrow> \<exists>err w'. tm_Delete TM tid w = Some (err, w') \<and> sound w' \<and>
      deletion_outcome tid (stored_in w) err (stored_in w')"
    and get: "sound w \<Longrightarrow> \<exists>res w'. tm_Get TM d w = Some (res, w') \<and> sound w' \<and>
      stored_in w' = stored_in w \<and> search_outcome res"
    and confirm: "sound w \<Longrightarrow> \<exists>err w'. tm_Confirm TM ts w = Some (err, w') \<and> sound w' \<and>
      confirmation_outcome (task_id ` set ts) (stored_in w) err (stored_in w')"
    and env_irrelevant: "sound w \<Longrightarrow>
      sound (w\<lparr>events := es, monitor := m, clock_reads := k\<rparr>) \<and>
      stored_in (w\<lparr>events := es, monitor := m, clock_reads := k\<rparr>) = stored_in w"

definition manager_ops ::
    "taskManager \<Rightarrow> 'a world_scheme repository_ops \<Rightarrow> (string \<Rightarrow> bool) \<Rightarrow> 'a world_scheme task_manager_ops" where
  "manager_ops s R uuid_ok =
     \<lparr>tm_Create = task_manager_Create s R uuid_ok,
      tm_Delete = task_manager_Delete s R,
      tm_Get = GetTasksToComplete s R,
      tm_Confirm = ConfirmExecution s R\<rparr>"

text \<open>Any repository that keeps its contract gives a task manager that keeps this one, if it may try at all.\<close>

sublocale repository_contract \<subseteq>
  manager: task_manager_contract "manager_ops s R uuid_ok" "\<lambda>w. sound w \<and> 1 \<le> maxRetry s" stored_in uuid_ok
  for s uuid_ok
proof
  fix w :: "'a world_scheme" and new_id t isTaken tid d ts es m k
  assume s: "sound w \<and> 1 \<le> maxRetry s"
  then have w: "sound w" and tries: "1 \<le> maxRetry s" by simp_all
  show "\<exists>err t' w'. tm_Create (manager_ops s R uuid_ok) new_id t isTaken w = Some ((err, t'), w') \<and>
      (sound w' \<and> 1 \<le> maxRetry s) \<and> t' = created_task new_id (Unix (clock w (clock_reads w))) t \<and>
      creation_outcome uuid_ok t t' (stored_in w) err (stored_in w')"
    using manager_create [OF w tries, of uuid_ok new_id t isTaken] tries by (auto simp: manager_ops_def)
  show "\<exists>err w'. tm_Delete (manager_ops s R uuid_ok) tid w = Some (err, w') \<and> (sound w' \<and> 1 \<le> maxRetry s) \<and>
      deletion_outcome tid (stored_in w) err (stored_in w')"
    using manager_delete [OF w tries, of tid] tries by (auto simp: manager_ops_def)
  show "\<exists>res w'. tm_Get (manager_ops s R uuid_ok) d w = Some (res, w') \<and> (sound w' \<and> 1 \<le> maxRetry s) \<and>
      stored_in w' = stored_in w \<and> search_outcome res"
    using manager_get [OF w tries, of d] tries by (auto simp: manager_ops_def)
  show "\<exists>err w'. tm_Confirm (manager_ops s R uuid_ok) ts w = Some (err, w') \<and> (sound w' \<and> 1 \<le> maxRetry s) \<and>
      confirmation_outcome (task_id ` set ts) (stored_in w) err (stored_in w')"
    using manager_confirm [OF w tries, of ts] tries by (auto simp: manager_ops_def)
  show "(sound (w\<lparr>events := es, monitor := m, clock_reads := k\<rparr>) \<and> 1 \<le> maxRetry s) \<and>
      stored_in (w\<lparr>events := es, monitor := m, clock_reads := k\<rparr>) = stored_in w"
    using env_irrelevant [OF w] tries by simp
qed

interpretation mysql_manager: task_manager_contract
  "manager_ops s (mysql_ops r my) uuid_ok" "\<lambda>w. repo_sound r my w \<and> 1 \<le> maxRetry s" stored_tasks uuid_ok
  by (rule mysql_repo.manager.task_manager_contract_axioms)

end
