(* ===== verification/Task_Places.thy ===== *)
theory Task_Places
  imports Task_Manager_Contract
begin

text \<open>
  Where the tasks are: the contract of \<open>contracts.TaskManagerInterface\<close> and \<open>CollectionsInterface\<close> in
  terms of \<open>place\<close>, the collection of every stored task with its owner, which extends the contract of
  theory Task_Manager_Contract; and the task manager over MySQL as an instance of it.
\<close>

section \<open>The contract\<close>

locale placing_manager = task_manager_contract TM sound stored_in valid_id
  for TM :: "'a world_scheme task_manager_ops"
    and sound :: "'a world_scheme \<Rightarrow> bool"
    and stored_in :: "'a world_scheme \<Rightarrow> string \<rightharpoonup> int64"
    and valid_id :: "string \<Rightarrow> bool" +
  fixes read :: "nat \<Rightarrow> 'a world_scheme \<Rightarrow> (task list \<times> go_error option) \<times> 'a world_scheme"
    and place :: "'a world_scheme \<Rightarrow> string \<rightharpoonup> coll_row"
    and me :: string
  assumes stored_place: "stored_in w = (\<lambda>u. map_option coll_exec (place w u))"
    and create_place: "sound w \<Longrightarrow> tm_Create TM new_id t isTaken w = Some ((err, t'), w') \<Longrightarrow>
      (\<forall>u. u \<noteq> task_id t' \<longrightarrow> place w' u = place w u) \<and> (task_id t' \<in> dom (place w) \<longrightarrow> place w' = place w) \<and>
      (err = None \<longrightarrow> (\<exists>c. place w' (task_id t') = Some c \<and> (coll_taken c = me \<longleftrightarrow> isTaken)))"
    and delete_place: "sound w \<Longrightarrow> tm_Delete TM tid w = Some (err, w') \<Longrightarrow> place w' \<subseteq>\<^sub>m place w"
    and confirm_place: "sound w \<Longrightarrow> tm_Confirm TM ts w = Some (err, w') \<Longrightarrow> place w' \<subseteq>\<^sub>m place w"
    and get_place: "sound w \<Longrightarrow> tm_Get TM d w = Some ((c, err), w') \<Longrightarrow>
      (case err of
         None \<Rightarrow> \<exists>ks. c = Some ks \<and> distinct ks \<and> place w' = map_option (taken_by me ks) \<circ> place w \<and>
           (\<forall>u p. place w u = Some p \<longrightarrow> coll_id p \<in> set ks \<longrightarrow> coll_taken p \<noteq> me)
       | Some e \<Rightarrow> e = TmErrorCollectionsNotFound \<longrightarrow> place w' = place w)"
    and read_place: "sound w \<Longrightarrow> read i w = ((ts, err), w') \<Longrightarrow> sound w' \<and> place w' = place w \<and>
      (err = None \<longrightarrow> distinct (map task_id ts) \<and>
         set ts = {t. \<exists>c. place w (task_id t) = Some c \<and> exec_time t = coll_exec c \<and> coll_id c = i})"
    and env_place: "place (w\<lparr>events := es, monitor := m, clock_reads := k\<rparr>) = place w"

section \<open>MySQL: creating\<close>

text \<open>What a creation makes of the tables, whatever it reports.\<close>

definition create_home :: "mysqlRepository \<Rightarrow> task \<Rightarrow> bool \<Rightarrow> database \<Rightarrow> go_error option \<Rightarrow> database \<Rightarrow> bool" where
  "create_home r t isTaken db err db' \<longleftrightarrow> created r t isTaken db db' \<or> err \<noteq> None \<and> home db' = home db"

lemma created_home: "home db1 = home db \<Longrightarrow> created r t isTaken db1 db' = created r t isTaken db db'"
  by (simp add: created_def stored_def dom_def)

lemma publish_database: "database (publish_or_log t v w) = database (w :: 'a repo_world_scheme)"
proof -
  obtain es mo where "publish_or_log t v w = w\<lparr>events := es, monitor := mo, clock_reads := clock_reads w\<rparr>"
    using publish_or_log_world [of t v w] by blast
  then show ?thesis by simp
qed

lemma repo_Create_home:
  assumes s: "repo_sound r my w" and c: "repo_Create r my t isTaken w = (err, w')"
  shows "create_home r t isTaken (database w) err (database w')"
proof -
  obtain e w1 where e: "call_create_task r my t isTaken w = (e, w1)" by (metis surj_pair)
  have u: "undisturbed w1 w'" using c by (cases e) (auto simp: repo_Create_def e Let_def)
  have "err = None \<longleftrightarrow> e = None" using c by (cases e) (auto simp: repo_Create_def e Let_def)
  with call_create_task_facts(3) [OF s e] undisturbed_database [OF u] show ?thesis
    by (cases e) (auto simp: create_home_def split: if_splits)
qed

lemma retry_create_home:
  fixes w :: "'a repo_world_scheme"
  assumes s: "repo_sound r my w" and tries: "1 \<le> maxRetry s"
    and run: "retry s (\<lambda>w. map_option (\<lambda>(err, w). ((err, ()), w)) (op_Create (mysql_ops r my) t isTaken w)) [RepoErrorDeadlock] () w =
      Some ((err, x), w')"
  shows "create_home r t isTaken (database w) err (database w')"
proof -
  let ?cb = "\<lambda>w. map_option (\<lambda>(err, w). ((err, ()), w)) (op_Create (mysql_ops r my) t isTaken w)"
  let ?I = "\<lambda>v :: 'a repo_world_scheme. repo_sound r my v \<and> home (database v) = home (database w)"
  let ?Q = "\<lambda>e (x :: unit) (v :: 'a repo_world_scheme). create_home r t isTaken (database w) e (database v)"
  have step: "\<exists>e x v'. ?cb v = Some ((e, x), v') \<and>
      (if \<exists>r \<in> set [RepoErrorDeadlock]. e = Some r
       then ?I (eh_New LevelError (error_text (the e)) v') \<and> ?Q e x (eh_New LevelError (error_text (the e)) v')
       else ?Q e x v')"
    if I: "?I v" for v
  proof -
    obtain e v' where c: "repo_Create r my t isTaken v = (e, v')" by (metis surj_pair)
    note f = repo_Create_facts [OF conjunct1 [OF I] c]
    have "create_home r t isTaken (database w) e (database v')"
      using repo_Create_home [OF conjunct1 [OF I] c] created_home [of "database v" "database w"] I by (auto simp: create_home_def)
    moreover have "home (database v') = home (database w)" if "e = Some RepoErrorDeadlock" using f(5) that I by simp
    moreover have "repo_sound r my (eh_New l m v') \<longleftrightarrow> repo_sound r my v'" "database (eh_New l m v') = database v'" for l m
      by (simp_all add: repo_sound_def eh_New_def)
    ultimately show ?thesis using c f(2) by (auto simp: mysql_ops_def)
  qed
  have "?I w" using s by simp
  have "\<exists>e x v. retry_from s ?cb [RepoErrorDeadlock] 1 (None, ()) w = Some ((e, x), v) \<and> ?Q e x v"
  proof (rule retry_from_rule [where I = ?I])
    show "?I w" by (fact \<open>?I w\<close>)
  qed (fact step, fact tries)
  with run show ?thesis unfolding retry_def by auto
qed

lemma manager_create_result:
  fixes w :: "'a repo_world_scheme" and t :: task
  assumes s: "repo_sound r my w" and tries: "1 \<le> maxRetry s"
    and run: "task_manager_Create s (mysql_ops r my) uuid_ok new_id t isTaken w = Some ((err, t'), w')"
  shows "create_home r t' isTaken (database w) err (database w')"
proof -
  obtain w1 where n: "time_Now w = (clock w (clock_reads w), w1)" by (simp add: time_Now_def)
  have w1: "repo_sound r my w1" "database w1 = database w"
    using s n by (auto simp: time_Now_def repo_sound_def)
  define t1 where "t1 = (if task_id t = [] then create_clamped t (Unix (clock w (clock_reads w)))\<lparr>task_id := new_id\<rparr>
      else create_clamped t (Unix (clock w (clock_reads w))))"
  have id: "task_id (create_clamped t (Unix (clock w (clock_reads w)))) = task_id t" by (simp add: create_clamped_def)
  show ?thesis
  proof (cases "task_id t = [] \<or> uuid_ok (task_id t)")
    case False
    then have "task_manager_Create s (mysql_ops r my) uuid_ok new_id t isTaken w = Some ((Some TmErrorUuidIsNotCorrect, t1), w1)"
      by (simp add: task_manager_Create_def n id t1_def)
    with run w1(2) show ?thesis by (auto simp: create_home_def)
  next
    case True
    let ?cb = "\<lambda>w. map_option (\<lambda>(err, w). ((err, ()), w)) (op_Create (mysql_ops r my) t1 isTaken w)"
    obtain e and x :: unit and w2 where r: "retry s ?cb [RepoErrorDeadlock] () w1 = Some ((e, x), w2)"
      using mysql_repo.retry_create [OF w1(1) tries, of t1 isTaken] by metis
    note h = retry_create_home [OF w1(1) tries r]
    have "task_manager_Create s (mysql_ops r my) uuid_ok new_id t isTaken w =
        (if e = Some RepoErrorTaskExist then
           Some ((Some TmErrorTaskExist, t1), eh_New LevelDebug (error_text RepoErrorTaskExist) w2)
         else (case e of
             Some e \<Rightarrow> Some ((Some TmErrorCreatingTasks, t1), eh_New LevelError (error_text e) w2)
           | None \<Rightarrow> Some ((None, t1), publish_or_log AllTasks 1 w2)))"
      using True r by (auto simp: task_manager_Create_def n id t1_def [symmetric])
    moreover have "database (eh_New l m w2) = database w2" for l m by (simp add: eh_New_def)
    ultimately show ?thesis using run h w1(2)
      by (cases e) (auto simp: create_home_def publish_database split: if_splits)
  qed
qed

lemma manager_create_home:
  fixes w :: "'a repo_world_scheme" and t :: task
  assumes "repo_sound r my w" "1 \<le> maxRetry s"
    and "task_manager_Create s (mysql_ops r my) uuid_ok new_id t isTaken w = Some ((None, t'), w')"
  shows "created r t' isTaken (database w) (database w')"
  using manager_create_result [OF assms] by (simp add: create_home_def)

section \<open>MySQL: deleting, searching, reading\<close>

lemma repo_Delete_home:
  assumes s: "repo_sound r my w" and d: "repo_Delete r ts w = Some ((n, err), w')"
  shows "home (database w') = home (database w) |` (- task_id ` set ts) \<or> err \<noteq> None \<and> home (database w') = home (database w)"
proof (cases err)
  case None
  show ?thesis by (rule repo_Delete_facts [OF s, of ts]) (use None d in simp)
next
  case (Some e)
  then have ts: "ts \<noteq> []" using d by (auto simp: repo_Delete_def)
  obtain q w1 where q: "exec_call (sql_delete_tasks (map task_id ts)) w = (q, w1)" by (metis surj_pair)
  with d Some ts have w': "database w' = database w1"
    by (cases q) (auto simp: repo_Delete_def bind_eq_Some_conv)
  from q show ?thesis
  proof (cases rule: exec_call_cases)
    case refused
    with w' Some undisturbed_database show ?thesis by fastforce
  next
    case unacked
    with w' sql_delete_tasks_ok(2) [OF repo_soundD(1) [OF s], of "map task_id ts"] show ?thesis by simp
  next
    case answered
    with w' sql_delete_tasks_ok(2) [OF repo_soundD(1) [OF s], of "map task_id ts"] show ?thesis by simp
  qed
qed

lemma retry_delete_home:
  fixes w :: "'a repo_world_scheme"
  assumes s: "repo_sound r my w" and tries: "1 \<le> maxRetry s"
    and run: "retry s (delete_tasks (mysql_ops r my) ts) [RepoErrorDeadlock] 0 w = Some ((err, n), w')"
  shows "home (database w') \<subseteq>\<^sub>m home (database w)"
proof -
  let ?I = "\<lambda>v :: 'a repo_world_scheme. repo_sound r my v \<and> home (database v) \<subseteq>\<^sub>m home (database w)"
  have step: "\<exists>e x v'. delete_tasks (mysql_ops r my) ts v = Some ((e, x), v') \<and>
      (if \<exists>r \<in> set [RepoErrorDeadlock]. e = Some r
       then ?I (eh_New LevelError (error_text (the e)) v') \<and> ?I (eh_New LevelError (error_text (the e)) v')
       else ?I v')"
    if I: "?I v" for v
  proof -
    obtain n e v' where d: "repo_Delete r ts v = Some ((n, e), v')" "repo_sound r my v'"
      using repo_Delete_facts [OF conjunct1 [OF I], of ts] by (metis surj_pair)
    have "home (database v') \<subseteq>\<^sub>m home (database v)"
      using repo_Delete_home [OF conjunct1 [OF I] d(1)] by (auto simp: map_le_def restrict_map_def dom_def split: if_splits)
    then have "?I v'" using d(2) I map_le_trans by blast
    moreover have "repo_sound r my (eh_New l m v') \<longleftrightarrow> repo_sound r my v'" "database (eh_New l m v') = database v'" for l m
      by (simp_all add: repo_sound_def eh_New_def)
    ultimately show ?thesis using d(1) by (auto simp: mysql_ops_def delete_tasks_def)
  qed
  have "?I w" using s by simp
  have "\<exists>e x v. retry_from s (delete_tasks (mysql_ops r my) ts) [RepoErrorDeadlock] 1 (None, 0) w = Some ((e, x), v) \<and> ?I v"
  proof (rule retry_from_rule [where I = ?I and Q = "\<lambda>e x. ?I"])
    show "?I w" by (fact \<open>?I w\<close>)
  qed (fact step, fact tries)
  with run show ?thesis unfolding retry_def by auto
qed

lemma manager_deletes_home:
  fixes w :: "'a repo_world_scheme"
  assumes "repo_sound r my w" "1 \<le> maxRetry s"
  shows "task_manager_Delete s (mysql_ops r my) tid w = Some (err, w') \<Longrightarrow> home (database w') \<subseteq>\<^sub>m home (database w)"
    "ConfirmExecution s (mysql_ops r my) ts w = Some (err, w') \<Longrightarrow> home (database w') \<subseteq>\<^sub>m home (database w)"
proof -
  have e: "database (eh_New l m v) = database v" for l m and v :: "'a repo_world_scheme" by (simp add: eh_New_def)
  have d: "home (database w1) \<subseteq>\<^sub>m home (database w)"
    if "retry s (delete_tasks (mysql_ops r my) xs) [RepoErrorDeadlock] 0 w = Some ((e, n), w1)" for xs e n w1
    using retry_delete_home [OF assms that] .
  show "home (database w') \<subseteq>\<^sub>m home (database w)" if "task_manager_Delete s (mysql_ops r my) tid w = Some (err, w')"
    using that d by (auto simp: task_manager_Delete_def bind_eq_Some_conv e publish_database split: option.splits if_splits)
  show "home (database w') \<subseteq>\<^sub>m home (database w)" if "ConfirmExecution s (mysql_ops r my) ts w = Some (err, w')"
    using that d by (auto simp: ConfirmExecution_def bind_eq_Some_conv e publish_database split: option.splits)
qed

lemma getTasksByCollection_facts:
  assumes "getTasksByCollection my i w = ((ts, err), w')"
  shows "undisturbed w w'" "err = None \<Longrightarrow> ts = sql_tasks_by_collection my i (database w)"
proof -
  obtain q w1 where q: "exec_call (\<lambda>db. (sql_tasks_by_collection my i db, db)) w = (q, w1)" by (metis surj_pair)
  note e = exec_query_cases [OF q]
  have "undisturbed w w' \<and> (err = None \<longrightarrow> ts = sql_tasks_by_collection my i (database w))"
  proof (cases q)
    case (Inl x)
    with assms e show ?thesis by (auto simp: getTasksByCollection_def q intro: undisturbed_trans)
  next
    case (Inr rows)
    obtain rd w2 where rd: "read_rows rows w1 = (rd, w2)" by (metis surj_pair)
    have u: "undisturbed w w2" using e(1) read_rows_undisturbed [OF rd] by (rule undisturbed_trans)
    have c: "undisturbed w (close_rows v)" if "undisturbed w v" for v
      using that close_rows_undisturbed by (rule undisturbed_trans)
    have l: "undisturbed w (log_error m w2)" for m using u undisturbed_log_error by (rule undisturbed_trans)
    show ?thesis
      using assms e Inr read_rows_result [OF rd] c [OF u] c [OF l]
      by (cases rd) (auto simp: getTasksByCollection_def q rd)
  qed
  then show "undisturbed w w'" "err = None \<Longrightarrow> ts = sql_tasks_by_collection my i (database w)" by simp_all
qed

lemma manager_get_home:
  fixes w :: "'a repo_world_scheme"
  assumes s: "repo_sound r my w" and tries: "1 \<le> maxRetry s"
    and run: "GetTasksToComplete s (mysql_ops r my) d w = Some ((c, err), w')"
  shows "case err of
      None \<Rightarrow> \<exists>ks t. c = Some ks \<and> ks = sql_find_collections my t (appInstanceId r) (database w) \<and>
        database w' = taken_db r ks (database w)
    | Some e \<Rightarrow> e = TmErrorCollectionsNotFound \<longrightarrow> database w' = database w"
proof -
  let ?cb = "\<lambda>w. map_option (\<lambda>((c, err), w). ((err, c), w)) (op_Find (mysql_ops r my) d w)"
  let ?I = "\<lambda>v :: 'a repo_world_scheme. database v = database w"
  let ?Q = "\<lambda>e c (v :: 'a repo_world_scheme). case e of
      None \<Rightarrow> \<exists>ks t. c = Some ks \<and> ks = sql_find_collections my t (appInstanceId r) (database w) \<and>
        database v = taken_db r ks (database w)
    | Some e \<Rightarrow> e = RepoErrorNoTasksFound \<longrightarrow> database v = database w"
  have ev: "database (eh_New l m v) = database v" for l m and v :: "'a repo_world_scheme" by (simp add: eh_New_def)
  have step: "\<exists>e x v'. ?cb v = Some ((e, x), v') \<and>
      (if \<exists>r \<in> set [RepoErrorDeadlock, RepoErrorLockWaitTimeout]. e = Some r
       then ?I (eh_New LevelError (error_text (the e)) v') \<and> ?Q e x (eh_New LevelError (error_text (the e)) v')
       else ?Q e x v')"
    if I: "?I v" for v
  proof -
    obtain res v' where f: "FindBySecToExecTime r my d v = (res, v')" by (metis surj_pair)
    obtain db' j where g: "came_to v j db' v'" "find_done r (found_by r my d v) (database v) res db'"
      using Find_facts [OF f] by metis
    have "database v' = db'" using g(1) by (simp add: came_to_def)
    with f g(2) I show ?thesis
      by (auto simp: mysql_ops_def find_done_def found_by_def ev split: prod.splits option.splits)
  qed
  have "\<exists>e x v. retry_from s ?cb [RepoErrorDeadlock, RepoErrorLockWaitTimeout] 1 (None, None) w = Some ((e, x), v) \<and> ?Q e x v"
  proof (rule retry_from_rule [where I = ?I])
    show "?I w" by simp
  qed (fact step, fact tries)
  with run show ?thesis
    by (auto simp: GetTasksToComplete_def retry_def ev split: option.splits if_splits)
qed

lemma found_not_taken:
  assumes ok: "db_ok db" and my: "documented_mysql my" and h: "home db u = Some c"
    and f: "coll_id c \<in> set (sql_find_collections my t app db)"
  shows "coll_taken c \<noteq> app"
proof -
  from f obtain d where d: "d \<in> set (due db t app)" "coll_id d = coll_id c"
    using sql_find_collections_ok(1) [OF ok my, of t app] mset_eq_setD by fastforce
  obtain i where i: "coll_map db i = Some c" using h by (auto simp: home_def split: bind_split_asm)
  have "c \<in> set (coll_rows db)" "coll_id c = i" using ok i by (simp_all add: coll_map_Some)
  moreover have "d \<in> set (coll_rows db)" using d(1) by (simp add: due_def)
  ultimately have "d = c" using d(2) coll_map_Some [OF ok] by (metis option.inject)
  with d(1) show ?thesis by (simp add: due_def)
qed

lemma read_home:
  fixes my :: mysql and i :: nat
  assumes ok: "db_ok db" and my: "documented_mysql my"
  defines "ts \<equiv> sql_tasks_by_collection my i db"
  shows "distinct (map task_id ts) \<and>
    set ts = {t. \<exists>c. home db (task_id t) = Some c \<and> exec_time t = coll_exec c \<and> coll_id c = i}"
proof (cases "i \<in> coll_id ` set (coll_rows db)")
  case True
  with read_collections_ok [OF ok my, of "[i]"] show ?thesis by (simp add: ts_def)
next
  case False
  have "tasks_of_collection db i = []"
    using False ok by (auto simp: tasks_of_collection_def db_ok_def filter_empty_conv)
  moreover have "row_order my [] = []" using my unfolding documented_mysql_def by (metis mset_zero_iff mset.simps(1))
  ultimately have "ts = []" by (simp add: ts_def sql_tasks_by_collection_def)
  moreover have "coll_id c \<noteq> i" if "home db u = Some c" for u c
  proof -
    obtain j where "coll_map db j = Some c" using \<open>home db u = Some c\<close> by (auto simp: home_def bind_eq_Some_conv)
    with ok False show ?thesis by (auto simp: coll_map_Some)
  qed
  ultimately show ?thesis by auto
qed

text \<open>The task manager over MySQL, for an instance with an id.\<close>

definition task_places :: "'a repo_world_scheme \<Rightarrow> string \<rightharpoonup> coll_row" where
  "task_places w = home (database w)"

interpretation mysql_places: placing_manager "manager_ops s (mysql_ops r my) uuid_ok"
  "\<lambda>w. repo_sound r my w \<and> 1 \<le> maxRetry s \<and> appInstanceId r \<noteq> []" stored_tasks uuid_ok
  "getTasksByCollection my" task_places "appInstanceId r"
proof (unfold_locales, goal_cases)
  case (1 w new_id t isTaken)
  then show ?case using mysql_repo.manager.create [of r my w s uuid_ok new_id t isTaken] by auto
next
  case (2 w tid)
  then show ?case using mysql_repo.manager.delete [of r my w s uuid_ok tid] by auto
next
  case (3 w d)
  then show ?case using mysql_repo.manager.get [of r my w s uuid_ok d] by auto
next
  case (4 w ts)
  then show ?case using mysql_repo.manager.confirm [of r my w s uuid_ok ts] by auto
next
  case (5 w es m k)
  then show ?case using mysql_repo.manager.env_irrelevant [of r my w s es m k] by auto
next
  case (6 w)
  show ?case by (auto simp: stored_tasks_def stored_def task_places_def)
next
  case (7 w new_id t isTaken err t' w')
  then have "create_home r t' isTaken (database w) err (database w')"
    by (intro manager_create_result [of r my w s uuid_ok new_id t]) (simp_all add: manager_ops_def)
  moreover have "dom (stored (database w)) = dom (home (database w))" by (auto simp: stored_def)
  ultimately show ?case using 7(1) by (auto simp: create_home_def created_def homed_at_def task_places_def split: if_splits)
next
  case (8 w tid err w')
  then show ?case using manager_deletes_home(1) [of r my w s tid err w'] by (simp add: manager_ops_def task_places_def)
next
  case (9 w ts err w')
  then show ?case using manager_deletes_home(2) [of r my w s ts err w'] by (simp add: manager_ops_def task_places_def)
next
  case (10 w d c err w')
  then have s: "db_ok (database w)" "documented_mysql my" by (auto simp: repo_sound_def)
  from 10 have "case err of
      None \<Rightarrow> \<exists>ks t. c = Some ks \<and> ks = sql_find_collections my t (appInstanceId r) (database w) \<and>
        database w' = taken_db r ks (database w)
    | Some e \<Rightarrow> e = TmErrorCollectionsNotFound \<longrightarrow> database w' = database w"
    by (intro manager_get_home [of r my w s d]) (simp_all add: manager_ops_def)
  then show ?case
    using sql_find_collections_ok(2) [OF s] sql_take_collections_ok(2) [OF s(1)] found_not_taken [OF s]
    by (auto simp: task_places_def taken_db_def split: option.splits)
next
  case (11 w i ts err w')
  then have s: "db_ok (database w)" "documented_mysql my" by (auto simp: repo_sound_def)
  note f = getTasksByCollection_facts [OF 11(2)]
  have "repo_sound r my w'"
    using 11(1) s(1) steadyD(2) [OF undisturbed_steady [OF f(1)]] undisturbed_database [OF f(1)] by (auto simp: repo_sound_def)
  then show ?case using 11(1) f(2) undisturbed_database [OF f(1)] read_home [OF s, of i] by (simp add: task_places_def)
next
  case (12 w es m k)
  show ?case by (simp add: task_places_def)
qed

end
