(* ===== verification/Preloader_Service.thy ===== *)
theory Preloader_Service
  imports Task_Places
begin

text \<open>
  \<open>preloader_service/preloader_service.go\<close>, over any task manager and any source of collections. The
  channel \<open>preloadedTask\<close> is seen from its sending side: an operation lists the tasks it sends, in order;
  that a send may have to wait for the receiver is part of the interleavings of \<open>bunch_step\<close>.
\<close>

section \<open>State and construction\<close>

record preloadingService =
  timePreload :: duration
  coefTimePreloadOfNewTask :: int
  taskNumberInOneSearch :: int
  workersCount :: int
  ctxTimeout :: duration

record preloader_options =
  opt_TimePreload :: duration
  opt_CoefTimePreloadOfNewTask :: int
  opt_TaskNumberInOneSearch :: int
  opt_WorkersCount :: int
  opt_CtxTimeout :: duration
  opt_PreloadedTaskCap :: int

definition documented_preloader_merge ::
    "(preloader_options \<Rightarrow> preloader_options \<Rightarrow> preloader_options option) \<Rightarrow> bool" where
  "documented_preloader_merge merge \<longleftrightarrow> (\<forall>d s. merge d s = Some
     \<lparr>opt_TimePreload = fill_zero (opt_TimePreload d) (opt_TimePreload s),
      opt_CoefTimePreloadOfNewTask = fill_zero (opt_CoefTimePreloadOfNewTask d) (opt_CoefTimePreloadOfNewTask s),
      opt_TaskNumberInOneSearch = fill_zero (opt_TaskNumberInOneSearch d) (opt_TaskNumberInOneSearch s),
      opt_WorkersCount = fill_zero (opt_WorkersCount d) (opt_WorkersCount s),
      opt_CtxTimeout = fill_zero (opt_CtxTimeout d) (opt_CtxTimeout s),
      opt_PreloadedTaskCap = fill_zero (opt_PreloadedTaskCap d) (opt_PreloadedTaskCap s)\<rparr>)"

definition preloader_defaults :: preloader_options where
  "preloader_defaults = \<lparr>opt_TimePreload = 5 * second, opt_CoefTimePreloadOfNewTask = 2,
     opt_TaskNumberInOneSearch = 1000, opt_WorkersCount = 10, opt_CtxTimeout = 5 * second, opt_PreloadedTaskCap = 0\<rparr>"

definition preloader_New ::
    "(preloader_options \<Rightarrow> preloader_options \<Rightarrow> preloader_options option) \<Rightarrow> preloader_options option \<Rightarrow>
     'a world_scheme \<Rightarrow> (preloadingService \<times> 'a world_scheme) option" where
  "preloader_New merge options w = do {
     let options = (case options of
         None \<Rightarrow> \<lparr>opt_TimePreload = 0, opt_CoefTimePreloadOfNewTask = 0, opt_TaskNumberInOneSearch = 0,
           opt_WorkersCount = 0, opt_CtxTimeout = 0, opt_PreloadedTaskCap = 0\<rparr>
       | Some opts \<Rightarrow> opts);
     options \<leftarrow> merge options preloader_defaults;
     w \<leftarrow> init_or_panic CreatingRate VelocityMetricType w;
     w \<leftarrow> init_or_panic PreloadingRate VelocityMetricType w;
     Some (\<lparr>timePreload = opt_TimePreload options,
       coefTimePreloadOfNewTask = opt_CoefTimePreloadOfNewTask options,
       taskNumberInOneSearch = opt_TaskNumberInOneSearch options,
       workersCount = opt_WorkersCount options,
       ctxTimeout = opt_CtxTimeout options\<rparr>, w)
   }"

section \<open>AddNewTask\<close>

definition is_taken_at :: "preloadingService \<Rightarrow> unix_time \<Rightarrow> task \<Rightarrow> bool" where
  "is_taken_at s now t =
     (let relativeTimeToExec = wrap64 (wrap64 (exec_time t - now) * second)
      in wrap64 (timePreload s * coefTimePreloadOfNewTask s) > relativeTimeToExec)"

text \<open>The result: the error, the task behind the pointer, and the tasks sent on the channel.\<close>

definition AddNewTask ::
    "preloadingService \<Rightarrow> 'a world_scheme task_manager_ops \<Rightarrow> string \<Rightarrow> task \<Rightarrow> 'a world_scheme \<Rightarrow>
     ((go_error option \<times> task \<times> task list) \<times> 'a world_scheme) option" where
  "AddNewTask s TM new_id t w = do {
     let (now, w) = time_Now w;
     let isTaken = is_taken_at s (Unix now) t;
     ((err, t), w) \<leftarrow> tm_Create TM new_id t isTaken w;
     (case err of
        Some e \<Rightarrow> Some ((Some e, t, []), w)
      | None \<Rightarrow> Some ((None, t, if isTaken then [t] else []), publish_or_log CreatingRate 1 w))
   }"

section \<open>Run\<close>

text \<open>
  One pass of the loop of \<open>Run\<close> up to the start of the workers: it sleeps (for the given time) and
  goes on, or returns, or works off a result of the task manager.
\<close>

datatype preloader_pass = PassSleeps duration | PassReturns | PassWorks "nat list option"

definition preloader_Run_pass ::
    "preloadingService \<Rightarrow> 'a world_scheme task_manager_ops \<Rightarrow> 'a world_scheme \<Rightarrow>
     (preloader_pass \<times> 'a world_scheme) option" where
  "preloader_Run_pass s TM w = do {
     ((result, err), w) \<leftarrow> tm_Get TM (timePreload s) w;
     (case err of
        Some e \<Rightarrow>
          if e = TmErrorCollectionsNotFound then
            Some (PassSleeps (timePreload s),
              eh_New LevelDebug ''I go to sleep because I don't get any tasks'' w)
          else Some (PassReturns, eh_New LevelFatal ''preloader cannot get bunches of tasks'' w)
      | None \<Rightarrow> Some (PassWorks result, w))
   }"

text \<open>
  The workers of a pass, each running \<open>getBunchOfTask\<close>. \<open>remaining\<close> is the shared list of collection
  ids, \<open>sent\<close> what has been sent on the channel, \<open>lost\<close> the ids whose tasks could not be read. A worker
  asks for the next id (under the mutex of \<open>Collections\<close>), reads its tasks, sends them one by one,
  and asks again; it ends when there is no id left, or when reading fails.
\<close>

datatype worker_pc = Asking | Fetching nat | Delivering "task list" | Ended

record 'w bunch =
  bunch_world :: 'w
  remaining :: "nat list"
  worker :: "nat \<Rightarrow> worker_pc"
  sent :: "task list"
  lost :: "nat list"

inductive bunch_step ::
    "(nat \<Rightarrow> 'a world_scheme \<Rightarrow> (task list \<times> go_error option) \<times> 'a world_scheme) \<Rightarrow>
     'a world_scheme bunch \<Rightarrow> 'a world_scheme bunch \<Rightarrow> bool" for read where
  take_id: "worker b k = Asking \<Longrightarrow> remaining b = i # rest \<Longrightarrow>
    bunch_step read b (b\<lparr>remaining := rest, worker := (worker b)(k := Fetching i)\<rparr>)"
| no_id: "worker b k = Asking \<Longrightarrow> remaining b = [] \<Longrightarrow>
    bunch_step read b (b\<lparr>bunch_world := eh_New LevelDebug ''end'' (bunch_world b),
      worker := (worker b)(k := Ended)\<rparr>)"
| fetched: "worker b k = Fetching i \<Longrightarrow> read i (bunch_world b) = ((tasks, None), w) \<Longrightarrow>
    bunch_step read b (b\<lparr>bunch_world := publish_or_log PreloadingRate (int (length tasks))
        (eh_New LevelDebug ''preloaded tasks'' w),
      worker := (worker b)(k := Delivering tasks)\<rparr>)"
| not_fetched: "worker b k = Fetching i \<Longrightarrow> read i (bunch_world b) = ((tasks, Some err), w) \<Longrightarrow>
    bunch_step read b (b\<lparr>bunch_world := eh_New LevelFatal ''cannot get tasks for doing'' w,
      worker := (worker b)(k := Ended), lost := i # lost b\<rparr>)"
| send_task: "worker b k = Delivering (t # ts) \<Longrightarrow>
    bunch_step read b (b\<lparr>worker := (worker b)(k := Delivering ts), sent := sent b @ [t]\<rparr>)"
| all_sent: "worker b k = Delivering [] \<Longrightarrow>
    bunch_step read b (b\<lparr>worker := (worker b)(k := Asking)\<rparr>)"

definition bunch_start :: "int \<Rightarrow> nat list \<Rightarrow> 'w \<Rightarrow> 'w bunch" where
  "bunch_start workers c w = \<lparr>bunch_world = w, remaining = c,
     worker = (\<lambda>k. if int k < workers then Asking else Ended), sent = [], lost = []\<rparr>"

text \<open>\<open>wg.Wait()\<close> returns when every worker has ended.\<close>

definition bunch_over :: "'w bunch \<Rightarrow> bool" where
  "bunch_over b \<longleftrightarrow> (\<forall>k. worker b k = Ended)"

abbreviation bunch_steps where
  "bunch_steps read \<equiv> (bunch_step read)\<^sup>*\<^sup>*"

section \<open>The workers\<close>

text \<open>The contract of a source of collections: what it reads is the content, and reading changes none.\<close>

locale collection_reader =
  fixes read :: "nat \<Rightarrow> 'a world_scheme \<Rightarrow> (task list \<times> go_error option) \<times> 'a world_scheme"
    and contents :: "'a world_scheme \<Rightarrow> nat \<Rightarrow> task multiset"
  assumes read_contents: "read i w = ((ts, None), w') \<Longrightarrow> mset ts = contents w i"
    and read_keeps: "read i w = (res, w') \<Longrightarrow> contents w' = contents w"
    and log_keeps: "contents (eh_New l m w) = contents w"
    and publish_keeps: "contents (publish_or_log topic v w) = contents w"

fun held :: "(nat \<Rightarrow> task multiset) \<Rightarrow> worker_pc \<Rightarrow> task multiset" where
  "held C (Fetching i) = C i"
| "held C (Delivering ts) = mset ts"
| "held C _ = {#}"

fun work_left :: "(nat \<Rightarrow> task multiset) \<Rightarrow> worker_pc \<Rightarrow> nat" where
  "work_left C Asking = 1"
| "work_left C (Fetching i) = size (C i) + 3"
| "work_left C (Delivering ts) = length ts + 2"
| "work_left C Ended = 0"

text \<open>Everything a bunch of \<open>n\<close> workers has or has had, and how many steps are left at most.\<close>

definition accounted :: "nat \<Rightarrow> (nat \<Rightarrow> task multiset) \<Rightarrow> 'w bunch \<Rightarrow> task multiset" where
  "accounted n C b = mset (sent b) + (\<Sum>k<n. held C (worker b k)) +
     (\<Sum>i\<leftarrow>remaining b. C i) + (\<Sum>i\<leftarrow>lost b. C i)"

definition steps_left :: "nat \<Rightarrow> (nat \<Rightarrow> task multiset) \<Rightarrow> 'w bunch \<Rightarrow> nat" where
  "steps_left n C b = (\<Sum>k<n. work_left C (worker b k)) + (\<Sum>i\<leftarrow>remaining b. size (C i) + 3)"

text \<open>\<open>well_run\<close>: only the \<open>n\<close> workers run, and they end early only when ids are lost.\<close>

definition well_run :: "nat \<Rightarrow> 'w bunch \<Rightarrow> bool" where
  "well_run n b \<longleftrightarrow> (\<forall>k. n \<le> k \<longrightarrow> worker b k = Ended) \<and>
     (remaining b = [] \<or> lost b \<noteq> [] \<or> (\<forall>k<n. worker b k \<noteq> Ended))"

lemma running_below: "well_run n b \<Longrightarrow> worker b k \<noteq> Ended \<Longrightarrow> k < n"
  by (meson leI well_run_def)

context collection_reader
begin

lemma step_keeps:
  assumes "bunch_step read b b'" "well_run n b"
  shows "contents (bunch_world b') = contents (bunch_world b)" "well_run n b'"
    "accounted n (contents (bunch_world b)) b' = accounted n (contents (bunch_world b)) b"
    "Suc (steps_left n (contents (bunch_world b)) b') \<le> steps_left n (contents (bunch_world b)) b"
proof -
  let ?C = "contents (bunch_world b)"
  note upd = sum_fun_upd [where f = "held ?C" and g = "worker b"] sum_fun_upd [where f = "work_left ?C" and g = "worker b"]
  have "contents (bunch_world b') = ?C \<and> well_run n b' \<and> accounted n ?C b' = accounted n ?C b \<and>
    Suc (steps_left n ?C b') \<le> steps_left n ?C b"
    using assms(1)
  proof cases
    case (take_id k i rest)
    then have k: "k < n" using assms(2) by (simp add: running_below)
    from take_id assms(2) upd(1) [OF k, of "Fetching i"] upd(2) [OF k, of "Fetching i"] show ?thesis
      by (auto simp: well_run_def accounted_def steps_left_def ac_simps)
  next
    case (no_id k)
    then have k: "k < n" using assms(2) by (simp add: running_below)
    from no_id assms(2) upd(1) [OF k, of Ended] upd(2) [OF k, of Ended] show ?thesis
      by (auto simp: well_run_def accounted_def steps_left_def log_keeps)
  next
    case (fetched k i tasks w)
    then have k: "k < n" using assms(2) by (simp add: running_below)
    have "mset tasks = ?C i" using fetched by (simp add: read_contents)
    moreover from this have "length tasks = size (?C i)" by (metis size_mset)
    moreover have "contents w = ?C" using fetched by (simp add: read_keeps)
    ultimately show ?thesis
      using fetched assms(2) upd(1) [OF k, of "Delivering tasks"] upd(2) [OF k, of "Delivering tasks"]
      by (auto simp: well_run_def accounted_def steps_left_def log_keeps publish_keeps)
  next
    case (not_fetched k i tasks err w)
    then have k: "k < n" using assms(2) by (simp add: running_below)
    have "contents w = ?C" using not_fetched by (simp add: read_keeps)
    with not_fetched assms(2) upd(1) [OF k, of Ended] upd(2) [OF k, of Ended] show ?thesis
      by (auto simp: well_run_def accounted_def steps_left_def log_keeps ac_simps)
  next
    case (send_task k t ts)
    then have k: "k < n" using assms(2) by (simp add: running_below)
    from send_task assms(2) upd(1) [OF k, of "Delivering ts"] upd(2) [OF k, of "Delivering ts"] show ?thesis
      by (auto simp: well_run_def accounted_def steps_left_def)
  next
    case (all_sent k)
    then have k: "k < n" using assms(2) by (simp add: running_below)
    from all_sent assms(2) upd(1) [OF k, of Asking] upd(2) [OF k, of Asking] show ?thesis
      by (auto simp: well_run_def accounted_def steps_left_def)
  qed
  then show "contents (bunch_world b') = ?C" "well_run n b'" "accounted n ?C b' = accounted n ?C b"
    "Suc (steps_left n ?C b') \<le> steps_left n ?C b" by simp_all
qed

lemma runs_keep:
  assumes "(bunch_step read ^^ m) b b'" "well_run n b"
  shows "contents (bunch_world b') = contents (bunch_world b) \<and> well_run n b' \<and>
    accounted n (contents (bunch_world b)) b' = accounted n (contents (bunch_world b)) b \<and>
    m + steps_left n (contents (bunch_world b)) b' \<le> steps_left n (contents (bunch_world b)) b"
  using assms(1)
proof (induction m arbitrary: b')
  case 0
  with assms(2) show ?case by simp
next
  case (Suc m)
  then obtain b1 where b1: "(bunch_step read ^^ m) b b1" "bunch_step read b1 b'" by auto
  note IH = Suc.IH [OF b1(1)]
  with step_keeps [OF b1(2), of n] show ?case by simp
qed

text \<open>Some worker can always go on until all have ended.\<close>

lemma progress: "\<not> bunch_over b \<Longrightarrow> \<exists>b'. bunch_step read b b'"
proof -
  assume "\<not> bunch_over b"
  then obtain k where k: "worker b k \<noteq> Ended" by (auto simp: bunch_over_def)
  show ?thesis
  proof (cases "worker b k")
    case Asking
    then show ?thesis by (cases "remaining b") (blast intro: bunch_step.no_id bunch_step.take_id)+
  next
    case (Fetching i)
    obtain ts err w where "read i (bunch_world b) = ((ts, err), w)" by (metis surj_pair)
    with Fetching show ?thesis by (cases err) (blast intro: bunch_step.fetched bunch_step.not_fetched)+
  next
    case (Delivering ts)
    then show ?thesis by (cases ts) (blast intro: bunch_step.all_sent bunch_step.send_task)+
  next
    case Ended
    with k show ?thesis by simp
  qed
qed

end

context collection_reader
begin

text \<open>So every bunch can be brought to its end.\<close>

lemma bunch_ends: "well_run n b \<Longrightarrow> \<exists>b'. (bunch_step read)\<^sup>*\<^sup>* b b' \<and> bunch_over b'"
proof (induction "steps_left n (contents (bunch_world b)) b" arbitrary: b rule: less_induct)
  case less
  show ?case
  proof (cases "bunch_over b")
    case False
    then obtain b1 where b1: "bunch_step read b b1" using progress by blast
    note k = step_keeps [OF b1 less.prems]
    have "steps_left n (contents (bunch_world b1)) b1 < steps_left n (contents (bunch_world b)) b" using k(1,4) by simp
    then obtain b' where "(bunch_step read)\<^sup>*\<^sup>* b1 b'" "bunch_over b'" using less.hyps k(2) by blast
    with b1 show ?thesis by (meson converse_rtranclp_into_rtranclp)
  qed auto
qed

end

text \<open>The collections of the database are such a source.\<close>

definition collection_contents :: "mysql \<Rightarrow> 'a repo_world_scheme \<Rightarrow> nat \<Rightarrow> task multiset" where
  "collection_contents my w i = mset (sql_tasks_by_collection my i (database w))"

interpretation mysql_reader: collection_reader "getTasksByCollection my" "collection_contents my"
proof
  fix w w' :: "'a repo_world_scheme" and i ts res l m topic v
  show "mset ts = collection_contents my w i" if "getTasksByCollection my i w = ((ts, None), w')"
    using getTasksByCollection_facts(2) [OF that] by (simp add: collection_contents_def)
  show "collection_contents my w' = collection_contents my w" if "getTasksByCollection my i w = (res, w')"
  proof -
    obtain ts err where "res = (ts, err)" by (metis surj_pair)
    with that have "undisturbed w w'" using getTasksByCollection_facts(1) by blast
    then show ?thesis using undisturbed_database by (fastforce simp: collection_contents_def fun_eq_iff)
  qed
  show "collection_contents my (eh_New l m w) = collection_contents my w"
    by (simp add: collection_contents_def fun_eq_iff eh_New_def)
  show "collection_contents my (publish_or_log topic v w) = collection_contents my w"
    by (simp add: collection_contents_def fun_eq_iff publish_database)
qed

lemma bunch_start_facts:
  fixes C :: "nat \<Rightarrow> task multiset" and workers :: int
  defines "n \<equiv> nat workers"
  shows "well_run n (bunch_start workers ks w)"
    "accounted n C (bunch_start workers ks w) = (\<Sum>i\<leftarrow>ks. C i)"
    "steps_left n C (bunch_start workers ks w) = n + (\<Sum>i\<leftarrow>ks. size (C i) + 3)"
proof -
  have pc: "worker (bunch_start workers ks w) k = (if k < n then Asking else Ended)" for k
    by (simp add: bunch_start_def n_def zless_nat_conj [symmetric] zless_nat_eq_int_zless)
  then show "well_run n (bunch_start workers ks w)" by (simp add: well_run_def)
  show "accounted n C (bunch_start workers ks w) = (\<Sum>i\<leftarrow>ks. C i)"
    by (simp add: accounted_def pc) (simp add: bunch_start_def)
  show "steps_left n C (bunch_start workers ks w) = n + (\<Sum>i\<leftarrow>ks. size (C i) + 3)"
    by (simp add: steps_left_def pc) (simp add: bunch_start_def)
qed

lemma bunch_over_accounted:
  assumes "bunch_over b" "well_run n b" "lost b = []" "0 < n"
  shows "accounted n C b = mset (sent b)"
proof -
  have "remaining b = []" using assms by (auto simp: well_run_def bunch_over_def)
  with assms show ?thesis by (simp add: accounted_def bunch_over_def)
qed

text \<open>Without failures nothing is lost.\<close>

lemma quiet_bunch:
  assumes "bunch_steps (getTasksByCollection my) b b'" "outcomes (bunch_world b) = []" "lost b = []"
  shows "outcomes (bunch_world b') = [] \<and> lost b' = []"
  using assms(1)
proof induction
  case base
  with assms(2,3) show ?case by simp
next
  case (step b1 b2)
  then have q: "outcomes (bunch_world b1) = []" "lost b1 = []" by simp_all
  have pub: "outcomes (publish_or_log t v w) = outcomes (w :: 'a repo_world_scheme)" for t v w
  proof -
    obtain es mo where "publish_or_log t v w = w\<lparr>events := es, monitor := mo, clock_reads := clock_reads w\<rparr>"
      using publish_or_log_world [of t v w] by blast
    then show ?thesis by simp
  qed
  have rd: "getTasksByCollection my i (bunch_world b1) =
      ((sql_tasks_by_collection my i (database (bunch_world b1)), None), bunch_world b1)" for i
    using q(1) by (simp add: getTasksByCollection_def quiet_calls)
  from step(2) show ?case
    by cases (use q in \<open>simp_all add: rd pub, simp_all add: eh_New_def pub\<close>)
qed

section \<open>Properties\<close>

definition sample_preloader :: preloadingService where
  "sample_preloader = \<lparr>timePreload = 5 * second, coefTimePreloadOfNewTask = 2, taskNumberInOneSearch = 1000,
     workersCount = 10, ctxTimeout = 5 * second\<rparr>"

text \<open>
  C13: A task created without an error is stored, and is sent to the waiting service at once exactly
  when it is stored in a collection of the instance, which no search of the instance returns: it is
  neither forgotten nor loaded a second time. A task that is not created is not sent.
\<close>

theorem AddNewTask_sends_or_leaves_to_search:
  assumes "repo_sound r my w" "1 \<le> maxRetry s" "appInstanceId r \<noteq> ''''"
    "AddNewTask p (manager_ops s (mysql_ops r my) uuid_ok) new_id t w = Some ((err, t', sends), w')"
  shows "(err = None \<longrightarrow> stored_tasks w' = (stored_tasks w)(task_id t' \<mapsto> exec_time t') \<and>
      (sends = [t'] \<and> owner (database w') (task_id t') = Some (appInstanceId r) \<or>
       sends = [] \<and> owner (database w') (task_id t') \<noteq> Some (appInstanceId r))) \<and>
    (err \<noteq> None \<longrightarrow> sends = [])"
proof -
  define isTaken where "isTaken = is_taken_at p (Unix (clock w (clock_reads w))) t"
  define w1 where "w1 = w\<lparr>clock_reads := Suc (clock_reads w)\<rparr>"
  have n: "time_Now w = (clock w (clock_reads w), w1)" by (simp add: time_Now_def w1_def)
  have w1: "repo_sound r my w1" "database w1 = database w" using assms(1) by (simp_all add: repo_sound_def w1_def)
  obtain e t1 w2 where c: "task_manager_Create s (mysql_ops r my) uuid_ok new_id t isTaken w1 = Some ((e, t1), w2)"
    using mysql_repo.manager_create [OF w1(1) assms(2), of uuid_ok new_id t isTaken] by blast
  have r: "(err, t', sends) = (case e of Some x \<Rightarrow> (Some x, t1, []) | None \<Rightarrow> (None, t1, if isTaken then [t1] else []))"
    "w' = (case e of Some x \<Rightarrow> w2 | None \<Rightarrow> publish_or_log CreatingRate 1 w2)"
    using assms(4) unfolding AddNewTask_def n Let_def prod.case isTaken_def [symmetric]
    by (auto simp: c manager_ops_def split: option.splits)
  show ?thesis
  proof (cases e)
    case (Some x)
    with r show ?thesis by simp
  next
    case None
    with c have c': "created r t1 isTaken (database w) (database w2)"
      using manager_create_home [OF w1(1) assms(2)] w1(2) by simp
    then obtain h where h: "homed_at h (exec_time t1) isTaken (appInstanceId r)"
      "home (database w2) = (home (database w))(task_id t1 \<mapsto> h)" by (auto simp: created_def)
    have "owner (database w2) (task_id t1) = Some (coll_taken h)" by (simp add: owner_def h(2))
    then have "owner (database w2) (task_id t1) = Some (appInstanceId r) \<longleftrightarrow> isTaken"
      using h(1) assms(3) by (auto simp: homed_at_def split: if_splits)
    moreover have "stored_tasks w2 = (stored_tasks w)(task_id t1 \<mapsto> exec_time t1)"
      using created_stored [OF c'] by (simp add: stored_tasks_def)
    moreover have "database w' = database w2" using r(2) None by (simp add: publish_database)
    ultimately show ?thesis using r None by (auto simp: stored_tasks_def)
  qed
qed

text \<open>
  With a coefficient of more than one, a task that is not taken at its creation cannot be missed
  by a search that runs at the same time: for \<open>(coefficient - 1) * TimePreload\<close> after the (rounded
  down) creation time, no search reaches its execution time, so its collection is not being loaded.
  The times must not overflow 64-bit nanoseconds.
\<close>

theorem not_taken_is_beyond_searches:
  assumes "\<not> is_taken_at p (Unix now) t"
    and "in_int64 (exec_time t - Unix now)" "in_int64 ((exec_time t - Unix now) * second)"
      "in_int64 (timePreload p * coefTimePreloadOfNewTask p)"
    and "now' < Unix now * second + (coefTimePreloadOfNewTask p - 1) * timePreload p"
  shows "Unix (now' + timePreload p) < exec_time t"
proof -
  have "timePreload p * coefTimePreloadOfNewTask p \<le> (exec_time t - Unix now) * second"
    using assms(1-4) by (simp add: is_taken_at_def wrap64_id)
  then have "now' + timePreload p < exec_time t * second"
    using assms(5) by (simp add: algebra_simps)
  then show ?thesis unfolding Unix_def second_def by (simp add: div_less_iff_less_mult)
qed

theorem not_taken_is_beyond_searches_witness:
  "Unix (104 * second + timePreload sample_preloader) < 111"
proof -
  let ?t = "\<lparr>task_id = ''a'', exec_time = 111\<rparr>"
  have u: "Unix (101 * second) = 101" "Unix 101000000000 = 101" by (simp_all add: Unix_def second_def)
  have "\<not> is_taken_at sample_preloader (Unix (101 * second)) ?t"
    by (simp add: u is_taken_at_def sample_preloader_def preloader_defaults_def second_def wrap64_def)
  from not_taken_is_beyond_searches [OF this, of "104 * second"] show ?thesis
    by (simp add: u sample_preloader_def preloader_defaults_def second_def in_int64_def)
qed

lemma sample_adding:
  "\<exists>w'. AddNewTask sample_preloader (manager_ops sample_manager (mysql_ops sample_repository example_mysql) (\<lambda>_. True))
      ''n'' \<lparr>task_id = '''', exec_time = 7\<rparr> (counted_world []) =
      Some ((None, \<lparr>task_id = ''n'', exec_time = 100\<rparr>, [\<lparr>task_id = ''n'', exec_time = 100\<rparr>]), w')"
proof -
  let ?p = sample_preloader and ?r = sample_repository and ?my = example_mysql
  let ?TM = "manager_ops sample_manager (mysql_ops ?r ?my) (\<lambda>_. True)"
  let ?t = "\<lparr>task_id = '''', exec_time = 7\<rparr>"
  let ?w = "(counted_world [])\<lparr>clock_reads := Suc 0\<rparr>"
  have tk: "is_taken_at ?p (Unix (100 * second)) ?t"
    by (simp add: is_taken_at_def sample_preloader_def preloader_defaults_def wrap64_def Unix_def second_def)
  have n: "time_Now (counted_world []) = (100 * second, ?w)"
    by (simp add: time_Now_def counted_world_def sample_world_def)
  have "map_option fst (task_manager_Create sample_manager (mysql_ops ?r ?my) (\<lambda>_. True) ''n'' ?t True ?w) =
      Some (None, \<lparr>task_id = ''n'', exec_time = 100\<rparr>)"
    by (simp add: task_manager_Create_def retry_def retry_from.simps sample_manager_def mysql_ops_def repo_Create_def
      call_create_task_def counted_world_def sample_world_def sample_repository_def sample_database_def next_outcome_def
      time_Now_def create_clamped_def Unix_def second_def
      sql_create_task_def find_or_insert_collection_def collections_with_room_def insert_collection_def insert_task_def
      publish_or_log_def mon_Publish_def monitoring_Publish_def AllTasks_def)
  then obtain w1 where c: "task_manager_Create sample_manager (mysql_ops ?r ?my) (\<lambda>_. True) ''n'' ?t True ?w =
      Some ((None, \<lparr>task_id = ''n'', exec_time = 100\<rparr>), w1)" by auto
  have "map_option fst (AddNewTask ?p ?TM ''n'' ?t (counted_world [])) =
      Some (None, \<lparr>task_id = ''n'', exec_time = 100\<rparr>, [\<lparr>task_id = ''n'', exec_time = 100\<rparr>])"
    unfolding AddNewTask_def n Let_def prod.case by (simp add: tk manager_ops_def c)
  then show ?thesis by auto
qed

theorem AddNewTask_sends_or_leaves_to_search_witness:
  "\<exists>w'. AddNewTask sample_preloader (manager_ops sample_manager (mysql_ops sample_repository example_mysql) (\<lambda>_. True))
      ''n'' \<lparr>task_id = '''', exec_time = 7\<rparr> (counted_world []) =
      Some ((None, \<lparr>task_id = ''n'', exec_time = 100\<rparr>, [\<lparr>task_id = ''n'', exec_time = 100\<rparr>]), w') \<and>
     owner (database w') ''n'' = Some ''me''"
proof -
  have s: "repo_sound sample_repository example_mysql (counted_world [])" by simp
  have me: "appInstanceId sample_repository \<noteq> ''''" by (simp add: sample_repository_def)
  obtain w' where run: "AddNewTask sample_preloader (manager_ops sample_manager (mysql_ops sample_repository example_mysql) (\<lambda>_. True))
      ''n'' \<lparr>task_id = '''', exec_time = 7\<rparr> (counted_world []) =
      Some ((None, \<lparr>task_id = ''n'', exec_time = 100\<rparr>, [\<lparr>task_id = ''n'', exec_time = 100\<rparr>]), w')"
    using sample_adding by blast
  from AddNewTask_sends_or_leaves_to_search [OF s sample_tries me run] run show ?thesis
    by (simp add: sample_repository_def)
qed

text \<open>
  Whatever the interleaving of the workers, none of the tasks of the found collections is sent
  twice and nothing else is sent; when all workers have ended, at least one worker was started and no
  collection could not be read, then every one of them has been sent.
\<close>

theorem workers_send_each_task_once:
  assumes "bunch_steps (getTasksByCollection my) (bunch_start workers ks w) b"
  shows "mset (sent b) \<subseteq># (\<Sum>i\<leftarrow>ks. mset (sql_tasks_by_collection my i (database w))) \<and>
    (bunch_over b \<and> lost b = [] \<and> 1 \<le> workers \<longrightarrow>
       mset (sent b) = (\<Sum>i\<leftarrow>ks. mset (sql_tasks_by_collection my i (database w))))"
proof -
  let ?b0 = "bunch_start workers ks w" and ?n = "nat workers"
  let ?C = "collection_contents my w"
  have w0: "bunch_world ?b0 = w" by (simp add: bunch_start_def)
  obtain m where "(bunch_step (getTasksByCollection my) ^^ m) ?b0 b" using assms rtranclp_imp_relpowp by metis
  from mysql_reader.runs_keep [OF this bunch_start_facts(1)]
  have b: "well_run ?n b" "accounted ?n ?C b = (\<Sum>i\<leftarrow>ks. ?C i)"
    unfolding w0 by (simp_all add: bunch_start_facts(2))
  have "mset (sent b) \<subseteq># accounted ?n ?C b" by (simp add: accounted_def add.assoc)
  moreover have "mset (sent b) = accounted ?n ?C b" if "bunch_over b \<and> lost b = [] \<and> 1 \<le> workers"
    using bunch_over_accounted [of b ?n ?C] b(1) that by simp
  moreover have "(\<Sum>i\<leftarrow>ks. ?C i) = (\<Sum>i\<leftarrow>ks. mset (sql_tasks_by_collection my i (database w)))"
    by (simp add: collection_contents_def)
  ultimately show ?thesis using b(2) by simp
qed

text \<open>
  C32: The workers come to an end: however their steps interleave, a bunch takes no more steps than
  one per worker, one per task and three per collection, and while it is not over some worker can go
  on (a worker whose send waits goes on when the receiver takes the task).
\<close>

theorem workers_come_to_an_end:
  assumes "(bunch_step (getTasksByCollection my) ^^ m) (bunch_start workers ks w) b"
  shows "m \<le> nat workers + (\<Sum>i\<leftarrow>ks. length (sql_tasks_by_collection my i (database w)) + 3) \<and>
    (bunch_over b \<or> (\<exists>b'. bunch_step (getTasksByCollection my) b b'))"
proof -
  have "m \<le> nat workers + (\<Sum>i\<leftarrow>ks. size (collection_contents my w i) + 3)"
    using mysql_reader.runs_keep [OF assms bunch_start_facts(1)]
    by (simp add: bunch_start_facts(3)) (simp add: bunch_start_def)
  then show ?thesis using mysql_reader.progress [of b] by (auto simp: collection_contents_def)
qed

text \<open>
  With a \<open>WorkersCount\<close> below one, which the options do not exclude when it is negative, the tasks
  of the collections just taken from the database are never sent: no worker runs and \<open>Run\<close> goes on.
\<close>

theorem no_workers_send_nothing:
  assumes "workers < 1" "bunch_steps read (bunch_start workers ks w) b"
  shows "b = bunch_start workers ks w \<and> sent b = [] \<and> bunch_over b"
proof -
  have over: "bunch_over (bunch_start workers ks w)" using assms(1) by (simp add: bunch_over_def bunch_start_def)
  have stuck: "\<not> bunch_step read (bunch_start workers ks w) b'" for b'
    using over by (auto elim!: bunch_step.cases simp: bunch_over_def)
  from assms(2) have "b = bunch_start workers ks w"
    by (cases rule: converse_rtranclpE) (use stuck in auto)
  with over show ?thesis by (simp add: bunch_start_def)
qed

section \<open>Witnesses\<close>

lemma sample_bunch:
  obtains b where "bunch_steps (getTasksByCollection example_mysql) (bunch_start 1 [1] (sample_world [])) b"
    "(bunch_step (getTasksByCollection example_mysql) ^^ 5) (bunch_start 1 [1] (sample_world [])) b"
    "sent b = [\<lparr>task_id = ''a'', exec_time = 50\<rparr>]" "bunch_over b" "lost b = []"
proof -
  let ?t = "\<lparr>task_id = ''a'', exec_time = 50\<rparr>"
  let ?rd = "getTasksByCollection example_mysql :: nat \<Rightarrow> repo_world \<Rightarrow> _"
  let ?b0 = "bunch_start 1 [1] (sample_world [])"
  let ?b1 = "?b0\<lparr>remaining := [], worker := (worker ?b0)(0 := Fetching 1)\<rparr>"
  let ?b2 = "?b1\<lparr>bunch_world := publish_or_log PreloadingRate (int (length [?t]))
      (eh_New LevelDebug ''preloaded tasks'' (sample_world [])), worker := (worker ?b1)(0 := Delivering [?t])\<rparr>"
  let ?b3 = "?b2\<lparr>worker := (worker ?b2)(0 := Delivering []), sent := sent ?b2 @ [?t]\<rparr>"
  let ?b4 = "?b3\<lparr>worker := (worker ?b3)(0 := Asking)\<rparr>"
  let ?b5 = "?b4\<lparr>bunch_world := eh_New LevelDebug ''end'' (bunch_world ?b4), worker := (worker ?b4)(0 := Ended)\<rparr>"
  have s1: "bunch_step ?rd ?b0 ?b1" by (rule bunch_step.take_id) (simp_all add: bunch_start_def)
  have "sql_tasks_by_collection example_mysql 1 sample_database = [?t]"
    by (simp add: sql_tasks_by_collection_def example_mysql_def tasks_of_collection_def sample_database_def)
  then have rd: "?rd 1 (sample_world []) = (([?t], None), sample_world [])"
    by (simp add: getTasksByCollection_def quiet_calls)
  have s2: "bunch_step ?rd ?b1 ?b2" by (rule bunch_step.fetched [where i = 1]) (simp_all add: bunch_start_def rd del: One_nat_def)
  have s3: "bunch_step ?rd ?b2 ?b3" by (rule bunch_step.send_task) simp
  have s4: "bunch_step ?rd ?b3 ?b4" by (rule bunch_step.all_sent) simp
  have s5: "bunch_step ?rd ?b4 ?b5" by (rule bunch_step.no_id) (simp_all add: bunch_start_def)
  have five: "(bunch_step ?rd ^^ 5) ?b0 ?b5"
    using s1 s2 s3 s4 s5 by (auto simp: numeral_eq_Suc intro!: relcomppI)
  show thesis
  proof (rule that)
    show "(bunch_step ?rd ^^ 5) ?b0 ?b5" by (rule five)
    then show "bunch_steps ?rd ?b0 ?b5" by (rule relpowp_imp_rtranclp)
    show "sent ?b5 = [?t]" "bunch_over ?b5" "lost ?b5 = []" by (simp_all add: bunch_start_def bunch_over_def)
  qed
qed

theorem workers_send_each_task_once_witness:
  "\<exists>b. bunch_steps (getTasksByCollection example_mysql) (bunch_start 1 [1] (sample_world [])) b \<and> bunch_over b \<and>
     mset (sent b) = (\<Sum>i\<leftarrow>[1]. mset (sql_tasks_by_collection example_mysql i sample_database))"
proof -
  obtain b where b: "bunch_steps (getTasksByCollection example_mysql) (bunch_start 1 [1] (sample_world [])) b"
    "bunch_over b" "lost b = []" by (rule sample_bunch)
  from workers_send_each_task_once [OF b(1)] b show ?thesis by fastforce
qed

theorem workers_come_to_an_end_witness:
  "\<exists>b. (bunch_step (getTasksByCollection example_mysql) ^^ 5) (bunch_start 1 [1] (sample_world [])) b \<and>
     5 \<le> nat 1 + (\<Sum>i\<leftarrow>[1]. length (sql_tasks_by_collection example_mysql i sample_database) + 3) \<and> bunch_over b"
proof -
  obtain b where b: "(bunch_step (getTasksByCollection example_mysql) ^^ 5) (bunch_start 1 [1] (sample_world [])) b" "bunch_over b"
    by (rule sample_bunch)
  from workers_come_to_an_end [OF b(1)] b show ?thesis by auto
qed

theorem no_workers_send_nothing_witness:
  "\<exists>b. bunch_steps (getTasksByCollection example_mysql) (bunch_start (-1) [1] (sample_world [])) b \<and> sent b = [] \<and>
     remaining b = [1] \<and> bunch_over b"
proof -
  have "bunch_steps (getTasksByCollection example_mysql) (bunch_start (-1) [1] (sample_world [])) (bunch_start (-1) [1] (sample_world []))"
    by simp
  from no_workers_send_nothing [OF _ this] this show ?thesis
    by (intro exI [of _ "bunch_start (-1) [1] (sample_world [])"]) (simp add: bunch_start_def)
qed

section \<open>A pass of Run\<close>

lemma quiet_Run_pass:
  fixes w :: "'a repo_world_scheme" and r :: mysqlRepository and my :: mysql and p :: preloadingService
  assumes q: "outcomes w = []" and tries: "1 \<le> maxRetry s"
  defines "ks \<equiv> found_by r my (timePreload p) w" and "w1 \<equiv> w\<lparr>clock_reads := Suc (clock_reads w)\<rparr>"
  shows "preloader_Run_pass p (manager_ops s (mysql_ops r my) uuid_ok) w =
    (if ks = [] then Some (PassSleeps (timePreload p), eh_New LevelDebug ''I go to sleep because I don't get any tasks'' w1)
     else Some (PassWorks (Some ks), w1\<lparr>database := taken_db r ks (database w)\<rparr>))"
proof -
  note f = quiet_Find [OF q, of r my "timePreload p", folded ks_def]
  have "retry s (\<lambda>w. map_option (\<lambda>((c, err), w). ((err, c), w)) (op_Find (mysql_ops r my) (timePreload p) w))
      [RepoErrorDeadlock, RepoErrorLockWaitTimeout] None w =
    (if ks = [] then Some ((Some RepoErrorNoTasksFound, None), w1)
     else Some ((None, Some ks), w1\<lparr>database := taken_db r ks (database w)\<rparr>))"
    using tries f by (cases "ks = []") (simp_all add: retry_def retry_from.simps mysql_ops_def w1_def)
  then show ?thesis
    by (cases "ks = []") (simp_all add: preloader_Run_pass_def manager_ops_def GetTasksToComplete_def)
qed

text \<open>A bunch and a pass change no stored task.\<close>

lemma bunch_sound:
  assumes "bunch_steps (getTasksByCollection my) b b'" "repo_sound r my (bunch_world b)"
  shows "repo_sound r my (bunch_world b') \<and> stored_tasks (bunch_world b') = stored_tasks (bunch_world b)"
  using assms(1)
proof induction
  case base
  with assms(2) show ?case by simp
next
  case (step b1 b2)
  have env: "repo_sound r my (eh_New l m w) \<and> stored_tasks (eh_New l m w) = stored_tasks w"
    "repo_sound r my (publish_or_log t v w) \<and> stored_tasks (publish_or_log t v w) = stored_tasks w"
    if "repo_sound r my w" for l m t v and w :: "'a repo_world_scheme"
  proof -
    obtain es mo where p: "publish_or_log t v w = w\<lparr>events := es, monitor := mo, clock_reads := clock_reads w\<rparr>"
      using publish_or_log_world [of t v w] by blast
    have e: "eh_New l m w = w\<lparr>events := events w @ [(l, m)], monitor := monitor w, clock_reads := clock_reads w\<rparr>"
      by (simp add: eh_New_def)
    show "repo_sound r my (eh_New l m w) \<and> stored_tasks (eh_New l m w) = stored_tasks w"
      "repo_sound r my (publish_or_log t v w) \<and> stored_tasks (publish_or_log t v w) = stored_tasks w"
      unfolding p e using mysql_repo.env_irrelevant [OF that] by blast+
  qed
  have read: "repo_sound r my w \<and> stored_tasks w = stored_tasks (bunch_world b1)"
    if "getTasksByCollection my i (bunch_world b1) = (res, w)" for i res w
  proof -
    obtain ts err where "res = (ts, err)" by (metis surj_pair)
    with that have "undisturbed (bunch_world b1) w" using getTasksByCollection_facts(1) by blast
    then show ?thesis using step(3) undisturbed_database undisturbed_steady
      by (metis repo_soundD(1) sound_steady steadyD(2) stored_tasks_def)
  qed
  from step(2) show ?case
    by cases (use step(3) read env in \<open>simp_all\<close>)
qed

lemma pass_sound:
  assumes "preloader_Run_pass p (manager_ops s (mysql_ops r my) uuid_ok) w = Some (PassWorks c, w1)"
    and "repo_sound r my w" "1 \<le> maxRetry s"
  shows "repo_sound r my w1 \<and> stored_tasks w1 = stored_tasks w"
proof -
  have s: "repo_sound r my w \<and> 1 \<le> maxRetry s" using assms by simp
  obtain res w' where g: "tm_Get (manager_ops s (mysql_ops r my) uuid_ok) (timePreload p) w = Some (res, w')"
    "repo_sound r my w'" "stored_tasks w' = stored_tasks w"
    using mysql_repo.manager.get [OF s] by blast
  then have "w1 = w'" using assms(1) by (auto simp: preloader_Run_pass_def split: prod.splits option.splits if_splits)
  with g show ?thesis by simp
qed

lemma pass_sends_due:
  fixes w :: "'a repo_world_scheme" and p :: preloadingService
  assumes "repo_sound r my w" "outcomes w = []" "1 \<le> maxRetry s" "1 \<le> workersCount p"
    and "\<forall>c \<in> set (coll_rows (database w)). coll_taken c \<noteq> appInstanceId r"
  defines "T \<equiv> Unix (clock w (clock_reads w) + timePreload p)"
  shows "\<exists>pass w1. preloader_Run_pass p (manager_ops s (mysql_ops r my) uuid_ok) w = Some (pass, w1) \<and>
    (case pass of
       PassSleeps d \<Rightarrow> d = timePreload p \<and> (\<forall>tid e. stored_tasks w tid = Some e \<longrightarrow> T < e)
     | PassReturns \<Rightarrow> False
     | PassWorks c \<Rightarrow> \<exists>ks. c = Some ks \<and> (\<forall>b. bunch_steps (getTasksByCollection my) (bunch_start (workersCount p) ks w1) b \<and> bunch_over b \<longrightarrow>
         distinct (map task_id (sent b)) \<and>
         set (sent b) = {t. stored_tasks w (task_id t) = Some (exec_time t) \<and> exec_time t \<le> T}))"
proof -
  let ?ks = "found_by r my (timePreload p) w" and ?w1 = "w\<lparr>clock_reads := Suc (clock_reads w)\<rparr>"
  let ?w2 = "?w1\<lparr>database := taken_db r (found_by r my (timePreload p) w) (database w)\<rparr>"
  note run = quiet_Run_pass [OF assms(2,3), of p r my uuid_ok]
  note found = found_tasks [OF assms(1,5), of "timePreload p", folded T_def]
  let ?out = "concat (map (\<lambda>i. sql_tasks_by_collection my i (taken_db r ?ks (database w))) ?ks)"
  show ?thesis
  proof (cases "?ks = []")
    case True
    have "T < e" if "stored_tasks w tid = Some e" for tid e
      using found(2) [rule_format, of "\<lparr>task_id = tid, exec_time = e\<rparr>"] that True by auto
    with run True show ?thesis by simp
  next
    case False
    have "distinct (map task_id (sent b)) \<and>
        set (sent b) = {t. stored_tasks w (task_id t) = Some (exec_time t) \<and> exec_time t \<le> T}"
      if b: "bunch_steps (getTasksByCollection my) (bunch_start (workersCount p) ?ks ?w2) b" "bunch_over b" for b
    proof -
      let ?n = "nat (workersCount p)" and ?b0 = "bunch_start (workersCount p) ?ks ?w2"
      have l: "lost b = []"
        using quiet_bunch [OF b(1)] assms(2) by (simp add: bunch_start_def)
      obtain m where "(bunch_step (getTasksByCollection my) ^^ m) ?b0 b" using b(1) rtranclp_imp_relpowp by metis
      from mysql_reader.runs_keep [OF this bunch_start_facts(1)]
      have "well_run ?n b" "accounted ?n (collection_contents my ?w2) b = (\<Sum>i\<leftarrow>?ks. collection_contents my ?w2 i)"
        by (simp_all add: bunch_start_facts(2)) (simp_all add: bunch_start_def)
      moreover from this(1) have "accounted ?n (collection_contents my ?w2) b = mset (sent b)"
        using b(2) l assms(4) by (intro bunch_over_accounted) simp_all
      moreover have "mset (concat (map f xs)) = (\<Sum>i\<leftarrow>xs. mset (f i))" for f :: "nat \<Rightarrow> task list" and xs
        by (induction xs) simp_all
      ultimately have m: "mset (sent b) = mset ?out" by (simp add: collection_contents_def)
      then have "mset (map task_id (sent b)) = mset (map task_id ?out)" by (simp only: mset_map)
      then have "distinct (map task_id (sent b))" using found(1) mset_eq_imp_distinct_iff by blast
      moreover have "set (sent b) = set ?out" using m by (rule mset_eq_setD)
      ultimately show ?thesis using found(2) by blast
    qed
    with run False show ?thesis by simp
  qed
qed

text \<open>
  C12: After a restart every due task is sent exactly once: when nothing fails, one pass of the
  preloader of an instance to which no collection belongs yet sends, whatever the interleaving of its
  workers, precisely the stored tasks that are due within the preloading time, each once, with their
  execution times; when there are none it sleeps.
\<close>

theorem pass_sends_due_tasks:
  fixes w :: "'a repo_world_scheme" and p :: preloadingService
  assumes "repo_sound r my w" "outcomes w = []" "1 \<le> maxRetry s" "1 \<le> workersCount p"
    and "\<forall>c \<in> set (coll_rows (database w)). coll_taken c \<noteq> appInstanceId r"
  defines "T \<equiv> Unix (clock w (clock_reads w) + timePreload p)"
  shows "\<exists>pass w1. preloader_Run_pass p (manager_ops s (mysql_ops r my) uuid_ok) w = Some (pass, w1) \<and>
    (case pass of
       PassSleeps d \<Rightarrow> d = timePreload p \<and> (\<forall>tid e. stored_tasks w tid = Some e \<longrightarrow> T < e)
     | PassReturns \<Rightarrow> False
     | PassWorks c \<Rightarrow> \<exists>ks. c = Some ks \<and> (\<forall>b. bunch_steps (getTasksByCollection my) (bunch_start (workersCount p) ks w1) b \<and> bunch_over b \<longrightarrow>
         distinct (map task_id (sent b)) \<and>
         set (sent b) = {t. stored_tasks w (task_id t) = Some (exec_time t) \<and> exec_time t \<le> T}))"
  unfolding T_def using assms(1-5) by (rule pass_sends_due)

lemma sample_tasks_due: "stored_tasks (sample_world []) ''a'' = Some 50"
  by (simp add: stored_tasks_def stored_def home_def task_map_def coll_map_def sample_database_def)

theorem pass_sends_due_tasks_witness:
  "\<exists>ks w1 b. preloader_Run_pass sample_preloader (manager_ops sample_manager (mysql_ops sample_repository example_mysql) (\<lambda>_. True))
       (sample_world []) = Some (PassWorks (Some ks), w1) \<and>
     bunch_steps (getTasksByCollection example_mysql) (bunch_start 10 ks w1) b \<and> bunch_over b \<and>
     distinct (map task_id (sent b)) \<and> \<lparr>task_id = ''a'', exec_time = 50\<rparr> \<in> set (sent b)"
proof -
  let ?w = "sample_world []" and ?p = sample_preloader
  have h: "repo_sound sample_repository example_mysql ?w" "outcomes ?w = []" "1 \<le> maxRetry sample_manager"
      "1 \<le> workersCount ?p" "\<forall>c \<in> set (coll_rows (database ?w)). coll_taken c \<noteq> appInstanceId sample_repository"
    by simp_all (simp_all add: sample_database_def sample_repository_def sample_preloader_def preloader_defaults_def sample_tries)
  have n: "workersCount ?p = 10" by (simp add: sample_preloader_def preloader_defaults_def)
  have due: "50 \<le> Unix (clock ?w (clock_reads ?w) + timePreload ?p)"
    by (simp add: sample_world_def sample_preloader_def preloader_defaults_def Unix_def second_def)
  obtain pass w1 where pass: "preloader_Run_pass ?p (manager_ops sample_manager (mysql_ops sample_repository example_mysql) (\<lambda>_. True)) ?w = Some (pass, w1)"
    "case pass of
       PassSleeps d \<Rightarrow> d = timePreload ?p \<and> (\<forall>tid e. stored_tasks ?w tid = Some e \<longrightarrow> Unix (clock ?w (clock_reads ?w) + timePreload ?p) < e)
     | PassReturns \<Rightarrow> False
     | PassWorks c \<Rightarrow> \<exists>ks. c = Some ks \<and> (\<forall>b. bunch_steps (getTasksByCollection example_mysql) (bunch_start 10 ks w1) b \<and> bunch_over b \<longrightarrow>
         distinct (map task_id (sent b)) \<and>
         set (sent b) = {t. stored_tasks ?w (task_id t) = Some (exec_time t) \<and> exec_time t \<le> Unix (clock ?w (clock_reads ?w) + timePreload ?p)})"
    using pass_sends_due_tasks [OF h, of "\<lambda>_. True"] unfolding n by blast
  then obtain ks where ks: "pass = PassWorks (Some ks)"
    using sample_tasks_due due by (cases pass) force+
  obtain b where b: "bunch_steps (getTasksByCollection example_mysql) (bunch_start 10 ks w1) b" "bunch_over b"
    using mysql_reader.bunch_ends [OF bunch_start_facts(1)] by blast
  with pass ks have "distinct (map task_id (sent b))" "\<lparr>task_id = ''a'', exec_time = 50\<rparr> \<in> set (sent b)"
    using sample_tasks_due due by simp_all
  with pass(1) ks b show ?thesis by blast
qed

end
