(* ===== verification/Task_List.thy ===== *)
theory Task_List
  imports Contracts
begin

text \<open>
  The interface \<open>prioritizedTaskListInterface\<close> of \<open>waiting_service.go\<close>: a record of the
  methods the waiting service calls (a Go interface value is a table of methods), and two
  locales with the laws an implementation promises. \<open>None\<close> of the outer option of \<open>Take\<close>
  and \<open>DeleteIfExist\<close> is a panic.
\<close>

record 'h task_list_ops =
  op_Len :: "'h \<Rightarrow> nat"
  op_Add :: "'h \<Rightarrow> task \<Rightarrow> 'h"
  op_Take :: "'h \<Rightarrow> (task option \<times> 'h) option"
  op_DeleteIfExist :: "'h \<Rightarrow> string \<Rightarrow> (bool \<times> 'h) option"

text \<open>\<open>without tid M\<close>: the tasks whose id is not \<open>tid\<close>.\<close>

definition ids :: "task multiset \<Rightarrow> string set" where
  "ids M = task_id ` set_mset M"

definition without :: "string \<Rightarrow> task multiset \<Rightarrow> task multiset" where
  "without tid M = filter_mset (\<lambda>t. task_id t \<noteq> tid) M"

lemma ids_simps [simp]:
  "ids {#} = {}" "ids (add_mset t M) = insert (task_id t) (ids M)" "ids (M + N) = ids M \<union> ids N"
  by (auto simp: ids_def)

lemma without_simps [simp]:
  "without tid {#} = {#}"
  "without tid (add_mset t M) =
     (if task_id t = tid then without tid M else add_mset t (without tid M))"
  by (simp_all add: without_def)

lemma ids_without [simp]: "ids (without tid M) = ids M - {tid}"
  by (auto simp: ids_def without_def)

lemma without_id: "tid \<notin> ids M \<Longrightarrow> without tid M = M"
  by (auto simp: ids_def without_def filter_mset_eq_conv)

text \<open>
  A client of the interface: any sequence of calls (\<open>run_calls\<close>, \<open>None\<close> if a call panics), and
  the emptying of a list by \<open>n\<close> calls of \<open>Take\<close>.
\<close>

datatype list_call = CallAdd task | CallTake | CallDelete string

fun run_call :: "'h task_list_ops \<Rightarrow> 'h \<Rightarrow> list_call \<Rightarrow> 'h option" where
  "run_call I h (CallAdd t) = Some (op_Add I h t)"
| "run_call I h CallTake = map_option snd (op_Take I h)"
| "run_call I h (CallDelete tid) = map_option snd (op_DeleteIfExist I h tid)"

fun run_calls :: "'h task_list_ops \<Rightarrow> 'h \<Rightarrow> list_call list \<Rightarrow> 'h option" where
  "run_calls I h [] = Some h"
| "run_calls I h (c # cs) = Option.bind (run_call I h c) (\<lambda>h'. run_calls I h' cs)"

fun take_all :: "'h task_list_ops \<Rightarrow> nat \<Rightarrow> 'h \<Rightarrow> task list option" where
  "take_all I 0 h = Some []"
| "take_all I (Suc n) h = do {
     (x, h1) \<leftarrow> op_Take I h;
     case x of None \<Rightarrow> Some []
     | Some t \<Rightarrow> do { ts \<leftarrow> take_all I n h1; Some (t # ts) }
   }"

text \<open>
  The basic contract: the list is a multiset of tasks; \<open>Take\<close> removes one of the earliest;
  \<open>DeleteIfExist\<close> removes one task of the id or reports that it knows none; no operation
  panics.
\<close>

locale prioritized_task_list =
  fixes I :: "'h task_list_ops"
    and invar :: "'h \<Rightarrow> bool"
    and tasks :: "'h \<Rightarrow> task multiset"
  assumes len: "invar h \<Longrightarrow> op_Len I h = size (tasks h)"
    and add_invar: "invar h \<Longrightarrow> invar (op_Add I h t)"
    and add_tasks: "invar h \<Longrightarrow> tasks (op_Add I h t) = add_mset t (tasks h)"
    and take_empty: "invar h \<Longrightarrow> tasks h = {#} \<Longrightarrow> op_Take I h = Some (None, h)"
    and take_some: "invar h \<Longrightarrow> tasks h \<noteq> {#} \<Longrightarrow>
      \<exists>t h'. op_Take I h = Some (Some t, h') \<and> invar h' \<and> tasks h = add_mset t (tasks h') \<and>
        (\<forall>u \<in># tasks h'. exec_time t \<le> exec_time u)"
    and delete: "invar h \<Longrightarrow>
      \<exists>b h'. op_DeleteIfExist I h tid = Some (b, h') \<and> invar h' \<and>
        (if b then \<exists>t. task_id t = tid \<and> tasks h = add_mset t (tasks h') else h' = h)"

context prioritized_task_list
begin

lemma run_call_invar: "invar h \<Longrightarrow> \<exists>h'. run_call I h c = Some h' \<and> invar h'"
proof (cases c)
  case (CallAdd t)
  then show "invar h \<Longrightarrow> ?thesis" by (simp add: add_invar)
next
  case CallTake
  then show "invar h \<Longrightarrow> ?thesis" using take_empty take_some by (cases "tasks h = {#}") force+
next
  case (CallDelete tid)
  then show "invar h \<Longrightarrow> ?thesis" using delete [of h tid] by force
qed

lemma run_calls_invar: "invar h \<Longrightarrow> \<exists>h'. run_calls I h cs = Some h' \<and> invar h'"
proof (induction cs arbitrary: h)
  case (Cons c cs)
  then obtain h1 where "run_call I h c = Some h1" "invar h1" using run_call_invar by blast
  with Cons.IH show ?case by simp
qed simp

lemma take_all_sorted:
  "invar h \<Longrightarrow> size (tasks h) \<le> n \<Longrightarrow>
    \<exists>ts. take_all I n h = Some ts \<and> mset ts = tasks h \<and> sorted (map exec_time ts)"
proof (induction n arbitrary: h)
  case 0
  then show ?case by simp
next
  case (Suc n)
  show ?case
  proof (cases "tasks h = {#}")
    case True
    with Suc.prems show ?thesis by (simp add: take_empty)
  next
    case False
    with Suc.prems take_some obtain t h1 where t: "op_Take I h = Some (Some t, h1)" "invar h1"
      "tasks h = add_mset t (tasks h1)" "\<forall>u \<in># tasks h1. exec_time t \<le> exec_time u" by blast
    with Suc.IH [of h1] Suc.prems obtain ts where ts: "take_all I n h1 = Some ts"
      "mset ts = tasks h1" "sorted (map exec_time ts)" by auto
    have "set ts = set_mset (tasks h1)" using ts(2) by (metis set_mset_mset)
    with t ts show ?thesis by simp
  qed
qed

end

text \<open>
  The stronger contract for the use with distinct ids: while every task in the list can be found
  by its id, \<open>DeleteIfExist\<close> removes all there is of an id.
\<close>

locale indexed_task_list = prioritized_task_list +
  fixes findable :: "'h \<Rightarrow> bool"
  assumes add_findable:
      "invar h \<Longrightarrow> findable h \<Longrightarrow> task_id t \<notin> ids (tasks h) \<Longrightarrow> findable (op_Add I h t)"
    and take_findable: "invar h \<Longrightarrow> findable h \<Longrightarrow> op_Take I h = Some (x, h') \<Longrightarrow> findable h'"
    and delete_findable: "invar h \<Longrightarrow> findable h \<Longrightarrow> op_DeleteIfExist I h tid = Some (b, h') \<Longrightarrow>
      findable h' \<and> tasks h' = without tid (tasks h) \<and> (b \<longleftrightarrow> tid \<in> ids (tasks h))"
    and findable_unique: "invar h \<Longrightarrow> findable h \<Longrightarrow> tasks h = add_mset t M \<Longrightarrow> task_id t \<notin> ids M"

end
