(* ===== verification/Task_Heap.thy ===== *)
theory Task_Heap
  imports Task_List
begin

text \<open>
  The waiting list of \<open>waiting_service\<close>: \<open>heap.go\<close> (the slice of item pointers and its
  \<open>heap.Interface\<close> methods), \<open>task_heap.go\<close> (the prioritized task list with its index of
  task ids), and the functions of Go's \<open>container/heap\<close> that it calls.

  The code shares its items through pointers: the slice \<open>pq\<close> holds \<open>*item\<close>, and the map
  \<open>index\<close> holds \<open>*int\<close>, the address of an item's \<open>index\<close> field, which \<open>Swap\<close>, \<open>Push\<close> and
  \<open>Pop\<close> write. So the model has an explicit store: an item is an address \<open>ref\<close> in
  \<open>item_at\<close>, and the pointer to its index field is the address of the item.
\<close>

section \<open>State\<close>

type_synonym ref = nat

record item =
  item_task :: task
  priority :: int64
  item_index :: int

record task_list =
  pq :: "ref list"
  item_at :: "ref \<Rightarrow> item"
  next_ref :: ref
  id_index :: "string \<rightharpoonup> ref"

abbreviation size_of :: "task_list \<Rightarrow> nat" where
  "size_of h \<equiv> length (pq h)"

definition set_item_index :: "task_list \<Rightarrow> ref \<Rightarrow> int \<Rightarrow> task_list" where
  "set_item_index h r k = h\<lparr>item_at := (item_at h)(r := (item_at h r)\<lparr>item_index := k\<rparr>)\<rparr>"

text \<open>\<open>&item{...}\<close>: a fresh address.\<close>

definition new_item :: "task_list \<Rightarrow> item \<Rightarrow> ref \<times> task_list" where
  "new_item h x = (next_ref h,
     h\<lparr>item_at := (item_at h)(next_ref h := x), next_ref := Suc (next_ref h)\<rparr>)"

section \<open>The methods of \<open>items\<close>\<close>

definition items_Len :: "task_list \<Rightarrow> nat" where
  "items_Len h = length (pq h)"

definition items_Less :: "task_list \<Rightarrow> nat \<Rightarrow> nat \<Rightarrow> bool" where
  "items_Less h i j \<longleftrightarrow> priority (item_at h (pq h ! i)) < priority (item_at h (pq h ! j))"

definition items_Swap :: "task_list \<Rightarrow> nat \<Rightarrow> nat \<Rightarrow> task_list" where
  "items_Swap h i j =
     (let h1 = h\<lparr>pq := (pq h)[i := pq h ! j, j := pq h ! i]\<rparr>;
          h2 = set_item_index h1 (pq h1 ! i) (int i)
      in set_item_index h2 (pq h2 ! j) (int j))"

definition items_Push :: "task_list \<Rightarrow> ref \<Rightarrow> task_list" where
  "items_Push h r =
     (let h1 = set_item_index h r (int (length (pq h)))
      in h1\<lparr>pq := pq h1 @ [r]\<rparr>)"

text \<open>\<open>old[n-1]\<close> panics on an empty slice.\<close>

definition items_Pop :: "task_list \<Rightarrow> (ref \<times> task_list) option" where
  "items_Pop h =
     (if pq h = [] then None
      else let r = last (pq h); h1 = set_item_index h r (-1)
           in Some (r, h1\<lparr>pq := butlast (pq h1)\<rparr>))"

section \<open>\<open>container/heap\<close>\<close>

text \<open>
  The standard library's sift functions. Indices are in range at every call below, so \<open>Less\<close>
  and \<open>Swap\<close> never panic in them; \<open>Remove\<close> takes its index from the caller and panics when
  it is out of range (in \<open>Swap\<close>, or in \<open>Pop\<close> of an empty slice). The library's guard
  \<open>j1 < 0\<close> against overflow of \<open>2*i+1\<close> concerns no slice that fits in memory.
\<close>

function heap_up :: "task_list \<Rightarrow> nat \<Rightarrow> task_list" where
  "heap_up h j =
     (let i = (j - 1) div 2
      in if i = j \<or> \<not> items_Less h j i then h else heap_up (items_Swap h i j) i)"
  by pat_completeness auto
termination
  by (relation "measure snd") auto

function heap_down :: "task_list \<Rightarrow> nat \<Rightarrow> nat \<Rightarrow> task_list \<times> nat" where
  "heap_down h i n =
     (let j1 = 2 * i + 1
      in if j1 \<ge> n then (h, i)
         else let j2 = j1 + 1;
                  j = (if j2 < n \<and> items_Less h j2 j1 then j2 else j1)
              in if \<not> items_Less h j i then (h, i)
                 else heap_down (items_Swap h i j) j n)"
  by pat_completeness auto
termination
  by (relation "measure (\<lambda>(h, i, n). n - i)") (auto simp: Let_def split: if_splits)

declare heap_up.simps [simp del] heap_down.simps [simp del]

fun heap_Init_loop :: "task_list \<Rightarrow> nat \<Rightarrow> nat \<Rightarrow> task_list" where
  "heap_Init_loop h 0 n = h"
| "heap_Init_loop h (Suc i) n = heap_Init_loop (fst (heap_down h i n)) i n"

definition heap_Init :: "task_list \<Rightarrow> task_list" where
  "heap_Init h = heap_Init_loop h (items_Len h div 2) (items_Len h)"

definition heap_Push :: "task_list \<Rightarrow> ref \<Rightarrow> task_list" where
  "heap_Push h r = (let h1 = items_Push h r in heap_up h1 (items_Len h1 - 1))"

text \<open>\<open>Pop\<close> of an empty heap panics in \<open>Swap(0, -1)\<close>.\<close>

definition heap_Pop :: "task_list \<Rightarrow> (ref \<times> task_list) option" where
  "heap_Pop h =
     (if items_Len h = 0 then None
      else let n = items_Len h - 1;
               h1 = items_Swap h 0 n;
               (h2, _) = heap_down h1 0 n
           in items_Pop h2)"

definition heap_Remove :: "task_list \<Rightarrow> int \<Rightarrow> (ref \<times> task_list) option" where
  "heap_Remove h i =
     (if i < 0 \<or> int (items_Len h) \<le> i then None
      else let n = items_Len h - 1; k = nat i
           in if n \<noteq> k then
                let h1 = items_Swap h k n;
                    (h2, i') = heap_down h1 k n
                in items_Pop (if k < i' then h2 else heap_up h2 k)
              else items_Pop h)"

section \<open>The prioritized task list\<close>

definition empty_task_list :: task_list where
  "empty_task_list = \<lparr>pq = [],
     item_at = (\<lambda>_. \<lparr>item_task = \<lparr>task_id = [], exec_time = 0\<rparr>, priority = 0, item_index = 0\<rparr>),
     next_ref = 0, id_index = Map.empty\<rparr>"

text \<open>One iteration of the loop of \<open>NewPrioritizedTask\<close>; \<open>i\<close> counts the items so far.\<close>

definition append_task :: "task_list \<Rightarrow> nat \<Rightarrow> task \<Rightarrow> task_list" where
  "append_task h i t =
     (let (r, h1) = new_item h \<lparr>item_task = t, priority = exec_time t, item_index = int i\<rparr>
      in h1\<lparr>pq := pq h1 @ [r], id_index := (id_index h1)(task_id t \<mapsto> r)\<rparr>)"

fun append_tasks :: "task_list \<Rightarrow> nat \<Rightarrow> task list \<Rightarrow> task_list" where
  "append_tasks h i [] = h"
| "append_tasks h i (t # ts) = append_tasks (append_task h i t) (Suc i) ts"

definition NewPrioritizedTask :: "task list \<Rightarrow> task_list" where
  "NewPrioritizedTask tasks = heap_Init (append_tasks empty_task_list 0 tasks)"

definition Add :: "task_list \<Rightarrow> task \<Rightarrow> task_list" where
  "Add h t =
     (let (r, h1) = new_item h \<lparr>item_task = t, priority = exec_time t, item_index = 0\<rparr>;
          h2 = heap_Push h1 r
      in h2\<lparr>id_index := (id_index h2)(task_id t \<mapsto> r)\<rparr>)"

text \<open>The \<open>None\<close> of the outer option is a panic of \<open>heap.Remove\<close>.\<close>

definition DeleteIfExist :: "task_list \<Rightarrow> string \<Rightarrow> (bool \<times> task_list) option" where
  "DeleteIfExist h tid =
     (case id_index h tid of
        None \<Rightarrow> Some (False, h)
      | Some r \<Rightarrow> do {
          (_, h1) \<leftarrow> heap_Remove h (item_index (item_at h r));
          Some (True, h1\<lparr>id_index := (id_index h1)(tid := None)\<rparr>)
        })"

definition Take :: "task_list \<Rightarrow> (task option \<times> task_list) option" where
  "Take h =
     (if items_Len h > 0 then do {
        (r, h1) \<leftarrow> heap_Pop h;
        let t = item_task (item_at h1 r);
        Some (Some t, h1\<lparr>id_index := (id_index h1)(task_id t := None)\<rparr>)
      } else Some (None, h))"

definition Len :: "task_list \<Rightarrow> nat" where
  "Len h = items_Len h"

section \<open>What the sift functions keep\<close>

text \<open>
  \<open>positions_ok\<close>: no item is twice in the slice and every item knows its position. It is what
  makes \<open>heap.Remove(&h.pq, *index)\<close> remove the item the index map points at.
  \<open>same_items h h'\<close>: \<open>h'\<close> holds the items of \<open>h\<close> in some order; only positions changed.
\<close>

definition positions_ok :: "task_list \<Rightarrow> bool" where
  "positions_ok h \<longleftrightarrow> distinct (pq h) \<and>
     (\<forall>k < size_of h. item_index (item_at h (pq h ! k)) = int k)"

definition same_items :: "task_list \<Rightarrow> task_list \<Rightarrow> bool" where
  "same_items h h' \<longleftrightarrow> mset (pq h') = mset (pq h) \<and> next_ref h' = next_ref h \<and>
     id_index h' = id_index h \<and>
     (\<forall>r. item_task (item_at h' r) = item_task (item_at h r)) \<and>
     (\<forall>r. priority (item_at h' r) = priority (item_at h r)) \<and>
     (positions_ok h \<longrightarrow> positions_ok h')"

definition key :: "task_list \<Rightarrow> nat \<Rightarrow> int64" where
  "key h k = priority (item_at h (pq h ! k))"

lemma items_Less_key: "items_Less h i j \<longleftrightarrow> key h i < key h j"
  by (simp add: items_Less_def key_def)

lemma same_items_refl [simp, intro]: "same_items h h"
  by (simp add: same_items_def)

lemma same_items_trans [trans]: "same_items h h' \<Longrightarrow> same_items h' h'' \<Longrightarrow> same_items h h''"
  by (simp add: same_items_def)

lemma same_items_size: "same_items h h' \<Longrightarrow> size_of h' = size_of h"
  by (metis same_items_def size_mset)

lemma set_item_index_simps [simp]:
  "pq (set_item_index h r k) = pq h"
  "next_ref (set_item_index h r k) = next_ref h"
  "id_index (set_item_index h r k) = id_index h"
  "item_task (item_at (set_item_index h r k) q) = item_task (item_at h q)"
  "priority (item_at (set_item_index h r k) q) = priority (item_at h q)"
  "item_index (item_at (set_item_index h r k) q) = (if q = r then k else item_index (item_at h q))"
  by (simp_all add: set_item_index_def)

lemma items_Swap_simps [simp]:
  "pq (items_Swap h i j) = (pq h)[i := pq h ! j, j := pq h ! i]"
  "next_ref (items_Swap h i j) = next_ref h"
  "id_index (items_Swap h i j) = id_index h"
  "item_task (item_at (items_Swap h i j) r) = item_task (item_at h r)"
  "priority (item_at (items_Swap h i j) r) = priority (item_at h r)"
  by (simp_all add: items_Swap_def Let_def set_item_index_def)

lemma items_Swap_index:
  "item_index (item_at (items_Swap h i j) r) =
     (let ys = (pq h)[i := pq h ! j, j := pq h ! i]
      in if r = ys ! j then int j else if r = ys ! i then int i else item_index (item_at h r))"
  by (simp add: items_Swap_def Let_def)

lemma key_items_Swap:
  "i < size_of h \<Longrightarrow> j < size_of h \<Longrightarrow>
    key (items_Swap h i j) k = (if k = j then key h i else if k = i then key h j else key h k)"
  by (simp add: key_def nth_list_update)

lemma positions_ok_items_Swap:
  assumes "positions_ok h" "i < size_of h" "j < size_of h"
  shows "positions_ok (items_Swap h i j)"
proof -
  define ys where "ys = (pq h)[i := pq h ! j, j := pq h ! i]"
  have d: "distinct ys" and len: "length ys = size_of h"
    using assms by (simp_all add: ys_def positions_ok_def distinct_list_swap)
  have "item_index (item_at (items_Swap h i j) (ys ! k)) = int k" if k: "k < length ys" for k
  proof -
    have "ys ! k = ys ! j \<longleftrightarrow> k = j" "ys ! k = ys ! i \<longleftrightarrow> k = i"
      using d k len assms by (simp_all add: nth_eq_iff_index_eq)
    moreover have "k \<noteq> i \<Longrightarrow> k \<noteq> j \<Longrightarrow> ys ! k = pq h ! k" by (simp add: ys_def)
    ultimately show ?thesis
      using assms k len by (simp add: items_Swap_index Let_def positions_ok_def flip: ys_def)
  qed
  with d show ?thesis by (simp add: positions_ok_def flip: ys_def)
qed

lemma same_items_Swap:
  "i < size_of h \<Longrightarrow> j < size_of h \<Longrightarrow> same_items h (items_Swap h i j)"
  by (simp add: same_items_def mset_swap positions_ok_items_Swap)

lemma same_items_up: "j < size_of h \<Longrightarrow> same_items h (heap_up h j)"
proof (induction h j rule: heap_up.induct)
  case (1 h j)
  define i where "i = (j - 1) div 2"
  show ?case
  proof (cases "i = j \<or> \<not> items_Less h j i")
    case True
    then show ?thesis by (simp add: heap_up.simps [of h j] i_def Let_def)
  next
    case False
    have "i < size_of h" using 1(2) by (simp add: i_def)
    then have sw: "same_items h (items_Swap h i j)" using 1(2) by (rule same_items_Swap)
    have "same_items (items_Swap h i j) (heap_up (items_Swap h i j) i)"
      using 1(1) [OF i_def False] \<open>i < size_of h\<close> by simp
    with sw False show ?thesis
      by (auto simp: heap_up.simps [of h j] i_def Let_def intro: same_items_trans)
  qed
qed

text \<open>\<open>down\<close> works below \<open>n\<close>: the slots from \<open>n\<close> on are untouched.\<close>

lemma heap_down_keeps:
  "n \<le> size_of h \<Longrightarrow> i < size_of h \<Longrightarrow>
    same_items h (fst (heap_down h i n)) \<and>
    (\<forall>k. n \<le> k \<longrightarrow> i < n \<longrightarrow> pq (fst (heap_down h i n)) ! k = pq h ! k) \<and>
    i \<le> snd (heap_down h i n)"
proof (induction h i n rule: heap_down.induct)
  case (1 h i n)
  define j where
    "j = (if 2 * i + 1 + 1 < n \<and> items_Less h (2 * i + 1 + 1) (2 * i + 1) then 2 * i + 1 + 1
          else 2 * i + 1)"
  show ?case
  proof (cases "n \<le> 2 * i + 1 \<or> \<not> items_Less h j i")
    case True
    then show ?thesis by (auto simp: heap_down.simps [of h i n] j_def Let_def)
  next
    case False
    then have j: "i < j" "j < n" by (auto simp: j_def)
    then have sw: "same_items h (items_Swap h i j)"
      using 1(2) by (intro same_items_Swap) auto
    have IH: "same_items (items_Swap h i j) (fst (heap_down (items_Swap h i j) j n)) \<and>
       (\<forall>k. n \<le> k \<longrightarrow> j < n \<longrightarrow> pq (fst (heap_down (items_Swap h i j) j n)) ! k = pq (items_Swap h i j) ! k) \<and>
       j \<le> snd (heap_down (items_Swap h i j) j n)"
      by (rule 1(1)) (use False 1(2) j in \<open>auto simp: j_def\<close>)
    have "heap_down h i n = heap_down (items_Swap h i j) j n"
      using False by (auto simp: heap_down.simps [of h i n] j_def Let_def)
    with IH sw j show ?thesis by (auto intro: same_items_trans)
  qed
qed

lemma same_items_down:
  "n \<le> size_of h \<Longrightarrow> i < size_of h \<Longrightarrow> same_items h (fst (heap_down h i n))"
  by (simp add: heap_down_keeps)

lemma heap_down_above:
  "n \<le> size_of h \<Longrightarrow> i < n \<Longrightarrow> n \<le> k \<Longrightarrow> pq (fst (heap_down h i n)) ! k = pq h ! k"
  using heap_down_keeps [of n h i] by simp

section \<open>Heap order\<close>

abbreviation parent :: "nat \<Rightarrow> nat" where
  "parent k \<equiv> (k - 1) div 2"

text \<open>
  \<open>ordered_at h k\<close>: the item at \<open>k\<close> is not before its parent. \<open>down\<close> repairs a heap whose
  only trouble is below \<open>i\<close>, \<open>up\<close> one whose only trouble is between \<open>j\<close> and its parent.
  \<open>lo\<close> bounds the part of the slice that is a heap so far while \<open>Init\<close> builds it.
\<close>

definition ordered_at :: "task_list \<Rightarrow> nat \<Rightarrow> bool" where
  "ordered_at h k \<longleftrightarrow> key h (parent k) \<le> key h k"

definition heap_from :: "task_list \<Rightarrow> nat \<Rightarrow> nat \<Rightarrow> bool" where
  "heap_from h lo n \<longleftrightarrow> (\<forall>k. 0 < k \<and> k < n \<and> lo \<le> parent k \<longrightarrow> ordered_at h k)"

definition broken_below :: "task_list \<Rightarrow> nat \<Rightarrow> nat \<Rightarrow> nat \<Rightarrow> bool" where
  "broken_below h lo i n \<longleftrightarrow>
     (\<forall>k. 0 < k \<and> k < n \<and> lo \<le> parent k \<and> parent k \<noteq> i \<longrightarrow> ordered_at h k) \<and>
     (\<forall>k. 0 < k \<and> k < n \<and> parent k = i \<and> 0 < i \<and> lo \<le> parent i \<longrightarrow>
        key h (parent i) \<le> key h k)"

definition broken_above :: "task_list \<Rightarrow> nat \<Rightarrow> nat \<Rightarrow> bool" where
  "broken_above h j n \<longleftrightarrow>
     (\<forall>k. 0 < k \<and> k < n \<and> k \<noteq> j \<longrightarrow> ordered_at h k) \<and>
     (\<forall>k. 0 < k \<and> k < n \<and> parent k = j \<and> 0 < j \<longrightarrow> key h (parent j) \<le> key h k)"

lemma parent_cases: "0 < k \<Longrightarrow> parent k = i \<longleftrightarrow> k = 2 * i + 1 \<or> k = 2 * i + 1 + 1" for k i :: nat
  by auto

lemma broken_below_Swap:
  assumes bb: "broken_below h lo i n" and n: "n \<le> size_of h" and lo: "lo \<le> i"
    and j: "parent j = i" "0 < j" "j < n" and less: "key h j < key h i"
    and sib: "\<And>k. 0 < k \<Longrightarrow> k < n \<Longrightarrow> parent k = i \<Longrightarrow> key h j \<le> key h k"
  shows "broken_below (items_Swap h i j) lo j n"
proof -
  have ij: "i < j" "i < size_of h" "j < size_of h" using j n by auto
  note sw = key_items_Swap [OF ij(2,3)]
  have "ordered_at (items_Swap h i j) k"
    if k: "0 < k" "k < n" "lo \<le> parent k" "parent k \<noteq> j" for k
  proof (cases "k = i")
    case True
    then show ?thesis using bb k j ij by (auto simp: ordered_at_def sw broken_below_def)
  next
    case False
    show ?thesis
    proof (cases "parent k = i")
      case True
      with False k sib [OF k(1,2) True] less ij show ?thesis by (auto simp: ordered_at_def sw)
    next
      case False
      then have "k \<noteq> j" using j by auto
      with False k bb \<open>k \<noteq> i\<close> show ?thesis by (simp add: ordered_at_def sw broken_below_def)
    qed
  qed
  moreover have "key (items_Swap h i j) (parent j) \<le> key (items_Swap h i j) k"
    if k: "0 < k" "k < n" "parent k = j" for k
  proof -
    have "k \<noteq> i" "k \<noteq> j" using k ij by auto
    moreover have "ordered_at h k" using bb k ij lo by (auto simp: broken_below_def)
    ultimately show ?thesis using k j ij by (simp add: ordered_at_def sw)
  qed
  ultimately show ?thesis by (simp add: broken_below_def)
qed

lemma heap_down_order:
  "broken_below h lo i n \<Longrightarrow> n \<le> size_of h \<Longrightarrow> lo \<le> i \<Longrightarrow>
    heap_from (fst (heap_down h i n)) lo n"
proof (induction h i n rule: heap_down.induct)
  case (1 h i n)
  define j where
    "j = (if 2 * i + 1 + 1 < n \<and> items_Less h (2 * i + 1 + 1) (2 * i + 1) then 2 * i + 1 + 1
          else 2 * i + 1)"
  have sib: "key h j \<le> key h k" if "0 < k" "k < n" "parent k = i" for k
    using that parent_cases [of k i] by (auto simp: j_def items_Less_key)
  show ?case
  proof (cases "n \<le> 2 * i + 1 \<or> \<not> items_Less h j i")
    case True
    have "ordered_at h k" if "0 < k" "k < n" "parent k = i" for k
    proof -
      from that True parent_cases [of k i] have "\<not> items_Less h j i" by auto
      with sib [OF that] that show ?thesis by (auto simp: ordered_at_def items_Less_key)
    qed
    with 1(2) have "heap_from h lo n" by (auto simp: broken_below_def heap_from_def)
    with True show ?thesis by (auto simp: heap_down.simps [of h i n] j_def Let_def)
  next
    case False
    then have j: "parent j = i" "0 < j" "j < n" by (auto simp: j_def)
    have "broken_below (items_Swap h i j) lo j n"
      by (rule broken_below_Swap) (use 1(2-4) j sib False in \<open>auto simp: items_Less_key\<close>)
    moreover have "heap_down h i n = heap_down (items_Swap h i j) j n"
      using False by (auto simp: heap_down.simps [of h i n] j_def Let_def)
    ultimately show ?thesis
      using 1(1) [OF refl _ refl j_def] False 1(3,4) j by auto
  qed
qed

lemma heap_up_order:
  "broken_above h j n \<Longrightarrow> j < n \<Longrightarrow> n \<le> size_of h \<Longrightarrow> heap_from (heap_up h j) 0 n"
proof (induction h j rule: heap_up.induct)
  case (1 h j)
  define i where "i = (j - 1) div 2"
  show ?case
  proof (cases "i = j \<or> \<not> items_Less h j i")
    case True
    then have "0 < j \<longrightarrow> ordered_at h j" by (auto simp: i_def ordered_at_def items_Less_key)
    with 1(2) have "heap_from h 0 n" by (auto simp: heap_from_def broken_above_def)
    with True show ?thesis by (simp add: heap_up.simps [of h j] i_def Let_def)
  next
    case False
    then have ij: "i < j" "0 < j" "i < size_of h" "j < size_of h" and less: "key h j < key h i"
      using 1(3,4) by (auto simp: i_def items_Less_key)
    note sw = key_items_Swap [OF ij(3,4)]
    have "ordered_at (items_Swap h i j) k" if k: "0 < k" "k < n" "k \<noteq> i" for k
    proof (cases "k = j")
      case True
      then have "parent k = i" by (simp add: i_def)
      with True less ij show ?thesis by (simp add: ordered_at_def sw)
    next
      case kj: False
      then have o: "ordered_at h k" using k 1(2) by (simp add: broken_above_def)
      show ?thesis
      proof (cases "parent k = j")
        case True
        then have "key h i \<le> key h k"
          using 1(2) k(1,2) ij(2) unfolding broken_above_def i_def by blast
        then show ?thesis unfolding ordered_at_def True using k(3) kj by (simp add: sw)
      next
        case False
        have "key h j \<le> key h i" using less by simp
        moreover have "key h (parent k) \<le> key h k" using o by (simp add: ordered_at_def)
        ultimately show ?thesis
          using False k(3) kj by (cases "parent k = i") (simp_all add: ordered_at_def sw)
      qed
    qed
    moreover have "key (items_Swap h i j) (parent i) \<le> key (items_Swap h i j) k"
      if k: "0 < k" "k < n" "parent k = i" "0 < i" for k
    proof -
      have "ordered_at h i" using 1(2,3) ij k by (simp add: broken_above_def)
      then have pi: "key h (parent i) \<le> key h i" by (simp add: ordered_at_def)
      have "key h i \<le> key h k" if "k \<noteq> j"
      proof -
        have "ordered_at h k" using that k 1(2) by (simp add: broken_above_def)
        then show ?thesis unfolding ordered_at_def k(3) .
      qed
      moreover have "parent i \<noteq> i" "parent i \<noteq> j" "k \<noteq> i" using k(1,3,4) ij by auto
      ultimately show ?thesis using pi by (auto simp: sw)
    qed
    ultimately have "broken_above (items_Swap h i j) i n" by (simp add: broken_above_def)
    then have "heap_from (heap_up (items_Swap h i j) i) 0 n"
      using 1(1) [OF i_def False] 1(3,4) ij by simp
    with False show ?thesis by (simp add: heap_up.simps [of h j] i_def Let_def)
  qed
qed

lemma heap_root_min: "heap_from h 0 n \<Longrightarrow> k < n \<Longrightarrow> key h 0 \<le> key h k"
proof (induction k rule: less_induct)
  case (less k)
  show ?case
  proof (cases "k = 0")
    case False
    then have "key h (parent k) \<le> key h k"
      using less.prems by (simp add: heap_from_def ordered_at_def)
    moreover have "key h 0 \<le> key h (parent k)"
      by (rule less.IH) (use False less.prems in auto)
    ultimately show ?thesis by simp
  qed simp
qed

section \<open>Removing and inserting items\<close>

text \<open>\<open>drops h r h'\<close>: \<open>h'\<close> is a well-ordered heap with the items of \<open>h\<close> without \<open>r\<close>.\<close>

definition same_contents :: "task_list \<Rightarrow> task_list \<Rightarrow> bool" where
  "same_contents h h' \<longleftrightarrow> next_ref h' = next_ref h \<and> id_index h' = id_index h \<and>
     (\<forall>r. item_task (item_at h' r) = item_task (item_at h r)) \<and>
     (\<forall>r. priority (item_at h' r) = priority (item_at h r))"

definition drops :: "task_list \<Rightarrow> ref \<Rightarrow> task_list \<Rightarrow> bool" where
  "drops h r h' \<longleftrightarrow> mset (pq h) = add_mset r (mset (pq h')) \<and> same_contents h h' \<and>
     positions_ok h' \<and> heap_from h' 0 (size_of h')"

lemma same_items_contents: "same_items h h' \<Longrightarrow> same_contents h h'"
  by (simp add: same_items_def same_contents_def)

lemma drops_same_items: "same_items h h1 \<Longrightarrow> drops h1 r h' \<Longrightarrow> drops h r h'"
  by (auto simp: drops_def same_items_def same_contents_def)

lemma items_Pop_drops:
  assumes ok: "positions_ok h" and ne: "pq h \<noteq> []" and heap: "heap_from h 0 (size_of h - 1)"
  obtains h' where "items_Pop h = Some (last (pq h), h')" "drops h (last (pq h)) h'"
proof -
  define h' where "h' = (set_item_index h (last (pq h)) (-1))\<lparr>pq := butlast (pq h)\<rparr>"
  have pq': "pq h' = butlast (pq h)" by (simp add: h'_def)
  have d: "distinct (butlast (pq h) @ [last (pq h)])"
    using ok ne by (simp add: positions_ok_def)
  have at: "butlast (pq h) ! k = pq h ! k" if "k < size_of h - 1" for k
    using that by (simp add: nth_butlast)
  have "positions_ok h'"
    unfolding positions_ok_def
  proof (intro conjI allI impI)
    show "distinct (pq h')" using d by (simp add: pq')
    fix k assume k: "k < size_of h'"
    then have "pq h' ! k \<in> set (butlast (pq h))" unfolding pq' by (rule nth_mem)
    then have "pq h' ! k \<noteq> last (pq h)" using d by auto
    then show "item_index (item_at h' (pq h' ! k)) = int k"
      using ok k by (simp add: pq' h'_def set_item_index_def at positions_ok_def)
  qed
  moreover have "heap_from h' 0 (size_of h')"
    using heap by (auto simp: heap_from_def ordered_at_def key_def pq' at h'_def set_item_index_def)
  moreover have "mset (pq h) = add_mset (last (pq h)) (mset (pq h'))"
    using ne by (metis append_butlast_last_id mset.simps(2) mset_append pq' add_mset_add_single mset.simps(1))
  moreover have "same_contents h h'"
    by (simp add: same_contents_def h'_def set_item_index_def)
  moreover have "items_Pop h = Some (last (pq h), h')"
    using ne by (simp add: items_Pop_def Let_def h'_def)
  ultimately show ?thesis using that by (simp add: drops_def)
qed

lemma positions_ok_same: "same_items h h' \<Longrightarrow> positions_ok h \<Longrightarrow> positions_ok h'"
  by (simp add: same_items_def)

lemma heap_from_weaken: "heap_from h 0 n \<Longrightarrow> m \<le> n \<Longrightarrow> heap_from h 0 m"
  by (auto simp: heap_from_def)

lemma heap_Pop_drops:
  assumes ok: "positions_ok h" and ne: "pq h \<noteq> []" and heap: "heap_from h 0 (size_of h)"
  obtains h' where "heap_Pop h = Some (pq h ! 0, h')" "drops h (pq h ! 0) h'"
proof -
  define n where "n = size_of h - 1"
  have n: "0 < size_of h" "n < size_of h" "size_of h = Suc n" using ne by (auto simp: n_def)
  define h1 where "h1 = items_Swap h 0 n"
  define h2 where "h2 = fst (heap_down h1 0 n)"
  have s1: "same_items h h1" unfolding h1_def by (rule same_items_Swap) (use n in auto)
  then have size1: "size_of h1 = Suc n" using same_items_size n by metis
  have s2: "same_items h1 h2" unfolding h2_def by (rule same_items_down) (use size1 in auto)
  then have size2: "size_of h2 = Suc n" using same_items_size size1 by metis
  have "broken_below h1 0 0 n"
    using heap key_items_Swap [of 0 h n] n
    by (auto simp: broken_below_def h1_def heap_from_def ordered_at_def)
  then have "heap_from h2 0 n"
    unfolding h2_def by (rule heap_down_order) (use size1 in auto)
  moreover have "last (pq h2) = pq h ! 0"
  proof (cases "n = 0")
    case True
    then have "h2 = h1" by (simp add: h2_def heap_down.simps [of h1 0 0])
    with True n show ?thesis by (cases "pq h") (auto simp: h1_def)
  next
    case False
    have "pq h2 ! n = pq h1 ! n"
      unfolding h2_def by (rule heap_down_above) (use size1 False in auto)
    then have "pq h2 ! n = pq h ! 0" using n by (simp add: h1_def)
    moreover have "pq h2 \<noteq> []" using size2 by auto
    ultimately show ?thesis using size2 by (simp add: last_conv_nth)
  qed
  moreover have "positions_ok h2" using ok s1 s2 by (blast intro: positions_ok_same)
  moreover have "pq h2 \<noteq> []" using size2 by auto
  ultimately obtain h' where "items_Pop h2 = Some (pq h ! 0, h')" "drops h2 (pq h ! 0) h'"
    using items_Pop_drops [of h2] size2 by auto
  moreover have "heap_Pop h = items_Pop h2"
    unfolding h2_def h1_def n_def using ne
    by (simp add: heap_Pop_def items_Len_def Let_def case_prod_unfold)
  ultimately show ?thesis using that s1 s2 by (metis drops_same_items)
qed

lemma heap_up_above: "j < m \<Longrightarrow> pq (heap_up h j) ! m = pq h ! m"
proof (induction h j rule: heap_up.induct)
  case (1 h j)
  define i where "i = (j - 1) div 2"
  show ?case
  proof (cases "i = j \<or> \<not> items_Less h j i")
    case True
    then show ?thesis by (simp add: heap_up.simps [of h j] i_def Let_def)
  next
    case False
    have "i < m" using 1(2) by (simp add: i_def)
    with 1(1) [OF i_def False] 1(2) have "pq (heap_up (items_Swap h i j) i) ! m = pq h ! m"
      by simp
    with False show ?thesis by (simp add: heap_up.simps [of h j] i_def Let_def)
  qed
qed

lemma heap_from_broken_above: "heap_from h 0 n \<Longrightarrow> broken_above h j n"
proof -
  assume heap: "heap_from h 0 n"
  have "key h (parent j) \<le> key h k" if k: "0 < k" "k < n" "parent k = j" "0 < j" for k
  proof -
    have "j < n" using k(1-3) by arith
    then have "key h (parent j) \<le> key h j" using heap k(4) by (simp add: heap_from_def ordered_at_def)
    also have "ordered_at h k" using heap k by (simp add: heap_from_def)
    then have "key h j \<le> key h k" unfolding ordered_at_def k(3) .
    finally show ?thesis .
  qed
  with heap show ?thesis by (simp add: broken_above_def heap_from_def)
qed

text \<open>
  After the swap of \<open>Remove\<close> the item at \<open>k\<close> may be too late (then \<open>down\<close> moves it) or too
  early (then \<open>down\<close> stays and \<open>up\<close> moves it); the order holds again in both cases.
\<close>

lemma heap_Remove_order:
  assumes heap: "heap_from h 0 (Suc n)" and size: "size_of h = Suc n" and k: "k < n"
  defines "h1 \<equiv> items_Swap h k n"
  defines "d \<equiv> heap_down h1 k n"
  shows "heap_from (if k < snd d then fst d else heap_up (fst d) k) 0 n"
proof -
  have kn: "k < size_of h" "n < size_of h" using size k by auto
  have key1: "m < n \<Longrightarrow> key h1 m = (if m = k then key h n else key h m)" for m
    using key_items_Swap [OF kn] by (simp add: h1_def)
  have size1: "n \<le> size_of h1" using size by (simp add: h1_def)
  have ord: "ordered_at h m" if "0 < m" "m < n" for m
    using heap that by (simp add: heap_from_def)
  have child: "key h1 (parent k) \<le> key h1 c" if c: "0 < c" "c < n" "parent c = k" "0 < k" for c
  proof -
    have "key h (parent k) \<le> key h k" using ord [OF c(4) k] by (simp add: ordered_at_def)
    also have "key h k \<le> key h c" using ord [OF c(1,2)] unfolding ordered_at_def c(3) .
    finally have le: "key h (parent k) \<le> key h c" .
    have ne: "parent k < n" "parent k \<noteq> k" "c \<noteq> k" using c k by arith+
    then show ?thesis unfolding key1 [OF ne(1)] key1 [OF c(2)] using le by simp
  qed
  have rest: "ordered_at h1 m" if m: "0 < m" "m < n" "m \<noteq> k" "parent m \<noteq> k" for m
    using ord [OF m(1,2)] m by (auto simp: ordered_at_def key1)
  show ?thesis
  proof (cases "0 < k \<longrightarrow> ordered_at h1 k")
    case True
    have "broken_below h1 0 k n"
      unfolding broken_below_def using True rest child by blast
    then have "heap_from (fst d) 0 n"
      unfolding d_def by (rule heap_down_order) (use size1 in auto)
    moreover have "size_of (fst d) = size_of h1"
      unfolding d_def by (rule same_items_size, rule same_items_down) (use size1 k in auto)
    ultimately show ?thesis
      using k size1 by (auto intro!: heap_up_order heap_from_broken_above)
  next
    case False
    then have early: "0 < k" "key h1 k < key h1 (parent k)" by (auto simp: ordered_at_def)
    have stay: "\<not> items_Less h1 c k" if "0 < c" "c < n" "parent c = k" for c
      using child [OF that early(1)] early(2) by (simp add: items_Less_key)
    have "d = (h1, k)"
      unfolding d_def using stay [of "2 * k + 1"] stay [of "2 * k + 1 + 1"]
      by (auto simp: heap_down.simps [of h1 k n] Let_def)
    moreover have "broken_above h1 k n"
      unfolding broken_above_def
    proof (intro conjI allI impI)
      fix m assume m: "0 < m \<and> m < n \<and> m \<noteq> k"
      show "ordered_at h1 m"
      proof (cases "parent m = k")
        case True
        with child [of m] m early show ?thesis by (auto simp: ordered_at_def)
      qed (use m rest in blast)
    qed (use child in blast)
    ultimately show ?thesis using k size1 by (auto intro: heap_up_order)
  qed
qed

lemma heap_Remove_drops:
  assumes ok: "positions_ok h" and heap: "heap_from h 0 (size_of h)" and k: "k < size_of h"
  obtains h' where "heap_Remove h (int k) = Some (pq h ! k, h')" "drops h (pq h ! k) h'"
proof -
  define n where "n = size_of h - 1"
  have size: "size_of h = Suc n" and ne: "pq h \<noteq> []" using k by (auto simp: n_def)
  show ?thesis
  proof (cases "k = n")
    case True
    have "heap_from h 0 (size_of h - 1)" using heap by (rule heap_from_weaken) simp
    then obtain h' where "items_Pop h = Some (last (pq h), h')" "drops h (last (pq h)) h'"
      using items_Pop_drops [OF ok ne] by metis
    moreover have "last (pq h) = pq h ! k" using ne size True by (simp add: last_conv_nth)
    moreover have "heap_Remove h (int k) = items_Pop h"
      using k True size by (simp add: heap_Remove_def items_Len_def)
    ultimately show ?thesis using that by auto
  next
    case False
    then have kn: "k < n" using k size by simp
    define h1 where "h1 = items_Swap h k n"
    define d where "d = heap_down h1 k n"
    define h2 where "h2 = (if k < snd d then fst d else heap_up (fst d) k)"
    have s1: "same_items h h1" unfolding h1_def by (rule same_items_Swap) (use kn size in auto)
    then have size1: "size_of h1 = Suc n" using same_items_size size by metis
    have sd: "same_items h1 (fst d)"
      unfolding d_def by (rule same_items_down) (use size1 kn in auto)
    then have sized: "size_of (fst d) = Suc n" using same_items_size size1 by metis
    have "same_items (fst d) h2"
      using same_items_up [of k "fst d"] sized kn by (auto simp: h2_def)
    then have s2: "same_items h h2" using s1 sd by (blast intro: same_items_trans)
    then have size2: "size_of h2 = Suc n" using same_items_size size by metis
    have "pq (fst d) ! n = pq h1 ! n"
      unfolding d_def by (rule heap_down_above) (use size1 kn in auto)
    moreover have "pq h1 ! n = pq h ! k" using size kn by (simp add: h1_def)
    ultimately have "pq h2 ! n = pq h ! k" using kn by (simp add: h2_def heap_up_above)
    moreover have ne2: "pq h2 \<noteq> []" using size2 by auto
    ultimately have last2: "last (pq h2) = pq h ! k" using size2 by (simp add: last_conv_nth)
    have "heap_from h2 0 (size_of h2 - 1)"
      using heap_Remove_order [of h n k] heap size kn size2
      unfolding h2_def d_def h1_def by simp
    then obtain h' where "items_Pop h2 = Some (pq h ! k, h')" "drops h2 (pq h ! k) h'"
      using items_Pop_drops [of h2] positions_ok_same [OF s2 ok] ne2 last2 by metis
    moreover have "heap_Remove h (int k) = items_Pop h2"
      unfolding h2_def d_def h1_def n_def using k False [unfolded n_def]
      by (simp add: heap_Remove_def items_Len_def Let_def case_prod_unfold)
    ultimately show ?thesis using that drops_same_items [OF s2] by metis
  qed
qed

section \<open>Building a heap from a slice\<close>

lemma heap_Init_loop_heap:
  "heap_from h i n \<Longrightarrow> n \<le> size_of h \<Longrightarrow> i \<le> n \<Longrightarrow>
    heap_from (heap_Init_loop h i n) 0 n \<and> same_items h (heap_Init_loop h i n)"
proof (induction i arbitrary: h)
  case 0
  then show ?case by simp
next
  case (Suc i)
  let ?h = "fst (heap_down h i n)"
  have "broken_below h i i n"
    using Suc.prems(1) by (auto simp: broken_below_def heap_from_def)
  then have "heap_from ?h i n" using Suc.prems(2) by (intro heap_down_order) auto
  moreover have same: "same_items h ?h" using Suc.prems by (intro same_items_down) auto
  ultimately have "heap_from (heap_Init_loop ?h i n) 0 n \<and> same_items ?h (heap_Init_loop ?h i n)"
    using Suc.IH [of ?h] Suc.prems same_items_size [OF same] by simp
  with same show ?case by (auto intro: same_items_trans)
qed

lemma heap_Init_heap: "heap_from (heap_Init h) 0 (size_of h) \<and> same_items h (heap_Init h)"
  unfolding heap_Init_def items_Len_def
  by (rule heap_Init_loop_heap) (auto simp: heap_from_def)

section \<open>The invariant and what the list holds\<close>

definition task_at :: "task_list \<Rightarrow> ref \<Rightarrow> task" where
  "task_at h r = item_task (item_at h r)"

definition tasks_in :: "task_list \<Rightarrow> task multiset" where
  "tasks_in h = image_mset (task_at h) (mset (pq h))"

definition wf_list :: "task_list \<Rightarrow> bool" where
  "wf_list h \<longleftrightarrow> positions_ok h \<and> heap_from h 0 (size_of h) \<and>
     (\<forall>r \<in> set (pq h). r < next_ref h \<and> priority (item_at h r) = exec_time (task_at h r)) \<and>
     (\<forall>i r. id_index h i = Some r \<longrightarrow> r \<in> set (pq h) \<and> task_id (task_at h r) = i)"

definition all_indexed :: "task_list \<Rightarrow> bool" where
  "all_indexed h \<longleftrightarrow> (\<forall>r \<in> set (pq h). id_index h (task_id (task_at h r)) = Some r)"

lemma task_at_same: "same_contents h h' \<Longrightarrow> task_at h' = task_at h"
  by (auto simp: same_contents_def task_at_def)

lemma drops_set: "drops h r h' \<Longrightarrow> positions_ok h \<Longrightarrow> set (pq h') = set (pq h) - {r}"
proof -
  assume d: "drops h r h'" and ok: "positions_ok h"
  then have eq: "mset (pq h) = mset (r # pq h')" by (simp add: drops_def)
  then have "distinct (r # pq h')"
    using ok mset_eq_imp_distinct_iff unfolding positions_ok_def by blast
  with mset_eq_setD [OF eq] show ?thesis by auto
qed

text \<open>Dropping an item and its index entry, as \<open>Take\<close> and \<open>DeleteIfExist\<close> do.\<close>

lemma drops_wf:
  assumes wf: "wf_list h" and d: "drops h r h'"
    and id: "i = task_id (task_at h r)"
  defines "h2 \<equiv> h'\<lparr>id_index := (id_index h')(i := None)\<rparr>"
  shows "wf_list h2" "tasks_in h = add_mset (task_at h r) (tasks_in h2)"
proof -
  have set: "set (pq h') = set (pq h) - {r}"
    using drops_set [OF d] wf by (simp add: wf_list_def)
  have c: "task_at h2 = task_at h" "priority (item_at h' q) = priority (item_at h q)"
    "next_ref h' = next_ref h" "id_index h' = id_index h" for q
    using d by (auto simp: h2_def drops_def same_contents_def task_at_def)
  have "positions_ok h2" "heap_from h2 0 (size_of h2)"
    using d by (auto simp: drops_def h2_def positions_ok_def heap_from_def ordered_at_def key_def)
  with wf set c id show "wf_list h2"
    by (auto simp: wf_list_def h2_def split: if_splits)
  show "tasks_in h = add_mset (task_at h r) (tasks_in h2)"
    using d c by (simp add: tasks_in_def drops_def h2_def)
qed

lemma drops_indexed:
  assumes wf: "wf_list h" and d: "drops h r h'" and r: "r \<in> set (pq h)" and all: "all_indexed h"
    and id: "i = task_id (task_at h r)"
  shows "all_indexed (h'\<lparr>id_index := (id_index h')(i := None)\<rparr>)"
proof -
  have set: "set (pq h') = set (pq h) - {r}"
    using drops_set [OF d] wf by (simp add: wf_list_def)
  have c: "task_at h' = task_at h" "id_index h' = id_index h"
    using d by (auto simp: drops_def same_contents_def task_at_def)
  have "task_id (task_at h q) \<noteq> i" if "q \<in> set (pq h)" "q \<noteq> r" for q
    using all that r id unfolding all_indexed_def by (metis option.inject)
  moreover have "task_at (h'\<lparr>id_index := (id_index h')(i := None)\<rparr>) = task_at h"
    using c by (auto simp: task_at_def fun_eq_iff)
  ultimately show ?thesis
    using set c all by (auto simp: all_indexed_def)
qed

lemma positions_refs:
  assumes "wf_list h" "r \<in> set (pq h)"
  obtains k where "k < size_of h" "pq h ! k = r" "item_index (item_at h r) = int k"
  using assms by (auto simp: wf_list_def positions_ok_def in_set_conv_nth)

section \<open>The operations\<close>

lemma items_Push_ok:
  assumes "positions_ok h" "heap_from h 0 (size_of h)" "r \<notin> set (pq h)"
  defines "h1 \<equiv> items_Push h r"
  shows "positions_ok h1" "broken_above h1 (size_of h) (Suc (size_of h))"
    "pq h1 = pq h @ [r]" "same_contents h h1"
proof -
  show pq1: "pq h1 = pq h @ [r]" by (simp add: h1_def items_Push_def Let_def)
  show "same_contents h h1"
    by (simp add: h1_def items_Push_def Let_def same_contents_def set_item_index_def)
  have ix: "item_index (item_at h1 q) = (if q = r then int (size_of h) else item_index (item_at h q))" for q
    by (simp add: h1_def items_Push_def Let_def set_item_index_def)
  have key1: "k < size_of h \<Longrightarrow> key h1 k = key h k" for k
    by (simp add: key_def pq1 nth_append) (simp add: h1_def items_Push_def Let_def set_item_index_def)
  show "positions_ok h1"
    unfolding positions_ok_def
  proof (intro conjI allI impI)
    show "distinct (pq h1)" using assms(1,3) by (simp add: pq1 positions_ok_def)
    fix k assume "k < size_of h1"
    then consider "k < size_of h" "pq h ! k \<noteq> r" | "k = size_of h"
      using assms(3) nth_mem by (auto simp: pq1 less_Suc_eq)
    then show "item_index (item_at h1 (pq h1 ! k)) = int k"
      using assms(1) by cases (simp_all add: ix pq1 nth_append positions_ok_def)
  qed
  have "ordered_at h1 k" if "0 < k" "k < size_of h" for k
  proof -
    have "key h (parent k) \<le> key h k"
      using assms(2) that by (simp add: heap_from_def ordered_at_def)
    moreover have "parent k < size_of h" using that by arith
    ultimately show ?thesis using that(2) by (simp only: ordered_at_def key1)
  qed
  moreover have "parent k \<noteq> size_of h" if "0 < k" "k < Suc (size_of h)" for k
    using that by arith
  ultimately show "broken_above h1 (size_of h) (Suc (size_of h))"
    by (auto simp: broken_above_def less_Suc_eq)
qed

lemma heap_Push_ok:
  assumes "positions_ok h" "heap_from h 0 (size_of h)" "r \<notin> set (pq h)"
  defines "h' \<equiv> heap_Push h r"
  shows "positions_ok h'" "heap_from h' 0 (size_of h')" "mset (pq h') = add_mset r (mset (pq h))"
    "same_contents h h'"
proof -
  define h1 where "h1 = items_Push h r"
  note push = items_Push_ok [OF assms(1-3), folded h1_def]
  have h': "h' = heap_up h1 (size_of h)"
    by (simp add: h'_def heap_Push_def items_Len_def push(3) flip: h1_def)
  have same: "same_items h1 h'" unfolding h' by (rule same_items_up) (simp add: push)
  then show "positions_ok h'" using push(1) by (rule positions_ok_same)
  have "heap_from h' 0 (Suc (size_of h))"
    unfolding h' by (rule heap_up_order [OF push(2)]) (simp_all add: push)
  then show "heap_from h' 0 (size_of h')"
    using same_items_size [OF same] by (simp add: push)
  show "mset (pq h') = add_mset r (mset (pq h))"
    using same by (simp add: same_items_def push)
  show "same_contents h h'"
    using same_items_contents [OF same] push(4) by (simp add: same_contents_def)
qed

lemma Add_facts:
  assumes wf: "wf_list h"
  shows "wf_list (Add h t)" "tasks_in (Add h t) = add_mset t (tasks_in h)"
    "all_indexed h \<Longrightarrow> task_id t \<notin> ids (tasks_in h) \<Longrightarrow> all_indexed (Add h t)"
proof -
  define r where "r = next_ref h"
  define h1 where "h1 = snd (new_item h \<lparr>item_task = t, priority = exec_time t, item_index = 0\<rparr>)"
  define h2 where "h2 = heap_Push h1 r"
  have add: "Add h t = h2\<lparr>id_index := (id_index h2)(task_id t \<mapsto> r)\<rparr>"
    by (simp add: Add_def new_item_def h1_def h2_def r_def Let_def)
  have fresh: "r \<notin> set (pq h)" using wf by (auto simp: wf_list_def r_def)
  have h1: "pq h1 = pq h" "next_ref h1 = Suc r" "id_index h1 = id_index h"
    "item_at h1 = (item_at h)(r := \<lparr>item_task = t, priority = exec_time t, item_index = 0\<rparr>)"
    by (simp_all add: h1_def new_item_def r_def)
  have at: "q \<in> set (pq h) \<Longrightarrow> item_at h1 q = item_at h q" for q
    using fresh by (auto simp: h1)
  have atk: "k < size_of h \<Longrightarrow> item_at h1 (pq h ! k) = item_at h (pq h ! k)" for k
    by (simp add: at)
  have pos1: "positions_ok h1" using wf by (simp add: positions_ok_def wf_list_def h1(1) atk)
  have key1: "key h1 k = key h k" if "k < size_of h" for k
    using that by (simp add: key_def h1(1) atk)
  have heap1: "heap_from h1 0 (size_of h1)"
    unfolding heap_from_def ordered_at_def
  proof (intro allI impI)
    fix k assume "0 < k \<and> k < size_of h1 \<and> 0 \<le> parent k"
    then have k: "0 < k" "k < size_of h" "parent k < size_of h" using h1(1) by auto
    have "key h (parent k) \<le> key h k"
      using wf k by (simp add: wf_list_def heap_from_def ordered_at_def)
    then show "key h1 (parent k) \<le> key h1 k" unfolding key1 [OF k(2)] key1 [OF k(3)] .
  qed
  have "r \<notin> set (pq h1)" using fresh h1 by simp
  note push = heap_Push_ok [OF pos1 heap1 this, folded h2_def]
  have c: "task_at h2 q = (if q = r then t else task_at h q)"
    "priority (item_at h2 q) = (if q = r then exec_time t else priority (item_at h q))"
    "next_ref h2 = Suc r" "id_index h2 = id_index h" for q
    using push(4) h1 by (auto simp: same_contents_def task_at_def)
  have set2: "set (pq h2) = insert r (set (pq h))"
    using push(3) h1 by (metis set_mset_mset set_mset_add_mset_insert)
  have at2: "task_at (Add h t) = task_at h2" by (auto simp: add task_at_def)
  have "positions_ok (Add h t)" "heap_from (Add h t) 0 (size_of (Add h t))"
    using push(1,2) by (auto simp: add positions_ok_def heap_from_def ordered_at_def key_def)
  then show "wf_list (Add h t)"
    using wf c set2 fresh at2
    by (auto simp: wf_list_def add r_def less_SucI task_at_def split: if_splits)
  have "image_mset (task_at h2) (mset (pq h)) = image_mset (task_at h) (mset (pq h))"
    using fresh by (intro image_mset_cong) (auto simp: c)
  then show "tasks_in (Add h t) = add_mset t (tasks_in h)"
    unfolding tasks_in_def at2 by (simp add: add push(3) h1 c)
  show "all_indexed (Add h t)" if "all_indexed h" "task_id t \<notin> ids (tasks_in h)"
    unfolding all_indexed_def at2
  proof
    fix q assume "q \<in> set (pq (Add h t))"
    then have "q = r \<or> q \<noteq> r \<and> q \<in> set (pq h)" using set2 fresh by (auto simp: add)
    moreover have "task_id (task_at h q) \<noteq> task_id t" if "q \<in> set (pq h)"
      using that \<open>task_id t \<notin> _\<close> by (auto simp: ids_def tasks_in_def image_iff)
    ultimately show "id_index (Add h t) (task_id (task_at h2 q)) = Some q"
      using \<open>all_indexed h\<close> by (auto simp: add c all_indexed_def)
  qed
qed

lemma Take_empty: "pq h = [] \<Longrightarrow> Take h = Some (None, h)"
  by (simp add: Take_def items_Len_def)

lemma Take_facts:
  assumes wf: "wf_list h" and ne: "pq h \<noteq> []"
  obtains t h' where "Take h = Some (Some t, h')" "wf_list h'"
    "tasks_in h = add_mset t (tasks_in h')" "\<forall>u \<in># tasks_in h. exec_time t \<le> exec_time u"
    "all_indexed h \<Longrightarrow> all_indexed h'"
proof -
  define r where "r = pq h ! 0"
  have r: "r \<in> set (pq h)" using ne by (simp add: r_def)
  from wf ne obtain h1 where pop: "heap_Pop h = Some (r, h1)" and d: "drops h r h1"
    unfolding wf_list_def r_def by (blast elim: heap_Pop_drops)
  define t where "t = task_at h r"
  define h' where "h' = h1\<lparr>id_index := (id_index h1)(task_id t := None)\<rparr>"
  have "item_task (item_at h1 r) = t"
    using d by (simp add: t_def task_at_def drops_def same_contents_def)
  then have "Take h = Some (Some t, h')"
    using ne by (simp add: Take_def items_Len_def pop h'_def Let_def)
  moreover have "wf_list h'" "tasks_in h = add_mset t (tasks_in h')"
    using drops_wf [OF wf d refl] by (simp_all add: h'_def t_def)
  moreover have "exec_time t \<le> exec_time u" if "u \<in># tasks_in h" for u
  proof -
    from that obtain k where k: "k < size_of h" "u = task_at h (pq h ! k)"
      by (auto simp: tasks_in_def in_set_conv_nth)
    have "key h 0 \<le> key h k"
      using heap_root_min [OF _ k(1)] wf by (simp add: wf_list_def)
    with wf k r show ?thesis by (simp add: key_def wf_list_def r_def t_def)
  qed
  moreover have "all_indexed h \<Longrightarrow> all_indexed h'"
    using drops_indexed [OF wf d r _ refl] by (simp add: h'_def t_def)
  ultimately show ?thesis using that by blast
qed

lemma DeleteIfExist_facts:
  assumes wf: "wf_list h"
  obtains b h' where "DeleteIfExist h tid = Some (b, h')" "wf_list h'"
    "b \<longleftrightarrow> id_index h tid \<noteq> None"
    "if b then \<exists>t. task_id t = tid \<and> tasks_in h = add_mset t (tasks_in h') else h' = h"
    "all_indexed h \<Longrightarrow> all_indexed h'"
proof (cases "id_index h tid")
  case None
  then show ?thesis using that [of False h] wf by (simp add: DeleteIfExist_def)
next
  case (Some r)
  then have r: "r \<in> set (pq h)" "task_id (task_at h r) = tid" using wf by (auto simp: wf_list_def)
  from wf r(1) obtain k where k: "k < size_of h" "pq h ! k = r" "item_index (item_at h r) = int k"
    by (rule positions_refs)
  from wf k obtain h1 where rem: "heap_Remove h (int k) = Some (r, h1)" and d: "drops h r h1"
    unfolding wf_list_def by (metis heap_Remove_drops)
  define h' where "h' = h1\<lparr>id_index := (id_index h1)(tid := None)\<rparr>"
  have "DeleteIfExist h tid = Some (True, h')"
    by (simp add: DeleteIfExist_def Some k(3) rem h'_def)
  moreover have "wf_list h'" "tasks_in h = add_mset (task_at h r) (tasks_in h')"
    using drops_wf [OF wf d r(2) [symmetric]] by (simp_all add: h'_def)
  moreover have "all_indexed h \<Longrightarrow> all_indexed h'"
    using drops_indexed [OF wf d r(1) _ r(2) [symmetric]] by (simp add: h'_def)
  ultimately show ?thesis using that [of True h'] Some r(2) by auto
qed

lemma all_indexed_unique:
  assumes wf: "wf_list h" and all: "all_indexed h" and eq: "tasks_in h = add_mset t M"
  shows "task_id t \<notin> ids M"
proof
  assume "task_id t \<in> ids M"
  then obtain u M' where M: "M = add_mset u M'" and u: "task_id u = task_id t"
    by (auto simp: ids_def dest: multi_member_split)
  have "inj_on (\<lambda>r. task_id (task_at h r)) (set (pq h))"
    using all by (intro inj_onI) (metis all_indexed_def option.inject)
  then have "distinct (map (\<lambda>r. task_id (task_at h r)) (pq h))"
    using wf by (simp add: distinct_map wf_list_def positions_ok_def)
  then have "count (image_mset task_id (tasks_in h)) (task_id t) \<le> 1"
    by (simp add: tasks_in_def image_mset.compositionality comp_def distinct_count_atmost_1
        flip: mset_map split: if_splits)
  with u show False by (simp add: eq M)
qed

text \<open>
  \<open>NewPrioritizedTask\<close> with any slice, repeated ids included: the loop fills the slice in order,
  then \<open>heap.Init\<close> orders it.
\<close>

definition filled :: "task_list \<Rightarrow> nat \<Rightarrow> task list \<Rightarrow> bool" where
  "filled h i ts \<longleftrightarrow> positions_ok h \<and> size_of h = i \<and> map (task_at h) (pq h) = ts \<and>
     (\<forall>r \<in> set (pq h). r < next_ref h \<and> priority (item_at h r) = exec_time (task_at h r)) \<and>
     (\<forall>i r. id_index h i = Some r \<longrightarrow> r \<in> set (pq h) \<and> task_id (task_at h r) = i)"

lemma filled_append_task:
  assumes f: "filled h i ts"
  shows "filled (append_task h i t) (Suc i) (ts @ [t])"
proof -
  let ?h = "append_task h i t" and ?r = "next_ref h"
  have h: "pq ?h = pq h @ [?r]" "next_ref ?h = Suc ?r"
    "id_index ?h = (id_index h)(task_id t \<mapsto> ?r)"
    "item_at ?h = (item_at h)(?r := \<lparr>item_task = t, priority = exec_time t, item_index = int i\<rparr>)"
    by (simp_all add: append_task_def new_item_def)
  have fresh: "?r \<notin> set (pq h)" using f by (auto simp: filled_def)
  have len: "size_of h = i" using f by (simp add: filled_def)
  have at: "q \<in> set (pq h) \<Longrightarrow> item_at ?h q = item_at h q" for q using fresh by (auto simp: h(4))
  have "positions_ok ?h"
    unfolding positions_ok_def
  proof (intro conjI allI impI)
    show "distinct (pq ?h)" using f fresh by (simp add: h filled_def positions_ok_def)
    fix k assume "k < size_of ?h"
    then have "k < i \<or> k = i" by (auto simp: h len)
    then show "item_index (item_at ?h (pq ?h ! k)) = int k"
    proof
      assume k: "k < i"
      then have "pq ?h ! k = pq h ! k" "pq h ! k \<in> set (pq h)" by (simp_all add: h len nth_append)
      with at k f len show ?thesis by (simp add: filled_def positions_ok_def)
    next
      assume "k = i"
      then have "pq ?h ! k = ?r" using len by (auto simp: h(1) nth_append)
      with \<open>k = i\<close> show ?thesis by (simp add: h)
    qed
  qed
  moreover have "task_at ?h q = (if q = ?r then t else task_at h q)"
    "priority (item_at ?h q) = (if q = ?r then exec_time t else priority (item_at h q))" for q
    by (simp_all add: task_at_def h(4))
  ultimately show ?thesis
    using f fresh by (auto simp: filled_def h(1-3) less_SucI)
qed

lemma filled_append_tasks:
  "filled h i us \<Longrightarrow> filled (append_tasks h i ts) (i + length ts) (us @ ts)"
proof (induction ts arbitrary: h i us)
  case (Cons t ts)
  from Cons.IH [OF filled_append_task [OF Cons.prems, of t]] show ?case by simp
qed simp

lemma NewPrioritizedTask_facts:
  "wf_list (NewPrioritizedTask ts)" "tasks_in (NewPrioritizedTask ts) = mset ts"
proof -
  let ?h = "append_tasks empty_task_list 0 ts"
  have "filled empty_task_list 0 []"
    by (simp add: filled_def positions_ok_def empty_task_list_def)
  from filled_append_tasks [OF this, of ts] have f: "filled ?h (length ts) ts" by simp
  have init: "heap_from (heap_Init ?h) 0 (size_of ?h)" "same_items ?h (heap_Init ?h)"
    using heap_Init_heap by auto
  have set: "set (pq (heap_Init ?h)) = set (pq ?h)"
    using init(2) by (metis same_items_def set_mset_mset)
  have at: "task_at (heap_Init ?h) = task_at ?h"
    using init(2) by (intro task_at_same same_items_contents)
  show "wf_list (NewPrioritizedTask ts)"
    using f init set at same_items_size [OF init(2)]
    by (simp add: NewPrioritizedTask_def wf_list_def filled_def same_items_def)
  have "mset (pq (heap_Init ?h)) = mset (pq ?h)" using init(2) by (simp add: same_items_def)
  moreover have "map (task_at ?h) (pq ?h) = ts" using f by (simp add: filled_def)
  ultimately show "tasks_in (NewPrioritizedTask ts) = mset ts"
    unfolding tasks_in_def at NewPrioritizedTask_def by (metis mset_map)
qed

lemma NewPrioritizedTask_nil: "NewPrioritizedTask [] = empty_task_list"
  by (simp add: NewPrioritizedTask_def heap_Init_def items_Len_def empty_task_list_def)

lemma wf_empty [simp]: "wf_list empty_task_list" "tasks_in empty_task_list = {#}"
  "all_indexed empty_task_list" "pq empty_task_list = []"
  by (simp_all add: wf_list_def positions_ok_def heap_from_def tasks_in_def all_indexed_def
      empty_task_list_def)

section \<open>The heap implements the interface\<close>

definition heap_ops :: "task_list task_list_ops" where
  "heap_ops = \<lparr>op_Len = Len, op_Add = Add, op_Take = Take, op_DeleteIfExist = DeleteIfExist\<rparr>"

lemma heap_ops_simps [simp]:
  "op_Len heap_ops = Len" "op_Add heap_ops = Add" "op_Take heap_ops = Take"
  "op_DeleteIfExist heap_ops = DeleteIfExist"
  by (simp_all add: heap_ops_def)

lemma tasks_in_empty_iff: "tasks_in h = {#} \<longleftrightarrow> pq h = []"
  by (simp add: tasks_in_def)

interpretation heap_list: prioritized_task_list heap_ops wf_list tasks_in
proof unfold_locales
  fix h t tid assume wf: "wf_list h"
  show "op_Len heap_ops h = size (tasks_in h)"
    by (simp add: Len_def items_Len_def tasks_in_def)
  show "wf_list (op_Add heap_ops h t)" "tasks_in (op_Add heap_ops h t) = add_mset t (tasks_in h)"
    using Add_facts [OF wf] by simp_all
  show "tasks_in h = {#} \<Longrightarrow> op_Take heap_ops h = Some (None, h)"
    by (simp add: tasks_in_empty_iff Take_empty)
  show "\<exists>t h'. op_Take heap_ops h = Some (Some t, h') \<and> wf_list h' \<and>
      tasks_in h = add_mset t (tasks_in h') \<and> (\<forall>u \<in># tasks_in h'. exec_time t \<le> exec_time u)"
    if "tasks_in h \<noteq> {#}"
  proof -
    from that have "pq h \<noteq> []" by (simp add: tasks_in_empty_iff)
    with wf obtain t h' where "Take h = Some (Some t, h')" "wf_list h'"
      "tasks_in h = add_mset t (tasks_in h')" "\<forall>u \<in># tasks_in h. exec_time t \<le> exec_time u"
      by (rule Take_facts)
    then show ?thesis by (intro exI [of _ t] exI [of _ h']) simp
  qed
  show "\<exists>b h'. op_DeleteIfExist heap_ops h tid = Some (b, h') \<and> wf_list h' \<and>
      (if b then \<exists>t. task_id t = tid \<and> tasks_in h = add_mset t (tasks_in h') else h' = h)"
    using DeleteIfExist_facts [OF wf, of tid] by (metis heap_ops_simps(4))
qed

interpretation heap_index: indexed_task_list heap_ops wf_list tasks_in all_indexed
proof unfold_locales
  fix h t x h' tid b M assume wf: "wf_list h" and all: "all_indexed h"
  show "task_id t \<notin> ids (tasks_in h) \<Longrightarrow> all_indexed (op_Add heap_ops h t)"
    using Add_facts(3) [OF wf all] by simp
  show "all_indexed h'" if "op_Take heap_ops h = Some (x, h')"
  proof (cases "pq h = []")
    case True
    with that all show ?thesis by (simp add: Take_empty)
  next
    case False
    have "all_indexed h2" if "Take h = Some (y, h2)" for y h2
      using Take_facts [OF wf False] that all by (metis option.inject prod.inject)
    with that show ?thesis by simp
  qed
  show "tasks_in h = add_mset t M \<Longrightarrow> task_id t \<notin> ids M"
    using wf all by (rule all_indexed_unique)
  show "all_indexed h' \<and> tasks_in h' = without tid (tasks_in h) \<and> (b \<longleftrightarrow> tid \<in> ids (tasks_in h))"
    if del: "op_DeleteIfExist heap_ops h tid = Some (b, h')"
  proof -
    have c: "all_indexed h'" "b \<longleftrightarrow> id_index h tid \<noteq> None"
      "if b then \<exists>t. task_id t = tid \<and> tasks_in h = add_mset t (tasks_in h') else h' = h"
      using DeleteIfExist_facts [OF wf, of tid] del all
      by (metis heap_ops_simps(4) option.inject prod.inject)+
    show ?thesis
    proof (cases b)
      case True
      with c obtain t where t: "task_id t = tid" "tasks_in h = add_mset t (tasks_in h')" by auto
      with all_indexed_unique [OF wf all t(2)] True c show ?thesis by (simp add: without_id)
    next
      case False
      then have "tid \<notin> ids (tasks_in h)"
        using c(2) all by (auto simp: all_indexed_def ids_def tasks_in_def)
      with False c show ?thesis by (simp add: without_id)
    qed
  qed
qed

text \<open>Evaluation of the operations on a concrete list.\<close>

lemmas eval_task_list = empty_task_list_def Add_def Take_def DeleteIfExist_def new_item_def
  heap_Push_def heap_Pop_def heap_Remove_def heap_up.simps heap_down.simps items_Push_def
  items_Pop_def items_Swap_def items_Less_def items_Len_def set_item_index_def Let_def
  tasks_in_def task_at_def

section \<open>Properties\<close>

text \<open>
  C23: No call on the prioritized task list ever panics, whatever the tasks it was built from
  (repeated ids included) and whatever sequence of \<open>Add\<close>, \<open>Take\<close> and \<open>DeleteIfExist\<close>
  follows; the heap order, the items' position fields and the id index are consistent after it.
\<close>

theorem task_list_calls_safe:
  "\<exists>h. run_calls heap_ops (NewPrioritizedTask ts) cs = Some h \<and> wf_list h"
  by (rule heap_list.run_calls_invar) (rule NewPrioritizedTask_facts)

text \<open>
  C22: Taking tasks until the list is empty yields exactly the tasks it was built from, in order
  of their execution time: the heap sorts as the reference function \<open>sort\<close> does.
\<close>

theorem take_all_sorts:
  "\<exists>out. take_all heap_ops (length ts) (NewPrioritizedTask ts) = Some out \<and>
     mset out = mset ts \<and> map exec_time out = sort (map exec_time ts)"
proof -
  obtain out where out: "take_all heap_ops (length ts) (NewPrioritizedTask ts) = Some out" "mset out = mset ts"
    "sorted (map exec_time out)"
    using heap_list.take_all_sorted [of "NewPrioritizedTask ts" "length ts"] by (auto simp: NewPrioritizedTask_facts)
  then have "sort (map exec_time ts) = map exec_time out" by (intro properties_for_sort) (simp_all add: mset_map)
  with out show ?thesis by simp
qed

text \<open>
  In every state the calls can reach, \<open>Take\<close> returns a task with the least execution time and
  removes exactly that task; on an empty list it returns \<open>nil\<close> and changes nothing.
\<close>

theorem Take_earliest:
  assumes "run_calls heap_ops (NewPrioritizedTask ts) cs = Some h"
  shows "if tasks_in h = {#} then Take h = Some (None, h)
    else \<exists>t h'. Take h = Some (Some t, h') \<and> tasks_in h = add_mset t (tasks_in h') \<and>
      (\<forall>u \<in># tasks_in h. exec_time t \<le> exec_time u)"
proof -
  have "wf_list h"
    using heap_list.run_calls_invar [OF NewPrioritizedTask_facts(1), of ts cs] assms by simp
  then show ?thesis
    using heap_list.take_empty [of h] heap_list.take_some [of h] by fastforce
qed

theorem Take_earliest_witness:
  "\<exists>t h h'. Take h = Some (Some t, h') \<and> tasks_in h = add_mset t (tasks_in h') \<and>
     (\<forall>u \<in># tasks_in h. exec_time t \<le> exec_time u)"
proof -
  let ?ts = "[\<lparr>task_id = ''a'', exec_time = 7\<rparr>, \<lparr>task_id = ''b'', exec_time = 3\<rparr>]"
  have run: "run_calls heap_ops (NewPrioritizedTask ?ts) [] = Some (NewPrioritizedTask ?ts)" by simp
  have "tasks_in (NewPrioritizedTask ?ts) \<noteq> {#}" by (simp add: NewPrioritizedTask_facts)
  with Take_earliest [OF run] show ?thesis by auto
qed

text \<open>
  \<open>DeleteIfExist\<close> on a list whose ids are all in the index removes every task of that id and
  nothing else, says whether there was one, and keeps every remaining task findable.
\<close>

theorem DeleteIfExist_by_id:
  assumes "wf_list h" "all_indexed h"
  shows "\<exists>h'. DeleteIfExist h tid = Some (tid \<in> ids (tasks_in h), h') \<and> wf_list h' \<and>
    all_indexed h' \<and> tasks_in h' = without tid (tasks_in h)"
proof -
  from assms(1) heap_list.delete [of h tid]
  obtain b h' where d: "DeleteIfExist h tid = Some (b, h')" "wf_list h'" by auto
  with heap_index.delete_findable [OF assms, of tid b h'] show ?thesis by auto
qed

theorem DeleteIfExist_by_id_witness:
  "\<exists>h h'. tasks_in h = {#\<lparr>task_id = ''a'', exec_time = 7\<rparr>, \<lparr>task_id = ''b'', exec_time = 3\<rparr>#} \<and>
     DeleteIfExist h ''a'' = Some (True, h') \<and>
     tasks_in h' = {#\<lparr>task_id = ''b'', exec_time = 3\<rparr>#}"
proof -
  let ?h1 = "Add empty_task_list \<lparr>task_id = ''b'', exec_time = 3\<rparr>"
  let ?h2 = "Add ?h1 \<lparr>task_id = ''a'', exec_time = 7\<rparr>"
  have h1: "wf_list ?h1" "all_indexed ?h1" "tasks_in ?h1 = {#\<lparr>task_id = ''b'', exec_time = 3\<rparr>#}"
    by (simp_all add: Add_facts)
  have h2: "wf_list ?h2" "all_indexed ?h2"
    "tasks_in ?h2 = {#\<lparr>task_id = ''a'', exec_time = 7\<rparr>, \<lparr>task_id = ''b'', exec_time = 3\<rparr>#}"
    using h1 by (simp_all add: Add_facts)
  obtain h' where "DeleteIfExist ?h2 ''a'' = Some (''a'' \<in> ids (tasks_in ?h2), h')"
    "tasks_in h' = without ''a'' (tasks_in ?h2)"
    using DeleteIfExist_by_id [OF h2(1,2), of "''a''"] by auto
  with h2(3) show ?thesis by (intro exI [of _ ?h2] exI [of _ h']) simp
qed

text \<open>
  The index keeps one entry per id, so a second task with an id already in the list breaks
  deletion: after the earlier of the two is taken, \<open>DeleteIfExist\<close> no longer finds the later one,
  which stays in the list.
\<close>

theorem duplicate_id_escapes_delete:
  "\<exists>h. run_calls heap_ops (NewPrioritizedTask [])
       [CallAdd \<lparr>task_id = ''a'', exec_time = 1\<rparr>, CallAdd \<lparr>task_id = ''a'', exec_time = 2\<rparr>, CallTake]
       = Some h \<and>
     DeleteIfExist h ''a'' = Some (False, h) \<and>
     tasks_in h = {#\<lparr>task_id = ''a'', exec_time = 2\<rparr>#}"
  by (simp add: NewPrioritizedTask_nil eval_task_list)

end
