(* ===== verification/Waiting_Service.thy ===== *)
theory Waiting_Service
  imports Task_Heap Task_Manager_Contract
begin

text \<open>
  \<open>waiting_service/waiting_service.go\<close>. The state holds the prioritized list (any implementation of
  its interface), what has been sent to the service on its two input channels and not yet received,
  and what the service has sent, each task with the time at which its waiting ended. What \<open>select\<close>
  chooses when several cases are ready, and how many more values a greedy loop finds, is an argument
  of the model (\<open>wait_choice\<close>). A timer of duration \<open>d\<close> set at \<open>now\<close> fires at some time from
  \<open>now + d\<close> on, the documented behaviour of \<open>time.NewTimer\<close>.
\<close>

section \<open>State and construction\<close>

record waiting_options =
  opt_TasksReadyToSendCap :: int
  opt_CanceledTasksCap :: int
  opt_GreedyProcessingLimit :: int

record 'h waiting =
  tasksWaitingList :: 'h
  preloadedTasks :: "task list"
  canceledTasks :: "string list"
  readyToSend :: "(int \<times> task) list"

definition documented_waiting_merge ::
    "(waiting_options \<Rightarrow> waiting_options \<Rightarrow> waiting_options option) \<Rightarrow> bool" where
  "documented_waiting_merge merge \<longleftrightarrow> (\<forall>d s. merge d s = Some
     \<lparr>opt_TasksReadyToSendCap = fill_zero (opt_TasksReadyToSendCap d) (opt_TasksReadyToSendCap s),
      opt_CanceledTasksCap = fill_zero (opt_CanceledTasksCap d) (opt_CanceledTasksCap s),
      opt_GreedyProcessingLimit = fill_zero (opt_GreedyProcessingLimit d) (opt_GreedyProcessingLimit s)\<rparr>)"

definition listen_or_panic :: "topic \<Rightarrow> 'a world_scheme \<Rightarrow> 'a world_scheme option" where
  "listen_or_panic topic w = (case mon_Listen topic w of (Some err, w) \<Rightarrow> None | (None, w) \<Rightarrow> Some w)"

definition waiting_start :: "'h \<Rightarrow> 'h waiting" where
  "waiting_start h = \<lparr>tasksWaitingList = h, preloadedTasks = [], canceledTasks = [], readyToSend = []\<rparr>"

text \<open>The result of \<open>New\<close>: the greedy limit and the initial state.\<close>

definition waiting_New ::
    "(waiting_options \<Rightarrow> waiting_options \<Rightarrow> waiting_options option) \<Rightarrow> waiting_options option \<Rightarrow>
     'a world_scheme \<Rightarrow> ((int \<times> task_list waiting) \<times> 'a world_scheme) option" where
  "waiting_New merge options w = do {
     let options = (case options of
         None \<Rightarrow> \<lparr>opt_TasksReadyToSendCap = 0, opt_CanceledTasksCap = 0, opt_GreedyProcessingLimit = 0\<rparr>
       | Some opts \<Rightarrow> opts);
     options \<leftarrow> merge options
       \<lparr>opt_TasksReadyToSendCap = 0, opt_CanceledTasksCap = 0, opt_GreedyProcessingLimit = 10\<rparr>;
     w \<leftarrow> listen_or_panic Preloaded w;
     w \<leftarrow> init_or_panic DeletingRate VelocityMetricType w;
     Some ((opt_GreedyProcessingLimit options, waiting_start (NewPrioritizedTask [])), w)
   }"

section \<open>CancelIfExist\<close>

text \<open>The result: the error and the ids sent on \<open>canceledTasks\<close>.\<close>

definition CancelIfExist ::
    "'a world_scheme task_manager_ops \<Rightarrow> string \<Rightarrow> 'a world_scheme \<Rightarrow>
     ((go_error option \<times> string list) \<times> 'a world_scheme) option" where
  "CancelIfExist TM taskId w = do {
     (err, w) \<leftarrow> tm_Delete TM taskId w;
     (case err of
        Some e \<Rightarrow> Some ((Some e, []), w)
      | None \<Rightarrow> Some ((None, [taskId]), publish_or_log DeletingRate 1 w))
   }"

section \<open>Run\<close>

datatype wait_choice =
  TimerFires int
  | GetsTask task nat
  | GetsCancel string nat

text \<open>The greedy loops: at most \<open>limit\<close> values, and no more than the channel has (\<open>available\<close>).\<close>

fun greedy_tasks :: "'h task_list_ops \<Rightarrow> int \<Rightarrow> int \<Rightarrow> nat \<Rightarrow> task list \<Rightarrow> 'h \<Rightarrow> 'h \<times> task list" where
  "greedy_tasks L limit i 0 q h = (h, q)"
| "greedy_tasks L limit i (Suc available) [] h = (h, [])"
| "greedy_tasks L limit i (Suc available) (t # q) h =
     (if i < limit then greedy_tasks L limit (i + 1) available q (op_Add L h t) else (h, t # q))"

fun greedy_cancels :: "'h task_list_ops \<Rightarrow> int \<Rightarrow> int \<Rightarrow> nat \<Rightarrow> string list \<Rightarrow> 'h \<Rightarrow> ('h \<times> string list) option" where
  "greedy_cancels L limit i 0 q h = Some (h, q)"
| "greedy_cancels L limit i (Suc available) [] h = Some (h, [])"
| "greedy_cancels L limit i (Suc available) (taskId # q) h =
     (if i < limit then do {
        (_, h) \<leftarrow> op_DeleteIfExist L h taskId;
        greedy_cancels L limit (i + 1) available q h
      } else Some (h, taskId # q))"

definition task_sleep :: "int \<Rightarrow> task option \<Rightarrow> duration" where
  "task_sleep now task =
     (case task of None \<Rightarrow> max_int64 | Some t \<Rightarrow> wrap64 (wrap64 (exec_time t - Unix now) * second))"

definition put_back :: "'h task_list_ops \<Rightarrow> task option \<Rightarrow> 'h \<Rightarrow> 'h" where
  "put_back L task h = (case task of None \<Rightarrow> h | Some t \<Rightarrow> op_Add L h t)"

text \<open>
  One iteration of the loop of \<open>Run\<close>; \<open>None\<close> is a panic. Sending \<open>*task\<close> dereferences a nil pointer
  when there is no task.
\<close>

definition send_ready :: "int \<Rightarrow> task option \<Rightarrow> 'h waiting \<Rightarrow> 'h waiting option" where
  "send_ready at task s = map_option (\<lambda>t. s\<lparr>readyToSend := readyToSend s @ [(at, t)]\<rparr>) task"

definition waiting_iteration :: "'h task_list_ops \<Rightarrow> int \<Rightarrow> int \<Rightarrow> wait_choice \<Rightarrow> 'h waiting \<Rightarrow> 'h waiting option" where
  "waiting_iteration L limit now choice s = do {
     (task, h) \<leftarrow> op_Take L (tasksWaitingList s);
     if 0 < task_sleep now task then
       (case choice of
          TimerFires at \<Rightarrow> send_ready at task (s\<lparr>tasksWaitingList := h\<rparr>)
        | GetsTask newTask available \<Rightarrow>
            (let (h, q) = greedy_tasks L limit 0 available (tl (preloadedTasks s))
                   (op_Add L (put_back L task h) newTask)
             in Some (s\<lparr>tasksWaitingList := h, preloadedTasks := q\<rparr>))
        | GetsCancel taskId available \<Rightarrow> do {
            let h = (if map_option task_id task = Some taskId then h else put_back L task h);
            (_, h) \<leftarrow> op_DeleteIfExist L h taskId;
            (h, q) \<leftarrow> greedy_cancels L limit 0 available (tl (canceledTasks s)) h;
            Some (s\<lparr>tasksWaitingList := h, canceledTasks := q\<rparr>)
          })
     else send_ready now task (s\<lparr>tasksWaitingList := h\<rparr>)
   }"

text \<open>The choices that are possible in a state, and the runs of the service with its environment.\<close>

definition choice_ready :: "duration \<Rightarrow> int \<Rightarrow> wait_choice \<Rightarrow> 'h waiting \<Rightarrow> bool" where
  "choice_ready sleep now choice s =
     (case choice of
        TimerFires at \<Rightarrow> now + sleep \<le> at
      | GetsTask t available \<Rightarrow> preloadedTasks s \<noteq> [] \<and> t = hd (preloadedTasks s)
      | GetsCancel taskId available \<Rightarrow> canceledTasks s \<noteq> [] \<and> taskId = hd (canceledTasks s))"

datatype wait_label = Arrives task | CancelArrives string | Iterates int wait_choice

inductive waiting_step ::
    "'h task_list_ops \<Rightarrow> int \<Rightarrow> 'h waiting \<Rightarrow> wait_label \<Rightarrow> 'h waiting \<Rightarrow> bool" for L limit where
  arrives: "waiting_step L limit s (Arrives t) (s\<lparr>preloadedTasks := preloadedTasks s @ [t]\<rparr>)"
| cancel_arrives: "waiting_step L limit s (CancelArrives tid) (s\<lparr>canceledTasks := canceledTasks s @ [tid]\<rparr>)"
| iterates: "op_Take L (tasksWaitingList s) = Some (task, h) \<Longrightarrow>
    0 < task_sleep now task \<longrightarrow> choice_ready (task_sleep now task) now choice s \<Longrightarrow>
    waiting_iteration L limit now choice s = Some s' \<Longrightarrow>
    waiting_step L limit s (Iterates now choice) s'"

inductive waiting_run ::
    "'h task_list_ops \<Rightarrow> int \<Rightarrow> 'h waiting \<Rightarrow> wait_label list \<Rightarrow> 'h waiting \<Rightarrow> bool" for L limit s0 where
  start: "waiting_run L limit s0 [] s0"
| step: "waiting_run L limit s0 ls s \<Longrightarrow> waiting_step L limit s l s' \<Longrightarrow> waiting_run L limit s0 (ls @ [l]) s'"

inductive_cases iterates_cases: "waiting_step L limit s (Iterates now choice) s'"

text \<open>What a run is about.\<close>

definition arrived :: "wait_label list \<Rightarrow> task list" where
  "arrived ls = concat (map (\<lambda>l. case l of Arrives t \<Rightarrow> [t] | _ \<Rightarrow> []) ls)"

definition canceled :: "wait_label list \<Rightarrow> string set" where
  "canceled ls = {tid. CancelArrives tid \<in> set ls}"

definition clock_sane :: "wait_label list \<Rightarrow> bool" where
  "clock_sane ls \<longleftrightarrow> (\<forall>now choice. Iterates now choice \<in> set ls \<longrightarrow> 0 < now \<and> now < 2 ^ 63 \<and>
     (case choice of TimerFires at \<Rightarrow> at < 2 ^ 63 | _ \<Rightarrow> True))"

definition times_sane :: "task list \<Rightarrow> bool" where
  "times_sane ts \<longleftrightarrow> (\<forall>t \<in> set ts. 0 \<le> exec_time t \<and> exec_time t \<le> 9223372036)"

lemma arrived_simps [simp]:
  "arrived [] = []" "arrived (ls @ [Arrives t]) = arrived ls @ [t]"
  "arrived (ls @ [CancelArrives tid]) = arrived ls" "arrived (ls @ [Iterates now c]) = arrived ls"
  by (simp_all add: arrived_def)

lemma canceled_simps [simp]:
  "canceled [] = {}" "canceled (ls @ [Arrives t]) = canceled ls"
  "canceled (ls @ [CancelArrives tid]) = insert tid (canceled ls)" "canceled (ls @ [Iterates now c]) = canceled ls"
  by (auto simp: canceled_def)

section \<open>One iteration\<close>

text \<open>\<open>unless C M\<close>: the tasks of \<open>M\<close> whose id is not in \<open>C\<close>.\<close>

definition unless :: "string set \<Rightarrow> task multiset \<Rightarrow> task multiset" where
  "unless C M = filter_mset (\<lambda>t. task_id t \<notin> C) M"

lemma unless_simps [simp]:
  "unless C {#} = {#}" "unless C (M + N) = unless C M + unless C N"
  "unless C (add_mset t M) = (if task_id t \<in> C then unless C M else add_mset t (unless C M))"
  by (simp_all add: unless_def)

definition task_mset :: "task option \<Rightarrow> task multiset" where
  "task_mset task = (case task of None \<Rightarrow> {#} | Some t \<Rightarrow> {#t#})"

lemma task_mset_simps [simp]: "task_mset None = {#}" "task_mset (Some t) = {#t#}"
  by (simp_all add: task_mset_def)

context prioritized_task_list
begin

text \<open>Everything the service has: in its list, on its way in, and sent.\<close>

definition everything :: "'h waiting \<Rightarrow> task multiset" where
  "everything s = tasks (tasksWaitingList s) + mset (preloadedTasks s) + image_mset snd (mset (readyToSend s))"

definition shrinks :: "string set \<Rightarrow> 'h \<Rightarrow> 'h \<Rightarrow> bool" where
  "shrinks C h h' \<longleftrightarrow> invar h' \<and> tasks h' \<subseteq># tasks h \<and> unless C (tasks h') = unless C (tasks h)"

lemma shrinks_trans: "shrinks C h h' \<Longrightarrow> shrinks C h' h'' \<Longrightarrow> shrinks C h h''"
  by (auto simp: shrinks_def intro: subset_mset.order_trans)

lemma take_either:
  assumes "invar h"
  obtains task h' where "op_Take I h = Some (task, h')" "invar h'" "tasks h = task_mset task + tasks h'"
    "\<And>t u. task = Some t \<Longrightarrow> u \<in># tasks h \<Longrightarrow> exec_time t \<le> exec_time u" "task = None \<Longrightarrow> tasks h = {#}"
proof (cases "tasks h = {#}")
  case True
  with assms that [of None h] show thesis by (simp add: take_empty)
next
  case False
  obtain t h' where "op_Take I h = Some (Some t, h')" "invar h'" "tasks h = add_mset t (tasks h')"
    "\<forall>u \<in># tasks h'. exec_time t \<le> exec_time u" using take_some [OF assms False] by metis
  with that [of "Some t" h'] show thesis by auto
qed

lemma take_result:
  assumes "invar h" "op_Take I h = Some (task, h')"
  shows "invar h'" "tasks h = task_mset task + tasks h'" "task = Some t \<Longrightarrow> u \<in># tasks h \<Longrightarrow> exec_time t \<le> exec_time u"
    "task = None \<Longrightarrow> tasks h = {#}"
proof -
  obtain task1 h1 where t: "op_Take I h = Some (task1, h1)" "invar h1" "tasks h = task_mset task1 + tasks h1"
    "\<And>t u. task1 = Some t \<Longrightarrow> u \<in># tasks h \<Longrightarrow> exec_time t \<le> exec_time u" "task1 = None \<Longrightarrow> tasks h = {#}"
    by (rule take_either [OF assms(1)]) blast
  have "task1 = task" "h1 = h'" using t(1) assms(2) by simp_all
  with t show "invar h'" "tasks h = task_mset task + tasks h'"
    "task = Some t \<Longrightarrow> u \<in># tasks h \<Longrightarrow> exec_time t \<le> exec_time u" "task = None \<Longrightarrow> tasks h = {#}" by simp_all
qed

lemma put_back_facts: "invar h \<Longrightarrow> invar (put_back I task h)" "invar h \<Longrightarrow> tasks (put_back I task h) = task_mset task + tasks h"
  by (cases task; simp add: put_back_def add_invar add_tasks)+

lemma delete_shrinks:
  assumes "invar h" "tid \<in> C"
  obtains b h' where "op_DeleteIfExist I h tid = Some (b, h')" "shrinks C h h'"
proof -
  obtain b h' where d: "op_DeleteIfExist I h tid = Some (b, h')" "invar h'"
    "if b then \<exists>t. task_id t = tid \<and> tasks h = add_mset t (tasks h') else h' = h"
    using delete [OF assms(1), of tid] by metis
  then have "shrinks C h h'" using assms(2) by (cases b) (auto simp: shrinks_def)
  with d(1) that show thesis by blast
qed

lemma greedy_tasks_facts:
  "invar h \<Longrightarrow> greedy_tasks I limit i k q h = (h', q') \<Longrightarrow>
    invar h' \<and> tasks h' + mset q' = tasks h + mset q"
proof (induction k arbitrary: i q h)
  case 0
  then show ?case by simp
next
  case (Suc k)
  then show ?case
    by (cases q) (auto simp: add_invar add_tasks split: if_splits dest!: Suc.IH [rotated])
qed

lemma greedy_cancels_facts:
  "invar h \<Longrightarrow> set q \<subseteq> C \<Longrightarrow>
    \<exists>h' q'. greedy_cancels I limit i k q h = Some (h', q') \<and> shrinks C h h' \<and> set q' \<subseteq> set q"
proof (induction k arbitrary: i q h)
  case 0
  then show ?case by (simp add: shrinks_def)
next
  case (Suc k)
  show ?case
  proof (cases q)
    case Nil
    with Suc.prems show ?thesis by (simp add: shrinks_def)
  next
    case (Cons tid q1)
    show ?thesis
    proof (cases "i < limit")
      case True
      obtain b h1 where d: "op_DeleteIfExist I h tid = Some (b, h1)" "shrinks C h h1"
        using delete_shrinks [of h tid C] Suc.prems Cons by auto
      with Suc.IH [of h1 q1 "i + 1"] Suc.prems Cons obtain h' q' where
        "greedy_cancels I limit (i + 1) k q1 h1 = Some (h', q')" "shrinks C h1 h'" "set q' \<subseteq> set q1"
        by (auto simp: shrinks_def)
      with d True Cons show ?thesis by (auto intro: shrinks_trans)
    next
      case False
      with Suc.prems Cons show ?thesis by (simp add: shrinks_def)
    qed
  qed
qed

lemma iteration_facts:
  assumes inv: "invar (tasksWaitingList s)" and C: "set (canceledTasks s) \<subseteq> C"
    and take: "op_Take I (tasksWaitingList s) = Some (task, h)"
    and ready: "0 < task_sleep now task \<longrightarrow> choice_ready (task_sleep now task) now choice s"
    and run: "waiting_iteration I limit now choice s = Some s'"
  shows "invar (tasksWaitingList s') \<and> set (canceledTasks s') \<subseteq> C \<and>
    everything s' \<subseteq># everything s \<and> unless C (everything s') = unless C (everything s)"
proof -
  have h: "invar h" "tasks (tasksWaitingList s) = task_mset task + tasks h"
    using take_result [OF inv take] by simp_all
  have sent: "invar (tasksWaitingList s') \<and> everything s' = everything s \<and> canceledTasks s' = canceledTasks s"
    if "send_ready at task (s\<lparr>tasksWaitingList := h\<rparr>) = Some s'" for at
    using that h by (cases task) (auto simp: send_ready_def everything_def)
  show ?thesis
  proof (cases "0 < task_sleep now task")
    case False
    with run take have "send_ready now task (s\<lparr>tasksWaitingList := h\<rparr>) = Some s'"
      by (simp add: waiting_iteration_def)
    from sent [OF this] C show ?thesis by simp
  next
    case sleeps: True
    show ?thesis
    proof (cases choice)
      case (TimerFires at)
      with run take sleeps have "send_ready at task (s\<lparr>tasksWaitingList := h\<rparr>) = Some s'"
        by (simp add: waiting_iteration_def)
      from sent [OF this] C show ?thesis by simp
    next
      case (GetsTask t k)
      then obtain rest where rest: "preloadedTasks s = t # rest"
        using ready sleeps by (cases "preloadedTasks s") (auto simp: choice_ready_def)
      obtain h' q where g: "greedy_tasks I limit 0 k rest (op_Add I (put_back I task h) t) = (h', q)"
        by (metis surj_pair)
      then have s': "s' = s\<lparr>tasksWaitingList := h', preloadedTasks := q\<rparr>"
        using run take sleeps GetsTask rest by (simp add: waiting_iteration_def)
      have "invar h' \<and> tasks h' + mset q = add_mset t (task_mset task + tasks h) + mset rest"
        using greedy_tasks_facts [OF _ g] h by (simp add: add_invar add_tasks put_back_facts)
      then show ?thesis using s' C h rest by (simp add: everything_def)
    next
      case (GetsCancel tid k)
      then obtain rest where rest: "canceledTasks s = tid # rest"
        using ready sleeps by (cases "canceledTasks s") (auto simp: choice_ready_def)
      then have tid: "tid \<in> C" "set rest \<subseteq> C" using C by simp_all
      define h1 where "h1 = (if map_option task_id task = Some tid then h else put_back I task h)"
      have h1: "invar h1" "tasks h1 \<subseteq># tasks (tasksWaitingList s)"
        "unless C (tasks h1) = unless C (tasks (tasksWaitingList s))"
        using h tid by (auto simp: h1_def put_back_facts)
      obtain b h2 where d: "op_DeleteIfExist I h1 tid = Some (b, h2)" "shrinks C h1 h2"
        using delete_shrinks [OF h1(1) tid(1)] by metis
      then have "invar h2" by (simp add: shrinks_def)
      from greedy_cancels_facts [OF this tid(2), of limit 0 k] obtain h3 q where
        g: "greedy_cancels I limit 0 k rest h2 = Some (h3, q)" "shrinks C h2 h3" "set q \<subseteq> set rest" by metis
      have s': "s' = s\<lparr>tasksWaitingList := h3, canceledTasks := q\<rparr>"
        using run take sleeps GetsCancel rest d(1) g(1) by (simp add: waiting_iteration_def h1_def Let_def)
      have "shrinks C h1 h3" using d(2) g(2) by (rule shrinks_trans)
      then have "invar h3" "tasks h3 \<subseteq># tasks (tasksWaitingList s)"
        "unless C (tasks h3) = unless C (tasks (tasksWaitingList s))"
        using h1 by (auto simp: shrinks_def intro: subset_mset.order_trans)
      then show ?thesis using s' g(3) tid(2) by (auto simp: everything_def)
    qed
  qed
qed

end

section \<open>The abstract service\<close>

text \<open>
  What an iteration promises, over a plain multiset of tasks instead of the list: it sends an
  earliest task, now if its time has come, or when the timer of its remaining time fires; or it
  receives a task and up to \<open>limit\<close> more; or it receives an id and up to \<open>limit\<close> more and removes
  all tasks of these ids.
\<close>

definition earliest :: "task \<Rightarrow> task multiset \<Rightarrow> bool" where
  "earliest t M \<longleftrightarrow> t \<in># M \<and> (\<forall>u \<in># M. exec_time t \<le> exec_time u)"

definition nothing_due :: "int \<Rightarrow> task multiset \<Rightarrow> bool" where
  "nothing_due now M \<longleftrightarrow> M = {#} \<or> (\<exists>t. earliest t M \<and> 0 < task_sleep now (Some t))"

definition burst :: "int \<Rightarrow> nat \<Rightarrow> nat" where
  "burst limit available = min available (nat limit)"

inductive waiting_spec ::
    "int \<Rightarrow> int \<Rightarrow> wait_choice \<Rightarrow> task multiset waiting \<Rightarrow> task multiset waiting \<Rightarrow> bool" for limit now where
  sends_now: "earliest t (tasksWaitingList s) \<Longrightarrow> task_sleep now (Some t) \<le> 0 \<Longrightarrow>
    waiting_spec limit now choice s (s\<lparr>tasksWaitingList := tasksWaitingList s - {#t#},
      readyToSend := readyToSend s @ [(now, t)]\<rparr>)"
| sends_later: "earliest t (tasksWaitingList s) \<Longrightarrow> 0 < task_sleep now (Some t) \<Longrightarrow>
    now + task_sleep now (Some t) \<le> at \<Longrightarrow>
    waiting_spec limit now (TimerFires at) s (s\<lparr>tasksWaitingList := tasksWaitingList s - {#t#},
      readyToSend := readyToSend s @ [(at, t)]\<rparr>)"
| receives: "nothing_due now (tasksWaitingList s) \<Longrightarrow> preloadedTasks s = t # rest \<Longrightarrow>
    waiting_spec limit now (GetsTask t k) s
      (s\<lparr>tasksWaitingList := tasksWaitingList s + mset (t # take (burst limit k) rest),
         preloadedTasks := drop (burst limit k) rest\<rparr>)"
| removes: "nothing_due now (tasksWaitingList s) \<Longrightarrow> canceledTasks s = tid # rest \<Longrightarrow>
    waiting_spec limit now (GetsCancel tid k) s
      (s\<lparr>tasksWaitingList := unless (set (tid # take (burst limit k) rest)) (tasksWaitingList s),
         canceledTasks := drop (burst limit k) rest\<rparr>)"

definition abstract_waiting :: "('h \<Rightarrow> task multiset) \<Rightarrow> 'h waiting \<Rightarrow> task multiset waiting" where
  "abstract_waiting f s = \<lparr>tasksWaitingList = f (tasksWaitingList s), preloadedTasks = preloadedTasks s,
     canceledTasks = canceledTasks s, readyToSend = readyToSend s\<rparr>"

lemma abstract_waiting_simps [simp]:
  "tasksWaitingList (abstract_waiting f s) = f (tasksWaitingList s)"
  "preloadedTasks (abstract_waiting f s) = preloadedTasks s"
  "canceledTasks (abstract_waiting f s) = canceledTasks s"
  "readyToSend (abstract_waiting f s) = readyToSend s"
  by (simp_all add: abstract_waiting_def)

lemma unless_without: "unless C (without tid M) = unless (insert tid C) M"
  by (auto simp: unless_def without_def filter_filter_mset intro!: filter_mset_cong)

lemma unless_empty: "unless {} M = M"
  by (simp add: unless_def)

context indexed_task_list
begin

lemma greedy_tasks_result:
  "invar h \<Longrightarrow> 0 \<le> i \<Longrightarrow> greedy_tasks I limit i k q h = (h', q') \<Longrightarrow>
    tasks h' = tasks h + mset (take (min k (nat (limit - i))) q) \<and> q' = drop (min k (nat (limit - i))) q"
proof (induction k arbitrary: i q h)
  case 0
  then show ?case by simp
next
  case (Suc k)
  show ?case
  proof (cases "q = [] \<or> limit \<le> i")
    case True
    with Suc.prems show ?thesis by (cases q) auto
  next
    case False
    then obtain t q1 where q: "q = t # q1" "i < limit" by (cases q) auto
    then have n: "min (Suc k) (nat (limit - i)) = Suc (min k (nat (limit - (i + 1))))" by linarith
    from q Suc.prems have "greedy_tasks I limit (i + 1) k q1 (op_Add I h t) = (h', q')" by simp
    from Suc.IH [OF _ _ this] Suc.prems q show ?thesis unfolding n by (simp add: add_invar add_tasks)
  qed
qed

lemma greedy_cancels_result:
  "invar h \<Longrightarrow> findable h \<Longrightarrow> 0 \<le> i \<Longrightarrow>
    \<exists>h'. greedy_cancels I limit i k q h = Some (h', drop (min k (nat (limit - i))) q) \<and> invar h' \<and> findable h' \<and>
      tasks h' = unless (set (take (min k (nat (limit - i))) q)) (tasks h)"
proof (induction k arbitrary: i q h)
  case 0
  then show ?case by (simp add: unless_empty)
next
  case (Suc k)
  show ?case
  proof (cases "q = [] \<or> limit \<le> i")
    case True
    with Suc.prems show ?thesis by (cases q) (auto simp: unless_empty)
  next
    case False
    then obtain tid q1 where q: "q = tid # q1" "i < limit" by (cases q) auto
    then have n: "min (Suc k) (nat (limit - i)) = Suc (min k (nat (limit - (i + 1))))" by linarith
    obtain b h1 where d: "op_DeleteIfExist I h tid = Some (b, h1)" "invar h1"
      using delete [OF Suc.prems(1), of tid] by metis
    have f: "findable h1" "tasks h1 = without tid (tasks h)"
      using delete_findable [OF Suc.prems(1,2) d(1)] by simp_all
    from Suc.IH [OF d(2) f(1), of "i + 1" q1] Suc.prems(3) obtain h' where
      "greedy_cancels I limit (i + 1) k q1 h1 = Some (h', drop (min k (nat (limit - (i + 1)))) q1)" "invar h'" "findable h'"
      "tasks h' = unless (set (take (min k (nat (limit - (i + 1)))) q1)) (tasks h1)" by auto
    with q d(1) f(2) show ?thesis unfolding n by (simp add: unless_without)
  qed
qed

lemma iteration_refines:
  assumes inv: "invar (tasksWaitingList s)" "findable (tasksWaitingList s)"
    and take: "op_Take I (tasksWaitingList s) = Some (task, h)"
    and ready: "0 < task_sleep now task \<longrightarrow> choice_ready (task_sleep now task) now choice s"
    and run: "waiting_iteration I limit now choice s = Some s'"
  shows "waiting_spec limit now choice (abstract_waiting tasks s) (abstract_waiting tasks s')"
proof -
  have h: "invar h" "tasks (tasksWaitingList s) = task_mset task + tasks h"
    using take_result [OF inv(1) take] by simp_all
  have least: "earliest t (tasks (tasksWaitingList s))" if "task = Some t" for t
    using take_result(3) [OF inv(1) take that] h(2) that by (simp add: earliest_def)
  have fh: "findable h" using take_findable [OF inv take] .
  have task: "task = Some t \<Longrightarrow> tasks (tasksWaitingList s) - {#t#} = tasks h" for t using h(2) by simp
  show ?thesis
  proof (cases "0 < task_sleep now task")
    case False
    then obtain t where t: "task = Some t" by (cases task) (auto simp: task_sleep_def max_int64_def)
    with run take False have s': "s' = s\<lparr>tasksWaitingList := h, readyToSend := readyToSend s @ [(now, t)]\<rparr>"
      by (simp add: waiting_iteration_def send_ready_def)
    from waiting_spec.sends_now [of t "abstract_waiting tasks s" now limit choice] least [OF t] False t task [OF t]
    show ?thesis by (simp add: s' abstract_waiting_def)
  next
    case sleeps: True
    have nd: "nothing_due now (tasks (tasksWaitingList s))"
      using least sleeps take_result(4) [OF inv(1) take] by (cases task) (auto simp: nothing_due_def)
    show ?thesis
    proof (cases choice)
      case (TimerFires at)
      with run take sleeps have "send_ready at task (s\<lparr>tasksWaitingList := h\<rparr>) = Some s'"
        by (simp add: waiting_iteration_def)
      then obtain t where t: "task = Some t" "s' = s\<lparr>tasksWaitingList := h, readyToSend := readyToSend s @ [(at, t)]\<rparr>"
        by (auto simp: send_ready_def)
      have "now + task_sleep now (Some t) \<le> at" using ready sleeps t TimerFires by (simp add: choice_ready_def)
      with waiting_spec.sends_later [of t "abstract_waiting tasks s" now at limit] least [OF t(1)] sleeps t task [OF t(1)]
      show ?thesis by (simp add: TimerFires abstract_waiting_def)
    next
      case (GetsTask t k)
      then obtain rest where rest: "preloadedTasks s = t # rest"
        using ready sleeps by (cases "preloadedTasks s") (auto simp: choice_ready_def)
      obtain h' q where g: "greedy_tasks I limit 0 k rest (op_Add I (put_back I task h) t) = (h', q)"
        by (metis surj_pair)
      then have s': "s' = s\<lparr>tasksWaitingList := h', preloadedTasks := q\<rparr>"
        using run take sleeps GetsTask rest by (simp add: waiting_iteration_def)
      have "tasks h' = tasks (tasksWaitingList s) + mset (t # take (burst limit k) rest) \<and> q = drop (burst limit k) rest"
        using greedy_tasks_result [OF _ _ g] h by (simp add: add_invar add_tasks put_back_facts burst_def)
      with waiting_spec.receives [of now "abstract_waiting tasks s" t rest limit k] nd rest
      show ?thesis by (simp add: s' GetsTask abstract_waiting_def)
    next
      case (GetsCancel tid k)
      then obtain rest where rest: "canceledTasks s = tid # rest"
        using ready sleeps by (cases "canceledTasks s") (auto simp: choice_ready_def)
      define h1 where "h1 = (if map_option task_id task = Some tid then h else put_back I task h)"
      have pb: "findable (put_back I task h)"
      proof (cases task)
        case None
        with fh show ?thesis by (simp add: put_back_def)
      next
        case (Some u)
        then have "task_id u \<notin> ids (tasks h)" using findable_unique [OF inv, of u "tasks h"] h(2) by simp
        with Some fh h(1) show ?thesis by (simp add: put_back_def add_findable)
      qed
      have h1: "invar h1" "findable h1" "without tid (tasks h1) = without tid (tasks (tasksWaitingList s))"
        using h fh pb by (auto simp: h1_def put_back_facts)
      obtain b h2 where d: "op_DeleteIfExist I h1 tid = Some (b, h2)" "invar h2"
        using delete [OF h1(1), of tid] by metis
      have h2: "findable h2" "tasks h2 = without tid (tasks h1)"
        using delete_findable [OF h1(1,2) d(1)] by simp_all
      from greedy_cancels_result [OF d(2) h2(1), of 0 limit k rest] obtain h3 where
        g: "greedy_cancels I limit 0 k rest h2 = Some (h3, drop (burst limit k) rest)"
        "tasks h3 = unless (set (take (burst limit k) rest)) (tasks h2)" by (auto simp: burst_def)
      have s': "s' = s\<lparr>tasksWaitingList := h3, canceledTasks := drop (burst limit k) rest\<rparr>"
        using run take sleeps GetsCancel rest d(1) g(1) by (simp add: waiting_iteration_def h1_def Let_def)
      have "tasks h3 = unless (set (tid # take (burst limit k) rest)) (tasks (tasksWaitingList s))"
        using g(2) h2(2) h1(3) by (simp add: unless_without)
      with waiting_spec.removes [of now "abstract_waiting tasks s" tid rest limit k] nd rest
      show ?thesis by (simp add: s' GetsCancel abstract_waiting_def)
    qed
  qed
qed

end

section \<open>Runs\<close>

lemma unless_unless: "C \<subseteq> D \<Longrightarrow> unless D (unless C M) = unless D M"
  by (auto simp: unless_def filter_filter_mset intro!: filter_mset_cong)

lemma unless_mono: "unless C M = unless C N \<Longrightarrow> C \<subseteq> D \<Longrightarrow> unless D M = unless D N"
  by (metis unless_unless)

lemma Unix_le: "Unix now * second \<le> now"
  by (simp add: Unix_def second_def)

lemma sleep_exact:
  assumes "0 < now" "now < 2 ^ 63" "0 \<le> exec_time t" "exec_time t \<le> 9223372036"
  shows "task_sleep now (Some t) = (exec_time t - Unix now) * second"
proof -
  have "0 \<le> Unix now" "Unix now \<le> 9223372036" using assms(1,2) by (simp_all add: Unix_def second_def)
  then have "\<bar>exec_time t - Unix now\<bar> \<le> 9223372036" using assms(3,4) by linarith
  then have "in_int64 (exec_time t - Unix now)" "in_int64 ((exec_time t - Unix now) * second)"
    by (auto simp: in_int64_def second_def)
  then show ?thesis by (simp add: task_sleep_def wrap64_id)
qed

definition choice_clock_sane :: "wait_choice \<Rightarrow> bool" where
  "choice_clock_sane choice \<longleftrightarrow> (case choice of TimerFires at \<Rightarrow> at < 2 ^ 63 | _ \<Rightarrow> True)"

lemma clock_sane_simps [simp]:
  "clock_sane []" "clock_sane (ls @ [Arrives t]) = clock_sane ls" "clock_sane (ls @ [CancelArrives tid]) = clock_sane ls"
  "clock_sane (ls @ [Iterates now c]) \<longleftrightarrow> clock_sane ls \<and> 0 < now \<and> now < 2 ^ 63 \<and> choice_clock_sane c"
  by (auto simp: clock_sane_def choice_clock_sane_def)

lemma send_ready_sent:
  "send_ready at task s = Some s' \<Longrightarrow> \<exists>t. task = Some t \<and> readyToSend s' = readyToSend s @ [(at, t)]"
  by (auto simp: send_ready_def)

context prioritized_task_list
begin

lemma iteration_no_panic:
  assumes inv: "invar (tasksWaitingList s)" and now: "0 < now"
    and take: "op_Take I (tasksWaitingList s) = Some (task, h)"
    and ready: "0 < task_sleep now task \<longrightarrow> choice_ready (task_sleep now task) now choice s \<and> choice_clock_sane choice"
  shows "\<exists>s'. waiting_iteration I limit now choice s = Some s'"
proof (cases "0 < task_sleep now task")
  case False
  then obtain t where "task = Some t" by (cases task) (auto simp: task_sleep_def max_int64_def)
  with False take show ?thesis by (simp add: waiting_iteration_def send_ready_def)
next
  case sleeps: True
  note h = take_result [OF inv take]
  show ?thesis
  proof (cases choice)
    case (TimerFires at)
    then have "task \<noteq> None" using ready sleeps now
      by (cases task) (auto simp: choice_ready_def choice_clock_sane_def task_sleep_def max_int64_def)
    with TimerFires sleeps take show ?thesis by (auto simp: waiting_iteration_def send_ready_def)
  next
    case (GetsTask t k)
    with sleeps take show ?thesis by (simp add: waiting_iteration_def split_beta)
  next
    case (GetsCancel tid k)
    define h1 where "h1 = (if map_option task_id task = Some tid then h else put_back I task h)"
    have "invar h1" using h by (simp add: h1_def put_back_facts)
    then obtain b h2 where d: "op_DeleteIfExist I h1 tid = Some (b, h2)" "invar h2" using delete by metis
    obtain h3 q where "greedy_cancels I limit 0 k (tl (canceledTasks s)) h2 = Some (h3, q)"
      using greedy_cancels_facts [OF d(2) subset_refl] by metis
    with GetsCancel sleeps take d(1) show ?thesis by (simp add: waiting_iteration_def h1_def Let_def)
  qed
qed

lemma iteration_sends:
  assumes "op_Take I (tasksWaitingList s) = Some (task, h)"
    and "0 < task_sleep now task \<longrightarrow> choice_ready (task_sleep now task) now choice s"
    and "waiting_iteration I limit now choice s = Some s'"
  shows "readyToSend s' = readyToSend s \<or> (\<exists>at t. task = Some t \<and> readyToSend s' = readyToSend s @ [(at, t)] \<and>
    (task_sleep now (Some t) \<le> 0 \<and> at = now \<or> 0 < task_sleep now (Some t) \<and> now + task_sleep now (Some t) \<le> at))"
proof (cases "0 < task_sleep now task")
  case False
  with assms(1,3) have "send_ready now task (s\<lparr>tasksWaitingList := h\<rparr>) = Some s'" by (simp add: waiting_iteration_def)
  from send_ready_sent [OF this] False show ?thesis by auto
next
  case sleeps: True
  show ?thesis
  proof (cases choice)
    case (TimerFires at)
    with assms(1,3) sleeps have "send_ready at task (s\<lparr>tasksWaitingList := h\<rparr>) = Some s'" by (simp add: waiting_iteration_def)
    from send_ready_sent [OF this] sleeps assms(2) TimerFires show ?thesis by (auto simp: choice_ready_def)
  next
    case (GetsTask t k)
    with assms(1,3) sleeps show ?thesis by (auto simp: waiting_iteration_def split_beta)
  next
    case (GetsCancel tid k)
    with assms(1,3) sleeps show ?thesis by (auto simp: waiting_iteration_def bind_eq_Some_conv)
  qed
qed

lemma run_keeps:
  assumes run: "waiting_run I limit (waiting_start h0) ls s" and h0: "invar h0" "tasks h0 = {#}"
  shows "invar (tasksWaitingList s) \<and> set (canceledTasks s) \<subseteq> canceled ls \<and> everything s \<subseteq># mset (arrived ls) \<and>
    unless (canceled ls) (everything s) = unless (canceled ls) (mset (arrived ls)) \<and>
    (clock_sane ls \<longrightarrow> times_sane (arrived ls) \<longrightarrow> (\<forall>(at, t) \<in> set (readyToSend s). exec_time t \<le> Unix at))"
  using run
proof induction
  case start
  with h0 show ?case by (simp add: waiting_start_def everything_def)
next
  case (step ls s l s')
  from step(2) show ?case
  proof cases
    case (arrives t)
    then have "everything s' = add_mset t (everything s)" by (simp add: everything_def)
    moreover have "times_sane (arrived ls @ [t]) \<Longrightarrow> times_sane (arrived ls)" by (simp add: times_sane_def)
    ultimately show ?thesis using step(3) by (simp add: arrives)
  next
    case 2: (cancel_arrives tid)
    have "unless (canceled ls) (everything s) = unless (canceled ls) (mset (arrived ls))" using step(3) by blast
    then have "unless (insert tid (canceled ls)) (everything s) = unless (insert tid (canceled ls)) (mset (arrived ls))"
      using subset_insertI by (rule unless_mono)
    moreover have "everything s' = everything s" using 2 by (simp add: everything_def)
    moreover have "set (canceledTasks s') \<subseteq> insert tid (canceled ls)" using 2 step(3) by (simp add: subset_insertI2)
    ultimately show ?thesis using step(3) by (simp add: 2)
  next
    case 3: (iterates task h now choice)
    have C: "set (canceledTasks s) \<subseteq> canceled ls" and inv: "invar (tasksWaitingList s)"
      and sub: "everything s \<subseteq># mset (arrived ls)" using step(3) by simp_all
    note f = iteration_facts [OF inv C 3(2-4)]
    have "everything s' \<subseteq># mset (arrived ls)" using f sub by (blast intro: subset_mset.order_trans)
    moreover have "\<forall>(at, t) \<in> set (readyToSend s'). exec_time t \<le> Unix at"
      if sane: "clock_sane (ls @ [l])" "times_sane (arrived (ls @ [l]))"
    proof -
      have old: "\<forall>(at, t) \<in> set (readyToSend s). exec_time t \<le> Unix at" using step(3) sane 3(1) by simp
      from iteration_sends [OF 3(2-4)] show ?thesis
      proof (elim disjE exE conjE)
        fix at t assume t: "task = Some t" "readyToSend s' = readyToSend s @ [(at, t)]"
          and "task_sleep now (Some t) \<le> 0" "at = now"
        have "t \<in># everything s" using take_result(2) [OF inv 3(2)] t(1) by (simp add: everything_def)
        then have "t \<in> set (arrived ls)" using sub by (metis mset_subset_eqD set_mset_mset)
        then have "task_sleep now (Some t) = (exec_time t - Unix now) * second"
          using sane 3(1) by (intro sleep_exact) (auto simp: times_sane_def)
        with \<open>task_sleep now (Some t) \<le> 0\<close> have "exec_time t \<le> Unix now" by (simp add: second_def mult_le_0_iff)
        with old t(2) \<open>at = now\<close> show ?thesis by auto
      next
        fix at t assume t: "task = Some t" "readyToSend s' = readyToSend s @ [(at, t)]"
          and later: "0 < task_sleep now (Some t)" "now + task_sleep now (Some t) \<le> at"
        have "t \<in># everything s" using take_result(2) [OF inv 3(2)] t(1) by (simp add: everything_def)
        then have "t \<in> set (arrived ls)" using sub by (metis mset_subset_eqD set_mset_mset)
        then have "task_sleep now (Some t) = (exec_time t - Unix now) * second"
          using sane 3(1) by (intro sleep_exact) (auto simp: times_sane_def)
        with later(2) Unix_le [of now] have "exec_time t * second \<le> at" by (simp add: algebra_simps)
        then have "exec_time t \<le> Unix at" by (simp add: Unix_def second_def)
        with old t(2) show ?thesis by auto
      qed (use old in simp)
    qed
    ultimately show ?thesis using f step(3) 3(1) by auto
  qed
qed

end

section \<open>Runs refine the abstract service\<close>

inductive waiting_spec_run ::
    "int \<Rightarrow> task multiset waiting \<Rightarrow> wait_label list \<Rightarrow> task multiset waiting \<Rightarrow> bool" for limit s0 where
  spec_start: "waiting_spec_run limit s0 [] s0"
| spec_arrives: "waiting_spec_run limit s0 ls s \<Longrightarrow>
    waiting_spec_run limit s0 (ls @ [Arrives t]) (s\<lparr>preloadedTasks := preloadedTasks s @ [t]\<rparr>)"
| spec_cancel: "waiting_spec_run limit s0 ls s \<Longrightarrow>
    waiting_spec_run limit s0 (ls @ [CancelArrives tid]) (s\<lparr>canceledTasks := canceledTasks s @ [tid]\<rparr>)"
| spec_iterates: "waiting_spec_run limit s0 ls s \<Longrightarrow> waiting_spec limit now choice s s' \<Longrightarrow>
    waiting_spec_run limit s0 (ls @ [Iterates now choice]) s'"

definition distinct_ids :: "task multiset \<Rightarrow> bool" where
  "distinct_ids M \<longleftrightarrow> (\<forall>t N. M = add_mset t N \<longrightarrow> task_id t \<notin> ids N)"

lemma ids_plus: "ids (M + N) = ids M \<union> ids N"
  by (auto simp: ids_def)

lemma distinct_ids_sub:
  assumes "distinct_ids M" "N \<subseteq># M"
  shows "distinct_ids N"
  unfolding distinct_ids_def
proof (intro allI impI)
  fix t N1 assume N: "N = add_mset t N1"
  obtain D where "M = N + D" using assms(2) by (metis subset_mset.le_iff_add)
  with N have "M = add_mset t (N1 + D)" by simp
  then have "task_id t \<notin> ids (N1 + D)" using assms(1) unfolding distinct_ids_def by blast
  then show "task_id t \<notin> ids N1" by (simp add: ids_plus)
qed

lemma distinct_ids_add: "distinct_ids (add_mset t M) \<Longrightarrow> task_id t \<notin> ids M"
  by (simp add: distinct_ids_def)

lemma distinct_ids_mset: "distinct (map task_id ts) \<Longrightarrow> distinct_ids (mset ts)"
  unfolding distinct_ids_def
proof (intro allI impI)
  fix t N assume d: "distinct (map task_id ts)" and m: "mset ts = add_mset t N"
  have "image_mset task_id (mset ts) = add_mset (task_id t) (image_mset task_id N)" using m by simp
  moreover have "count (image_mset task_id (mset ts)) (task_id t) \<le> 1"
    using d by (metis distinct_count_atmost_1 linorder_le_cases mset_map zero_le_one)
  ultimately have "task_id t \<notin># image_mset task_id N" unfolding not_in_iff by simp
  then show "task_id t \<notin> ids N" unfolding ids_def by simp
qed

context indexed_task_list
begin

lemma greedy_tasks_findable:
  "invar h \<Longrightarrow> findable h \<Longrightarrow> distinct_ids (tasks h + mset q) \<Longrightarrow>
    greedy_tasks I limit i k q h = (h', q') \<Longrightarrow> findable h'"
proof (induction k arbitrary: i q h)
  case 0
  then show ?case by simp
next
  case (Suc k)
  show ?case
  proof (cases "q = [] \<or> limit \<le> i")
    case True
    with Suc.prems show ?thesis by (cases q) auto
  next
    case False
    then obtain t q1 where q: "q = t # q1" "i < limit" by (cases q) auto
    with Suc.prems(3) have "task_id t \<notin> ids (tasks h + mset q1)" by (intro distinct_ids_add) simp
    then have "findable (op_Add I h t)" using Suc.prems by (intro add_findable) (simp_all add: ids_plus)
    moreover have "distinct_ids (tasks (op_Add I h t) + mset q1)" using Suc.prems(1,3) q by (simp add: add_tasks)
    moreover have "greedy_tasks I limit (i + 1) k q1 (op_Add I h t) = (h', q')" using Suc.prems(4) q by simp
    ultimately show ?thesis using Suc.IH add_invar [OF Suc.prems(1)] by blast
  qed
qed

lemma put_back_findable:
  assumes "invar h" "findable h" "op_Take I h = Some (task, h1)"
  shows "findable (put_back I task h1)"
proof (cases task)
  case None
  with take_findable [OF assms] show ?thesis by (simp add: put_back_def)
next
  case (Some t)
  note r = take_result [OF assms(1,3)]
  have "task_id t \<notin> ids (tasks h1)" using findable_unique [OF assms(1,2), of t "tasks h1"] r(2) Some by simp
  with Some take_findable [OF assms] r(1) show ?thesis by (simp add: put_back_def add_findable)
qed

lemma iteration_findable:
  assumes inv: "invar (tasksWaitingList s)" "findable (tasksWaitingList s)" and d: "distinct_ids (everything s)"
    and take: "op_Take I (tasksWaitingList s) = Some (task, h)"
    and ready: "0 < task_sleep now task \<longrightarrow> choice_ready (task_sleep now task) now choice s"
    and run: "waiting_iteration I limit now choice s = Some s'"
  shows "findable (tasksWaitingList s')"
proof -
  note h = take_result [OF inv(1) take] and fh = take_findable [OF inv take]
  have sent: "findable (tasksWaitingList s')" if "send_ready at task (s\<lparr>tasksWaitingList := h\<rparr>) = Some s'" for at
    using that fh by (auto simp: send_ready_def)
  show ?thesis
  proof (cases "0 < task_sleep now task")
    case False
    with run take show ?thesis by (intro sent [of now]) (simp add: waiting_iteration_def)
  next
    case sleeps: True
    show ?thesis
    proof (cases choice)
      case (TimerFires at)
      with run take sleeps show ?thesis by (intro sent [of at]) (simp add: waiting_iteration_def)
    next
      case (GetsTask t k)
      then obtain rest where rest: "preloadedTasks s = t # rest"
        using ready sleeps by (cases "preloadedTasks s") (auto simp: choice_ready_def)
      obtain h' q where g: "greedy_tasks I limit 0 k rest (op_Add I (put_back I task h) t) = (h', q)"
        by (metis surj_pair)
      let ?b = "put_back I task h"
      have b: "invar ?b" "findable ?b" "tasks ?b = tasks (tasksWaitingList s)"
        using h put_back_findable [OF inv take] by (simp_all add: put_back_facts)
      have e: "distinct_ids (add_mset t (tasks ?b + mset rest))"
        using distinct_ids_sub [OF d] by (simp add: everything_def rest b(3))
      then have "findable (op_Add I ?b t)" using distinct_ids_add [OF e] b by (intro add_findable) (simp_all add: ids_plus)
      then have "findable h'" using g b e
        by (intro greedy_tasks_findable [OF _ _ _ g]) (simp_all add: add_invar add_tasks)
      then show ?thesis using g run take sleeps GetsTask rest by (auto simp: waiting_iteration_def)
    next
      case (GetsCancel tid k)
      define h1 where "h1 = (if map_option task_id task = Some tid then h else put_back I task h)"
      have h1: "invar h1" "findable h1"
        using h fh put_back_findable [OF inv take] by (simp_all add: h1_def put_back_facts)
      obtain b h2 where c: "op_DeleteIfExist I h1 tid = Some (b, h2)" "invar h2" using delete [OF h1(1), of tid] by metis
      have "findable h2" using delete_findable [OF h1 c(1)] by simp
      from greedy_cancels_result [OF c(2) this, of 0 limit k "tl (canceledTasks s)"] obtain h3 q where
        "greedy_cancels I limit 0 k (tl (canceledTasks s)) h2 = Some (h3, q)" "findable h3" by auto
      then show ?thesis using run take sleeps GetsCancel c(1) by (auto simp: waiting_iteration_def h1_def Let_def)
    qed
  qed
qed

end

context prioritized_task_list
begin

text \<open>From any state on, what the service has comes from what it had and what arrives.\<close>

lemma run_subset:
  assumes run: "waiting_run I limit s0 ls s" and s0: "invar (tasksWaitingList s0)"
  shows "invar (tasksWaitingList s) \<and> everything s \<subseteq># everything s0 + mset (arrived ls)"
  using run
proof induction
  case start
  with s0 show ?case by simp
next
  case (step ls s l s')
  from step(2) show ?case
  proof cases
    case (arrives t)
    then have "everything s' = add_mset t (everything s)" by (simp add: everything_def)
    with step(3) arrives show ?thesis by simp
  next
    case (cancel_arrives tid)
    then have "everything s' = everything s" by (simp add: everything_def)
    with step(3) cancel_arrives show ?thesis by simp
  next
    case 3: (iterates task h now choice)
    have inv: "invar (tasksWaitingList s)" using step(3) by simp
    note f = iteration_facts [OF inv subset_UNIV 3(2-4)]
    then have "everything s' \<subseteq># everything s" by simp
    with step(3) have "everything s' \<subseteq># everything s0 + mset (arrived ls)"
      by (blast intro: subset_mset.order_trans)
    with f 3(1) show ?thesis by simp
  qed
qed

end

context indexed_task_list
begin

lemma run_refines:
  assumes run: "waiting_run I limit (waiting_start h0) ls s" and h0: "invar h0" "findable h0" "tasks h0 = {#}"
    and d: "distinct (map task_id (arrived ls))"
  shows "findable (tasksWaitingList s) \<and>
    waiting_spec_run limit (abstract_waiting tasks (waiting_start h0)) ls (abstract_waiting tasks s)"
  using run d
proof induction
  case start
  with h0 show ?case by (simp add: waiting_start_def waiting_spec_run.spec_start)
next
  case (step ls s l s')
  from step(2) show ?case
  proof cases
    case (arrives t)
    with step(3,4) have "findable (tasksWaitingList s)" and
      r: "waiting_spec_run limit (abstract_waiting tasks (waiting_start h0)) ls (abstract_waiting tasks s)" by simp_all
    then show ?thesis using waiting_spec_run.spec_arrives [OF r, of t] by (simp add: arrives abstract_waiting_def)
  next
    case 2: (cancel_arrives tid)
    with step(3,4) have "findable (tasksWaitingList s)" and
      r: "waiting_spec_run limit (abstract_waiting tasks (waiting_start h0)) ls (abstract_waiting tasks s)" by simp_all
    then show ?thesis using waiting_spec_run.spec_cancel [OF r, of tid] by (simp add: 2 abstract_waiting_def)
  next
    case 3: (iterates task h now choice)
    then have dl: "distinct (map task_id (arrived ls))" using step(4) by simp
    note IH = step(3) [OF dl]
    note k = run_keeps [OF step(1) h0(1,3)]
    have inv: "invar (tasksWaitingList s)" using k by simp
    have de: "distinct_ids (everything s)" using distinct_ids_sub [OF distinct_ids_mset [OF dl]] k by blast
    have "findable (tasksWaitingList s')" using iteration_findable [OF inv _ de 3(2-4)] IH by blast
    moreover have "waiting_spec limit now choice (abstract_waiting tasks s) (abstract_waiting tasks s')"
      using iteration_refines [OF inv _ 3(2-4)] IH by blast
    ultimately show ?thesis using waiting_spec_run.spec_iterates IH 3(1) by blast
  qed
qed

text \<open>A cancelled task that was in the list is gone for good.\<close>

lemma cancel_removes:
  assumes run: "waiting_run I limit (waiting_start h0) ls s" and h0: "invar h0" "findable h0" "tasks h0 = {#}"
    and it: "waiting_step I limit s (Iterates now (GetsCancel tid k)) s1" "readyToSend s1 = readyToSend s"
    and mem: "tid \<in> ids (tasks (tasksWaitingList s))"
    and rest: "waiting_run I limit s1 ls' s2"
    and d: "distinct (map task_id (arrived (ls @ ls')))"
  shows "tid \<notin> ids (everything s2)"
proof -
  have arr: "arrived (ls @ ls') = arrived ls @ arrived ls'" by (simp add: arrived_def)
  have dl: "distinct (map task_id (arrived ls))" using d by (simp add: arr)
  note k = run_keeps [OF run h0(1,3)]
  have inv: "invar (tasksWaitingList s)" using k by simp
  have fin: "findable (tasksWaitingList s)" using run_refines [OF run h0 dl] by blast
  have de: "distinct_ids (everything s)" using distinct_ids_sub [OF distinct_ids_mset [OF dl]] k by blast
  obtain t where t: "t \<in># tasks (tasksWaitingList s)" "task_id t = tid" using mem by (auto simp: ids_def)
  then obtain M where M: "tasks (tasksWaitingList s) = add_mset t M" by (metis multi_member_split)
  have "distinct_ids (add_mset t (M + mset (preloadedTasks s) + image_mset snd (mset (readyToSend s))))"
    using de by (simp add: everything_def M)
  then have "tid \<notin> ids (M + mset (preloadedTasks s) + image_mset snd (mset (readyToSend s)))"
    using distinct_ids_add t(2) by blast
  then have out: "tid \<notin> task_id ` set (preloadedTasks s)" "tid \<notin> task_id ` snd ` set (readyToSend s)"
    by (auto simp: ids_def)
  from it(1) obtain task h where i: "op_Take I (tasksWaitingList s) = Some (task, h)"
    "0 < task_sleep now task \<longrightarrow> choice_ready (task_sleep now task) now (GetsCancel tid k) s"
    "waiting_iteration I limit now (GetsCancel tid k) s = Some s1" by (rule iterates_cases) blast
  have inv1: "invar (tasksWaitingList s1)" using iteration_facts [OF inv subset_UNIV i] by simp
  have "tid \<notin> ids (everything s1)"
    using iteration_refines [OF inv fin i] it(2)
    by cases (use out in \<open>auto simp: everything_def unless_def ids_def abstract_waiting_def image_image\<close>)
  moreover have "tid \<notin> ids (mset (arrived ls'))"
  proof -
    have "t \<in># everything s" using t(1) by (simp add: everything_def)
    then have "t \<in> set (arrived ls)" using k by (metis mset_subset_eqD set_mset_mset)
    then have "tid \<in> task_id ` set (arrived ls)" using t(2) by blast
    then have "tid \<notin> task_id ` set (arrived ls')" using d by (auto simp: arr)
    then show ?thesis by (simp add: ids_def)
  qed
  moreover have "everything s2 \<subseteq># everything s1 + mset (arrived ls')" using run_subset [OF rest inv1] by simp
  ultimately show ?thesis by (force simp: ids_def dest!: mset_subset_eqD)
qed

end

section \<open>Sample runs\<close>

definition sample_task :: task where
  "sample_task = \<lparr>task_id = ''a'', exec_time = 50\<rparr>"

lemma sample_sleep: "0 < task_sleep now None"
  "task_sleep (10 * second) (Some sample_task) = 40 * second"
  "task_sleep 10000000000 (Some sample_task) = 40000000000"
  by (simp_all add: task_sleep_def max_int64_def sample_task_def wrap64_def Unix_def second_def)

lemma sample_take:
  obtains h where "Take empty_task_list = Some (None, empty_task_list)"
    "Take (Add empty_task_list sample_task) = Some (Some sample_task, h)" "h = h"
proof -
  have "Take empty_task_list = Some (None, empty_task_list)" by (simp add: eval_task_list)
  moreover obtain t h where "Take (Add empty_task_list sample_task) = Some (Some t, h)" "add_mset t (tasks_in h) = {#sample_task#}"
    using heap_list.take_some [of "Add empty_task_list sample_task"] by (auto simp: Add_facts)
  ultimately show thesis using that by auto
qed

abbreviation (input) sample_waiting :: "task_list \<Rightarrow> task list \<Rightarrow> string list \<Rightarrow> (int \<times> task) list \<Rightarrow> task_list waiting" where
  "sample_waiting h q c out \<equiv> \<lparr>tasksWaitingList = h, preloadedTasks = q, canceledTasks = c, readyToSend = out\<rparr>"

lemma sample_steps:
  defines "h0 \<equiv> empty_task_list" and "h1 \<equiv> Add empty_task_list sample_task"
  shows "waiting_step heap_ops 10 (sample_waiting h0 [sample_task] c out) (Iterates (1 * second) (GetsTask sample_task 0)) (sample_waiting h1 [] c out)"
    "waiting_step heap_ops 10 (sample_waiting h0 q [''a''] out) (Iterates (1 * second) (GetsCancel ''a'' 0)) (sample_waiting h0 q [] out)"
    "\<exists>h. waiting_step heap_ops 10 (sample_waiting h1 q c out) (Iterates (10 * second) (TimerFires (50 * second)))
       (sample_waiting h q c (out @ [(50 * second, sample_task)]))"
    "\<exists>h. waiting_step heap_ops 10 (sample_waiting h1 q [''a''] out) (Iterates (10 * second) (GetsCancel ''a'' 0)) (sample_waiting h q [] out)"
proof -
  obtain h where t: "Take h0 = Some (None, h0)" "Take h1 = Some (Some sample_task, h)"
    unfolding h0_def h1_def by (rule sample_take)
  have d: "DeleteIfExist h0 ''a'' = Some (False, h0)" by (simp add: h0_def eval_task_list)
  show "waiting_step heap_ops 10 (sample_waiting h0 [sample_task] c out) (Iterates (1 * second) (GetsTask sample_task 0)) (sample_waiting h1 [] c out)"
    by (rule waiting_step.iterates [where task = None and h = h0])
      (simp_all add: t sample_sleep choice_ready_def waiting_iteration_def put_back_def h0_def h1_def t [unfolded h0_def])
  show "waiting_step heap_ops 10 (sample_waiting h0 q [''a''] out) (Iterates (1 * second) (GetsCancel ''a'' 0)) (sample_waiting h0 q [] out)"
    by (rule waiting_step.iterates [where task = None and h = h0])
      (simp_all add: t d sample_sleep choice_ready_def waiting_iteration_def put_back_def)
  have "waiting_step heap_ops 10 (sample_waiting h1 q c out) (Iterates (10 * second) (TimerFires (50 * second)))
       (sample_waiting h q c (out @ [(50 * second, sample_task)]))"
    by (rule waiting_step.iterates [where task = "Some sample_task" and h = h])
      (simp_all add: t sample_sleep choice_ready_def waiting_iteration_def send_ready_def second_def)
  then show "\<exists>h. waiting_step heap_ops 10 (sample_waiting h1 q c out) (Iterates (10 * second) (TimerFires (50 * second)))
       (sample_waiting h q c (out @ [(50 * second, sample_task)]))" by blast
  have inv: "wf_list h" using heap_list.take_result(1) [of h1 "Some sample_task" h] t(2) by (simp add: h1_def Add_facts)
  obtain b h' where "DeleteIfExist h ''a'' = Some (b, h')" using heap_list.delete [OF inv, of "''a''"] by auto
  then have "waiting_step heap_ops 10 (sample_waiting h1 q [''a''] out) (Iterates (10 * second) (GetsCancel ''a'' 0)) (sample_waiting h' q [] out)"
    by (intro waiting_step.iterates [where task = "Some sample_task" and h = h])
      (simp_all add: t sample_sleep choice_ready_def waiting_iteration_def second_def, simp_all add: sample_task_def)
  then show "\<exists>h. waiting_step heap_ops 10 (sample_waiting h1 q [''a''] out) (Iterates (10 * second) (GetsCancel ''a'' 0)) (sample_waiting h q [] out)"
    by blast
qed

lemma sample_runs:
  defines "run \<equiv> waiting_run heap_ops 10 (waiting_start (NewPrioritizedTask []))"
  obtains s1 s2 s3 where
    "run [Arrives sample_task, Iterates (1 * second) (GetsTask sample_task 0), Iterates (10 * second) (TimerFires (50 * second))] s1"
    "readyToSend s1 = [(50 * second, sample_task)]"
    "run [Arrives sample_task, CancelArrives ''a'', Iterates (1 * second) (GetsCancel ''a'' 0),
        Iterates (1 * second) (GetsTask sample_task 0), Iterates (10 * second) (TimerFires (50 * second))] s2"
    "readyToSend s2 = [(50 * second, sample_task)]"
    "run [Arrives sample_task, Iterates (1 * second) (GetsTask sample_task 0), CancelArrives ''a'']
        (sample_waiting (Add empty_task_list sample_task) [] [''a''] [])"
    "waiting_step heap_ops 10 (sample_waiting (Add empty_task_list sample_task) [] [''a''] [])
        (Iterates (10 * second) (GetsCancel ''a'' 0)) s3" "readyToSend s3 = []"
proof -
  let ?h0 = empty_task_list and ?h1 = "Add empty_task_list sample_task" and ?t = sample_task
  have start: "waiting_start (NewPrioritizedTask []) = sample_waiting ?h0 [] [] []"
    by (simp add: waiting_start_def NewPrioritizedTask_nil)
  have arr: "waiting_step heap_ops 10 (sample_waiting ?h0 [] [] []) (Arrives ?t) (sample_waiting ?h0 [?t] [] [])"
    using waiting_step.arrives [of heap_ops 10 "sample_waiting ?h0 [] [] []" ?t] by simp
  have can: "waiting_step heap_ops 10 (sample_waiting h q [] out) (CancelArrives ''a'') (sample_waiting h q [''a''] out)" for h q out
    using waiting_step.cancel_arrives [of heap_ops 10 "sample_waiting h q [] out" "''a''"] by simp
  obtain h h' where fire: "waiting_step heap_ops 10 (sample_waiting ?h1 [] [] []) (Iterates (10 * second) (TimerFires (50 * second)))
       (sample_waiting h [] [] ([] @ [(50 * second, ?t)]))"
    and del: "waiting_step heap_ops 10 (sample_waiting ?h1 [] [''a''] []) (Iterates (10 * second) (GetsCancel ''a'' 0)) (sample_waiting h' [] [] [])"
    using sample_steps(3,4) by blast
  have r0: "run [Arrives ?t] (sample_waiting ?h0 [?t] [] [])"
    using waiting_run.step [OF waiting_run.start arr] by (simp add: run_def start)
  have r1: "run [Arrives ?t, Iterates (1 * second) (GetsTask ?t 0)] (sample_waiting ?h1 [] [] [])"
    using waiting_run.step [OF r0 [unfolded run_def] sample_steps(1)] by (simp add: run_def)
  have r2: "run [Arrives ?t, CancelArrives ''a''] (sample_waiting ?h0 [?t] [''a''] [])"
    using waiting_run.step [OF r0 [unfolded run_def] can] by (simp add: run_def)
  have r3: "run [Arrives ?t, CancelArrives ''a'', Iterates (1 * second) (GetsCancel ''a'' 0)] (sample_waiting ?h0 [?t] [] [])"
    using waiting_run.step [OF r2 [unfolded run_def] sample_steps(2)] by (simp add: run_def)
  have r4: "run [Arrives ?t, CancelArrives ''a'', Iterates (1 * second) (GetsCancel ''a'' 0), Iterates (1 * second) (GetsTask ?t 0)]
      (sample_waiting ?h1 [] [] [])"
    using waiting_run.step [OF r3 [unfolded run_def] sample_steps(1)] by (simp add: run_def)
  show thesis
  proof (rule that)
    show "run [Arrives ?t, Iterates (1 * second) (GetsTask ?t 0), Iterates (10 * second) (TimerFires (50 * second))]
        (sample_waiting h [] [] ([] @ [(50 * second, ?t)]))"
      using waiting_run.step [OF r1 [unfolded run_def] fire] by (simp add: run_def)
    show "run [Arrives ?t, CancelArrives ''a'', Iterates (1 * second) (GetsCancel ''a'' 0), Iterates (1 * second) (GetsTask ?t 0),
        Iterates (10 * second) (TimerFires (50 * second))] (sample_waiting h [] [] ([] @ [(50 * second, ?t)]))"
      using waiting_run.step [OF r4 [unfolded run_def] fire] by (simp add: run_def)
    show "run [Arrives ?t, Iterates (1 * second) (GetsTask ?t 0), CancelArrives ''a''] (sample_waiting ?h1 [] [''a''] [])"
      using waiting_run.step [OF r1 [unfolded run_def] can] by (simp add: run_def)
    show "waiting_step heap_ops 10 (sample_waiting ?h1 [] [''a''] []) (Iterates (10 * second) (GetsCancel ''a'' 0)) (sample_waiting h' [] [] [])"
      by (rule del)
  qed simp_all
qed

section \<open>Properties\<close>

text \<open>
  C8: No task is lost or made up between the preloader and the sender: at every moment of every run,
  what is in the waiting list, on its way in, or sent, is part of what the preloader sent; and of a
  task that was never cancelled there are as many copies as the preloader sent.
\<close>

theorem waiting_conserves_tasks:
  assumes "waiting_run heap_ops limit (waiting_start (NewPrioritizedTask [])) ls s"
  shows "tasks_in (tasksWaitingList s) + mset (preloadedTasks s) + image_mset snd (mset (readyToSend s)) \<subseteq># mset (arrived ls) \<and>
    (\<forall>t. task_id t \<notin> canceled ls \<longrightarrow>
       count (tasks_in (tasksWaitingList s) + mset (preloadedTasks s) + image_mset snd (mset (readyToSend s))) t =
       count (mset (arrived ls)) t)"
proof -
  have count: "task_id t \<notin> C \<Longrightarrow> count (unless C M) t = count M t" for t C M by (simp add: unless_def)
  note k = heap_list.run_keeps [OF assms [unfolded NewPrioritizedTask_nil] wf_empty(1,2)]
  then show ?thesis using count unfolding heap_list.everything_def by metis
qed

theorem waiting_conserves_tasks_witness:
  "\<exists>ls s. waiting_run heap_ops 10 (waiting_start (NewPrioritizedTask [])) ls s \<and> arrived ls = [sample_task] \<and>
     tasks_in (tasksWaitingList s) + mset (preloadedTasks s) + image_mset snd (mset (readyToSend s)) = {#sample_task#}"
proof -
  let ?ls = "[Arrives sample_task, Iterates (1 * second) (GetsTask sample_task 0), Iterates (10 * second) (TimerFires (50 * second))]"
  obtain s where r: "waiting_run heap_ops 10 (waiting_start (NewPrioritizedTask [])) ?ls s" by (rule sample_runs)
  have l: "arrived ?ls = [sample_task]" "canceled ?ls = {}" by (simp_all add: arrived_def canceled_def)
  from waiting_conserves_tasks [OF r] r l show ?thesis
    by (intro exI [of _ ?ls] exI [of _ s]) (auto intro: multiset_eqI)
qed

text \<open>
  C9: No task is sent before its time: when a task goes to the sender, the second it is to be
  executed in has begun. The clock is within the range of 64-bit nanoseconds, and execution times are
  within the 292 years that range covers.
\<close>

theorem waiting_never_early:
  assumes "waiting_run heap_ops limit (waiting_start (NewPrioritizedTask [])) ls s"
    and "clock_sane ls" "times_sane (arrived ls)" "(at, t) \<in> set (readyToSend s)"
  shows "exec_time t \<le> Unix at"
  using heap_list.run_keeps [OF assms(1) [unfolded NewPrioritizedTask_nil] wf_empty(1,2)] assms(2-4) by fast

theorem waiting_never_early_witness:
  "\<exists>ls s. waiting_run heap_ops 10 (waiting_start (NewPrioritizedTask [])) ls s \<and>
     readyToSend s = [(50 * second, sample_task)] \<and> exec_time sample_task \<le> Unix (50 * second)"
proof -
  let ?ls = "[Arrives sample_task, Iterates (1 * second) (GetsTask sample_task 0), Iterates (10 * second) (TimerFires (50 * second))]"
  obtain s where r: "waiting_run heap_ops 10 (waiting_start (NewPrioritizedTask [])) ?ls s"
    "readyToSend s = [(50 * second, sample_task)]" by (rule sample_runs)
  have "clock_sane ?ls" "times_sane (arrived ?ls)"
    by (auto simp: clock_sane_def times_sane_def arrived_def sample_task_def second_def)
  from waiting_never_early [OF r(1) this, of "50 * second" sample_task] r show ?thesis by auto
qed

text \<open>
  C33: The waiting service never panics: in every reachable state the list answers \<open>Take\<close>, and
  whatever the select statement can choose, the iteration completes; a nil task would be
  dereferenced only if the timer of \<open>math.MaxInt64\<close> nanoseconds fired.
\<close>

theorem waiting_never_panics:
  assumes "waiting_run heap_ops limit (waiting_start (NewPrioritizedTask [])) ls s" "0 < now"
  shows "\<exists>task h. Take (tasksWaitingList s) = Some (task, h) \<and>
    ((0 < task_sleep now task \<longrightarrow> choice_ready (task_sleep now task) now choice s \<and> choice_clock_sane choice) \<longrightarrow>
     (\<exists>s'. waiting_iteration heap_ops limit now choice s = Some s'))"
proof -
  have inv: "wf_list (tasksWaitingList s)"
    using heap_list.run_keeps [OF assms(1) [unfolded NewPrioritizedTask_nil] wf_empty(1,2)] by simp
  obtain task h where t: "op_Take heap_ops (tasksWaitingList s) = Some (task, h)" using heap_list.take_either [OF inv] by metis
  with heap_list.iteration_no_panic [OF inv assms(2) t] show ?thesis by simp
qed

theorem waiting_never_panics_witness:
  "\<exists>s'. waiting_iteration heap_ops 10 second (GetsTask sample_task 0)
     (sample_waiting empty_task_list [sample_task] [] []) = Some s'"
proof -
  have "waiting_run heap_ops 10 (waiting_start (NewPrioritizedTask [])) ([] @ [Arrives sample_task])
      ((waiting_start (NewPrioritizedTask []))\<lparr>preloadedTasks := preloadedTasks (waiting_start (NewPrioritizedTask [])) @ [sample_task]\<rparr>)"
    by (rule waiting_run.step [OF waiting_run.start waiting_step.arrives])
  then have r: "waiting_run heap_ops 10 (waiting_start (NewPrioritizedTask [])) [Arrives sample_task]
      (sample_waiting empty_task_list [sample_task] [] [])"
    by (simp add: waiting_start_def NewPrioritizedTask_nil)
  have "choice_ready d second (GetsTask sample_task 0) (sample_waiting empty_task_list [sample_task] [] [])"
    "choice_clock_sane (GetsTask sample_task 0)" "0 < second" for d
    by (simp_all add: choice_ready_def choice_clock_sane_def second_def)
  with waiting_never_panics [OF r, of second "GetsTask sample_task 0"] show ?thesis by blast
qed

text \<open>
  C7: While the ids of the tasks that arrive are distinct, the service refines its abstract
  specification over a multiset of tasks: every run is, label by label, a run of the specification,
  in which a step sends one of the earliest tasks when it is due, or receives or removes tasks while
  none is due.
\<close>

theorem waiting_refines_spec:
  assumes "waiting_run heap_ops limit (waiting_start (NewPrioritizedTask [])) ls s" "distinct (map task_id (arrived ls))"
  shows "waiting_spec_run limit (waiting_start {#}) ls (abstract_waiting tasks_in s)"
proof -
  have "abstract_waiting tasks_in (waiting_start empty_task_list) = waiting_start {#}"
    by (simp add: abstract_waiting_def waiting_start_def)
  then show ?thesis
    using heap_index.run_refines [OF assms(1) [unfolded NewPrioritizedTask_nil] wf_empty(1,3,2) assms(2)] by simp
qed

theorem waiting_refines_spec_witness:
  "\<exists>ls a. waiting_spec_run 10 (waiting_start {#}) ls a \<and> readyToSend a = [(50 * second, sample_task)]"
proof -
  let ?ls = "[Arrives sample_task, Iterates (1 * second) (GetsTask sample_task 0), Iterates (10 * second) (TimerFires (50 * second))]"
  obtain s where r: "waiting_run heap_ops 10 (waiting_start (NewPrioritizedTask [])) ?ls s"
    "readyToSend s = [(50 * second, sample_task)]" by (rule sample_runs)
  have "distinct (map task_id (arrived ?ls))" by (simp add: arrived_def)
  from waiting_refines_spec [OF r(1) this] r(2) show ?thesis by (metis abstract_waiting_simps(4))
qed

text \<open>
  C21: Cancelling works once the task is in the waiting list, as long as no task id arrives twice: after
  the service has processed the cancellation of an id in its list, no task of that id is ever sent. With
  an id that arrives again this can fail, as \<open>duplicate_id_escapes_delete\<close> and \<open>recreated_steps\<close> show.
\<close>

theorem cancelled_task_is_never_sent:
  assumes "waiting_run heap_ops limit (waiting_start (NewPrioritizedTask [])) ls s"
    and "waiting_step heap_ops limit s (Iterates now (GetsCancel tid k)) s1" "readyToSend s1 = readyToSend s"
    and "tid \<in> ids (tasks_in (tasksWaitingList s))"
    and "waiting_run heap_ops limit s1 ls' s2" "distinct (map task_id (arrived (ls @ ls')))"
  shows "tid \<notin> task_id ` snd ` set (readyToSend s2)"
  using heap_index.cancel_removes [OF assms(1) [unfolded NewPrioritizedTask_nil] wf_empty(1,3,2) assms(2-6)]
  by (auto simp: heap_list.everything_def ids_def)

theorem cancelled_task_is_never_sent_witness:
  "\<exists>s1. waiting_step heap_ops 10 (sample_waiting (Add empty_task_list sample_task) [] [''a''] [])
      (Iterates (10 * second) (GetsCancel ''a'' 0)) s1 \<and> ''a'' \<notin> task_id ` snd ` set (readyToSend s1)"
proof -
  let ?ls = "[Arrives sample_task, Iterates (1 * second) (GetsTask sample_task 0), CancelArrives ''a'']"
  let ?s = "sample_waiting (Add empty_task_list sample_task) [] [''a''] []"
  obtain s1 where r: "waiting_run heap_ops 10 (waiting_start (NewPrioritizedTask [])) ?ls ?s"
    "waiting_step heap_ops 10 ?s (Iterates (10 * second) (GetsCancel ''a'' 0)) s1" "readyToSend s1 = []"
    by (rule sample_runs)
  have "readyToSend s1 = readyToSend ?s" "''a'' \<in> ids (tasks_in (tasksWaitingList ?s))"
    "distinct (map task_id (arrived (?ls @ [])))"
    using r(3) by (simp_all add: Add_facts) (simp_all add: arrived_def sample_task_def)
  from cancelled_task_is_never_sent [OF r(1,2) this(1,2) waiting_run.start this(3)] r(2) show ?thesis by blast
qed

text \<open>
  A cancellation that overtakes its task is lost: the select statement may receive the id from
  \<open>canceledTasks\<close> before it receives the task from \<open>preloadedTasks\<close>; the task is then kept and sent at
  its time, although \<open>CancelIfExist\<close> has deleted it from the database and reported success.
\<close>

theorem cancel_before_arrival_is_lost:
  "\<exists>s. waiting_run heap_ops 10 (waiting_start (NewPrioritizedTask []))
       [Arrives sample_task, CancelArrives (task_id sample_task), Iterates (1 * second) (GetsCancel (task_id sample_task) 0),
        Iterates (1 * second) (GetsTask sample_task 0), Iterates (10 * second) (TimerFires (50 * second))] s \<and>
     readyToSend s = [(50 * second, sample_task)]"
  by (rule sample_runs) (auto simp: sample_task_def)

text \<open>
  \<open>CancelIfExist\<close> on the MySQL task manager never panics; on success the task was stored, is
  removed, nothing else changes and its id is sent to \<open>Run\<close>; on an error nothing is sent, and the
  error says whether the task was missing or could not be deleted.
\<close>

theorem CancelIfExist_deletes:
  assumes "repo_sound r my w" "1 \<le> maxRetry s"
  shows "\<exists>err ids w'. CancelIfExist (manager_ops s (mysql_ops r my) uuid_ok) tid w = Some ((err, ids), w') \<and>
    deletion_outcome tid (stored_tasks w) err (stored_tasks w') \<and> repo_sound r my w' \<and>
    ids = (if err = None then [tid] else [])"
proof -
  let ?TM = "manager_ops s (mysql_ops r my) uuid_ok"
  obtain err w1 where d: "tm_Delete ?TM tid w = Some (err, w1)" "repo_sound r my w1"
    "deletion_outcome tid (stored_tasks w) err (stored_tasks w1)"
    using mysql_repo.manager.delete [of r my w s uuid_ok tid] assms by blast
  obtain es mo where p: "publish_or_log DeletingRate 1 w1 = w1\<lparr>events := es, monitor := mo, clock_reads := clock_reads w1\<rparr>"
    using publish_or_log_world [of DeletingRate 1 w1] by blast
  have "repo_sound r my (publish_or_log DeletingRate 1 w1)" "stored_tasks (publish_or_log DeletingRate 1 w1) = stored_tasks w1"
    unfolding p using mysql_repo.env_irrelevant [OF d(2)] by blast+
  with d show ?thesis by (cases err) (simp_all add: CancelIfExist_def)
qed

lemma sample_delete:
  "\<exists>w'. task_manager_Delete sample_manager (mysql_ops sample_repository example_mysql) ''a'' (counted_world []) = Some (None, w')"
proof -
  have "map_option fst (task_manager_Delete sample_manager (mysql_ops sample_repository example_mysql) ''a'' (counted_world [])) =
      Some None"
    by (simp add: task_manager_Delete_def retry_def retry_from.simps sample_manager_def delete_tasks_def mysql_ops_def
        repo_Delete_def exec_call_def next_outcome_def counted_world_def sample_world_def sample_repository_def
        sample_database_def sql_delete_tasks_def count_and_clean_def wrap32_def go_rem_def deleteEmptyCollections_def
        unix_timestamp_def sql_empty_collections_def read_rows_def close_rows_def plain_call_def tasks_of_collection_def
        sql_delete_collections_def)
  then show ?thesis by auto
qed

theorem CancelIfExist_deletes_witness:
  "\<exists>w'. CancelIfExist (manager_ops sample_manager (mysql_ops sample_repository example_mysql) (\<lambda>_. True)) ''a''
      (counted_world []) = Some ((None, [''a'']), w') \<and> stored_tasks w' = Map.empty"
proof -
  let ?TM = "manager_ops sample_manager (mysql_ops sample_repository example_mysql) (\<lambda>_. True)"
  obtain w1 where "task_manager_Delete sample_manager (mysql_ops sample_repository example_mysql) ''a'' (counted_world []) = Some (None, w1)"
    using sample_delete by blast
  then have c: "\<exists>w'. CancelIfExist ?TM ''a'' (counted_world []) = Some ((None, [''a'']), w')"
    by (simp add: CancelIfExist_def manager_ops_def)
  have s: "repo_sound sample_repository example_mysql (counted_world [])" by simp
  from CancelIfExist_deletes [OF s sample_tries, of "\<lambda>_. True" "''a''"] c show ?thesis
    by (auto simp: deletion_outcome_def fun_eq_iff)
qed

lemma Take_forgets_id: "Take h = Some (Some t, h') \<Longrightarrow> id_index h' (task_id t) = None"
  by (auto simp: Take_def Let_def bind_eq_Some_conv split: if_splits)

text \<open>
  A cancellation of the task that is due next removes that task and no other, whatever else has its id.
\<close>

lemma cancels_only_the_next:
  assumes "wf_list (tasksWaitingList s)" "Take (tasksWaitingList s) = Some (Some t, h)" "0 < task_sleep now (Some t)"
    and "canceledTasks s = task_id t # q"
  shows "waiting_step heap_ops limit s (Iterates now (GetsCancel (task_id t) 0)) (s\<lparr>tasksWaitingList := h, canceledTasks := q\<rparr>)"
    "tasks_in (tasksWaitingList s) = add_mset t (tasks_in h)"
proof -
  have "DeleteIfExist h (task_id t) = Some (False, h)"
    using Take_forgets_id [OF assms(2)] by (simp add: DeleteIfExist_def)
  then have "waiting_iteration heap_ops limit now (GetsCancel (task_id t) 0) s = Some (s\<lparr>tasksWaitingList := h, canceledTasks := q\<rparr>)"
    using assms(2-4) by (simp add: waiting_iteration_def)
  then show "waiting_step heap_ops limit s (Iterates now (GetsCancel (task_id t) 0)) (s\<lparr>tasksWaitingList := h, canceledTasks := q\<rparr>)"
    using assms(2,4) by (intro waiting_step.iterates) (simp_all add: choice_ready_def)
  show "tasks_in (tasksWaitingList s) = add_mset t (tasks_in h)"
    using heap_list.take_result(2) [OF assms(1)] assms(2) by simp
qed

text \<open>
  So a task that was created again under the id of a deleted one, for an earlier time, is dropped in its
  place when the service receives it before the cancellation, although the cancellation was sent first: the
  deleted task stays in the list and is sent at its own time.
\<close>

lemma recreated_steps:
  fixes t u :: task
  assumes id: "task_id u = task_id t" and earlier: "exec_time u < exec_time t"
    and sleeps: "0 < task_sleep now (Some t)" "0 < task_sleep now (Some u)" "now + task_sleep now (Some t) \<le> at"
  obtains h1 h2 h3 h4 where
    "waiting_step heap_ops limit (sample_waiting (NewPrioritizedTask []) [t] [] []) (Iterates now (GetsTask t 0)) (sample_waiting h1 [] [] [])"
    "waiting_step heap_ops limit (sample_waiting h1 [u] [task_id t] []) (Iterates now (GetsTask u 0)) (sample_waiting h2 [] [task_id t] [])"
    "waiting_step heap_ops limit (sample_waiting h2 [] [task_id t] []) (Iterates now (GetsCancel (task_id t) 0)) (sample_waiting h3 [] [] [])"
    "waiting_step heap_ops limit (sample_waiting h3 [] [] []) (Iterates now (TimerFires at)) (sample_waiting h4 [] [] [(at, t)])"
    "tasks_in h4 = {#}"
proof -
  have receives: "waiting_step heap_ops limit (sample_waiting h [v] cs []) (Iterates now (GetsTask v 0))
      (sample_waiting (Add (put_back heap_ops task g) v) [] cs [])"
    if "Take h = Some (task, g)" "0 < task_sleep now task" for h v cs task g
    using that by (intro waiting_step.iterates) (simp_all add: waiting_iteration_def choice_ready_def)
  let ?h0 = "NewPrioritizedTask []" and ?h1 = "Add (NewPrioritizedTask []) t"
  have take0: "Take ?h0 = Some (None, ?h0)" by (simp add: NewPrioritizedTask_nil Take_def empty_task_list_def items_Len_def)
  have h1: "wf_list ?h1" "tasks_in ?h1 = {#t#}" by (simp_all add: Add_facts NewPrioritizedTask_facts)
  obtain g1 where g1: "Take ?h1 = Some (Some t, g1)" "wf_list g1" "tasks_in g1 = {#}"
    using heap_list.take_some [OF h1(1)] h1(2) by auto
  let ?h2 = "Add (Add g1 t) u"
  have h2: "wf_list ?h2" "tasks_in ?h2 = {#t, u#}" by (simp_all add: Add_facts g1)
  obtain v h3 where v: "Take ?h2 = Some (Some v, h3)" "wf_list h3" "tasks_in ?h2 = add_mset v (tasks_in h3)"
    "\<forall>x \<in># tasks_in h3. exec_time v \<le> exec_time x" using heap_list.take_some [OF h2(1)] h2(2) by auto
  have "v \<noteq> t"
  proof
    assume "v = t"
    then have "{#u#} = tasks_in h3" using v(3) h2(2) by simp
    then have "u \<in># tasks_in h3" by (simp flip: \<open>{#u#} = tasks_in h3\<close>)
    with v(4) \<open>v = t\<close> earlier show False by auto
  qed
  moreover have "v \<in># tasks_in ?h2" using v(3) by simp
  ultimately have vu: "v = u" unfolding h2(2) by auto
  then have h3: "tasks_in h3 = {#t#}" using v(3) h2(2) by (simp add: add_mset_commute [of t u])
  obtain h4 where h4: "Take h3 = Some (Some t, h4)" "tasks_in h4 = {#}"
    using heap_list.take_some [OF v(2)] h3 by auto
  show thesis
  proof (rule that)
    show "waiting_step heap_ops limit (sample_waiting ?h0 [t] [] []) (Iterates now (GetsTask t 0)) (sample_waiting ?h1 [] [] [])"
      using receives [OF take0, of t "[]"] by (simp add: task_sleep_def max_int64_def put_back_def)
    show "waiting_step heap_ops limit (sample_waiting ?h1 [u] [task_id t] []) (Iterates now (GetsTask u 0)) (sample_waiting ?h2 [] [task_id t] [])"
      using receives [OF g1(1) sleeps(1), of u "[task_id t]"] by (simp add: put_back_def)
    show "waiting_step heap_ops limit (sample_waiting ?h2 [] [task_id t] []) (Iterates now (GetsCancel (task_id t) 0)) (sample_waiting h3 [] [] [])"
      using cancels_only_the_next(1) [of "sample_waiting ?h2 [] [task_id t] []" u h3 now "[]" limit] h2(1) v(1) vu id sleeps(2) by simp
    show "waiting_step heap_ops limit (sample_waiting h3 [] [] []) (Iterates now (TimerFires at)) (sample_waiting h4 [] [] [(at, t)])"
      by (rule waiting_step.iterates [where task = "Some t" and h = h4])
        (simp_all add: h4(1) sleeps(1,3) waiting_iteration_def choice_ready_def send_ready_def)
    show "tasks_in h4 = {#}" by (rule h4(2))
  qed
qed

end
