(* ===== verification/Task_Buffer.thy ===== *)
theory Task_Buffer
  imports Contracts
begin

text \<open>
  The unbounded buffer of \<open>sender_service/task_queue.go\<close> that takes the tasks that were rolled back: two
  channels of capacity 1 and the goroutine \<open>run\<close> that moves values from \<open>In\<close> over a list to \<open>Out\<close>.
  The other goroutines put on \<open>In\<close>, may close it, and get from \<open>Out\<close>; every interleaving is a run of
  \<open>buffer_step\<close>. The specification is a plain queue.
\<close>

section \<open>The buffer\<close>

record 'v channel =
  chan_queue :: "'v list"
  chan_closed :: bool

record 'v buffer =
  buf_In :: "'v channel option"
  buf_Out :: "'v channel"
  buf_list :: "'v list"
  buf_runs :: bool

definition NewBuffer :: "'v buffer" where
  "NewBuffer = \<lparr>buf_In = Some \<lparr>chan_queue = [], chan_closed = False\<rparr>,
     buf_Out = \<lparr>chan_queue = [], chan_closed = False\<rparr>, buf_list = [], buf_runs = True\<rparr>"

definition chan_cap :: nat where
  "chan_cap = 1"

definition close_Out :: "'v buffer \<Rightarrow> 'v buffer" where
  "close_Out b = b\<lparr>buf_Out := (buf_Out b)\<lparr>chan_closed := True\<rparr>, buf_runs := False\<rparr>"

text \<open>
  \<open>buf_In\<close> is \<open>None\<close> once \<open>b.In\<close> is nil. A label says what another goroutine does (\<open>Puts\<close>, \<open>Closes\<close>,
  \<open>Gets\<close>) or that \<open>run\<close> goes on (\<open>Moves\<close>).
\<close>

datatype 'v buffer_label = Puts 'v | Closes | Gets 'v | Moves

inductive buffer_step :: "'v buffer \<Rightarrow> 'v buffer_label \<Rightarrow> 'v buffer \<Rightarrow> bool" where
  put: "buf_In b = Some c \<Longrightarrow> \<not> chan_closed c \<Longrightarrow> length (chan_queue c) < chan_cap \<Longrightarrow>
    buffer_step b (Puts v) (b\<lparr>buf_In := Some (c\<lparr>chan_queue := chan_queue c @ [v]\<rparr>)\<rparr>)"
| close_In: "buf_In b = Some c \<Longrightarrow> \<not> chan_closed c \<Longrightarrow>
    buffer_step b Closes (b\<lparr>buf_In := Some (c\<lparr>chan_closed := True\<rparr>)\<rparr>)"
| get: "chan_queue (buf_Out b) = v # vs \<Longrightarrow>
    buffer_step b (Gets v) (b\<lparr>buf_Out := (buf_Out b)\<lparr>chan_queue := vs\<rparr>\<rparr>)"
| run_no_In: "buf_runs b \<Longrightarrow> buf_list b = [] \<Longrightarrow> buf_In b = None \<Longrightarrow> buffer_step b Moves (close_Out b)"
| run_In_ended: "buf_runs b \<Longrightarrow> buf_list b = [] \<Longrightarrow> buf_In b = Some c \<Longrightarrow> chan_queue c = [] \<Longrightarrow> chan_closed c \<Longrightarrow>
    buffer_step b Moves (close_Out b)"
| run_first: "buf_runs b \<Longrightarrow> buf_list b = [] \<Longrightarrow> buf_In b = Some c \<Longrightarrow> chan_queue c = v # vs \<Longrightarrow>
    buffer_step b Moves (b\<lparr>buf_In := Some (c\<lparr>chan_queue := vs\<rparr>), buf_list := [v]\<rparr>)"
| run_front: "buf_runs b \<Longrightarrow> buf_list b = front # rest \<Longrightarrow> length (chan_queue (buf_Out b)) < chan_cap \<Longrightarrow>
    buffer_step b Moves (b\<lparr>buf_Out := (buf_Out b)\<lparr>chan_queue := chan_queue (buf_Out b) @ [front]\<rparr>, buf_list := rest\<rparr>)"
| run_next: "buf_runs b \<Longrightarrow> buf_list b = front # rest \<Longrightarrow> buf_In b = Some c \<Longrightarrow> chan_queue c = v # vs \<Longrightarrow>
    buffer_step b Moves (b\<lparr>buf_In := Some (c\<lparr>chan_queue := vs\<rparr>), buf_list := buf_list b @ [v]\<rparr>)"
| run_In_closed: "buf_runs b \<Longrightarrow> buf_list b = front # rest \<Longrightarrow> buf_In b = Some c \<Longrightarrow> chan_queue c = [] \<Longrightarrow> chan_closed c \<Longrightarrow>
    buffer_step b Moves (b\<lparr>buf_In := None\<rparr>)"

inductive buffer_run :: "'v buffer \<Rightarrow> 'v buffer_label list \<Rightarrow> 'v buffer \<Rightarrow> bool" for b0 where
  start: "buffer_run b0 [] b0"
| step: "buffer_run b0 ls b \<Longrightarrow> buffer_step b l b' \<Longrightarrow> buffer_run b0 (ls @ [l]) b'"

section \<open>The specification: a queue\<close>

inductive queue_run :: "'v buffer_label list \<Rightarrow> 'v list \<Rightarrow> bool" where
  q_start: "queue_run [] []"
| q_put: "queue_run ls q \<Longrightarrow> queue_run (ls @ [Puts v]) (q @ [v])"
| q_get: "queue_run ls (v # q) \<Longrightarrow> queue_run (ls @ [Gets v]) q"
| q_other: "queue_run ls q \<Longrightarrow> l = Moves \<or> l = Closes \<Longrightarrow> queue_run (ls @ [l]) q"

definition in_values :: "'v buffer \<Rightarrow> 'v list" where
  "in_values b = (case buf_In b of None \<Rightarrow> [] | Some c \<Rightarrow> chan_queue c)"

definition buffered :: "'v buffer \<Rightarrow> 'v list" where
  "buffered b = chan_queue (buf_Out b) @ buf_list b @ in_values b"

definition buffer_ok :: "'v buffer \<Rightarrow> bool" where
  "buffer_ok b \<longleftrightarrow> (\<not> buf_runs b \<longrightarrow> buf_list b = [] \<and> in_values b = [] \<and> (\<forall>c. buf_In b = Some c \<longrightarrow> chan_closed c)) \<and>
     (chan_closed (buf_Out b) \<longleftrightarrow> \<not> buf_runs b) \<and> length (in_values b) \<le> chan_cap \<and> length (chan_queue (buf_Out b)) \<le> chan_cap"

lemma NewBuffer_ok: "buffer_ok NewBuffer" "buffered NewBuffer = []"
  by (simp_all add: NewBuffer_def buffer_ok_def buffered_def in_values_def)

lemma step_effect:
  "buffer_step b l b' \<Longrightarrow>
    (case l of Puts v \<Rightarrow> buffered b' = buffered b @ [v] | Gets v \<Rightarrow> buffered b = v # buffered b' | _ \<Rightarrow> buffered b' = buffered b)"
  by (induction rule: buffer_step.induct) (simp_all add: buffered_def in_values_def close_Out_def)

lemma step_ok: "buffer_step b l b' \<Longrightarrow> buffer_ok b \<Longrightarrow> buffer_ok b'"
  by (induction rule: buffer_step.induct) (auto simp: buffer_ok_def in_values_def close_Out_def chan_cap_def)

lemma buffer_run_refines: "buffer_run NewBuffer ls b \<Longrightarrow> queue_run ls (buffered b) \<and> buffer_ok b"
proof (induction rule: buffer_run.induct)
  case start
  show ?case by (simp add: NewBuffer_ok queue_run.q_start)
next
  case (step ls b l b')
  note e = step_effect [OF step.hyps(2)] and ok = step_ok [OF step.hyps(2)]
  show ?case
  proof (cases l)
    case (Puts v)
    with e ok step.IH queue_run.q_put [of ls "buffered b" v] show ?thesis by simp
  next
    case (Gets v)
    with e ok step.IH queue_run.q_get [of ls v "buffered b'"] show ?thesis by simp
  next
    case Closes
    with e ok step.IH queue_run.q_other [of ls "buffered b" l] show ?thesis by simp
  next
    case Moves
    with e ok step.IH queue_run.q_other [of ls "buffered b" l] show ?thesis by simp
  qed
qed

section \<open>Progress\<close>

text \<open>While it runs, the goroutine can go on when there is a value for it to take, or room for one it has.\<close>

lemma run_takes:
  assumes "buf_runs b" "in_values b \<noteq> []"
  shows "\<exists>b'. buffer_step b Moves b' \<and> length (in_values b') < length (in_values b)"
proof -
  obtain c v vs where c: "buf_In b = Some c" "chan_queue c = v # vs"
    using assms(2) by (auto simp: in_values_def neq_Nil_conv split: option.splits)
  show ?thesis
  proof (cases "buf_list b")
    case Nil
    with c assms(1) buffer_step.run_first [of b c v vs] show ?thesis by (fastforce simp: in_values_def)
  next
    case (Cons f r)
    with c assms(1) buffer_step.run_next [of b f r c v vs] show ?thesis by (fastforce simp: in_values_def)
  qed
qed

lemma run_offers:
  assumes "buffer_ok b" "buffered b \<noteq> []" "chan_queue (buf_Out b) = []"
  shows "\<exists>ls b'. buffer_run b ls b' \<and> set ls \<subseteq> {Moves} \<and> chan_queue (buf_Out b') = [hd (buffered b)] \<and> buffered b' = buffered b"
proof -
  have runs: "buf_runs b" using assms by (auto simp: buffer_ok_def buffered_def)
  have front: "\<exists>ls b'. buffer_run b1 ls b' \<and> set ls \<subseteq> {Moves} \<and> chan_queue (buf_Out b') = [f] \<and> buffered b' = buffered b1"
    if "buf_runs b1" "buf_list b1 = f # r" "chan_queue (buf_Out b1) = []" for b1 f r
    using that buffer_run.step [OF buffer_run.start buffer_step.run_front [OF that(1,2)]]
    by (intro exI [of _ "[Moves]"]) (fastforce simp: chan_cap_def buffered_def in_values_def)
  show ?thesis
  proof (cases "buf_list b")
    case (Cons f r)
    with front [OF runs Cons assms(3)] assms(3) show ?thesis by (simp add: buffered_def)
  next
    case Nil
    then obtain c v vs where c: "buf_In b = Some c" "chan_queue c = v # vs"
      using assms by (auto simp: buffered_def in_values_def neq_Nil_conv split: option.splits)
    let ?b1 = "b\<lparr>buf_In := Some (c\<lparr>chan_queue := vs\<rparr>), buf_list := [v]\<rparr>"
    have s: "buffer_step b Moves ?b1" using runs Nil c by (rule buffer_step.run_first)
    have s2: "buffer_step ?b1 Moves (?b1\<lparr>buf_Out := (buf_Out ?b1)\<lparr>chan_queue := chan_queue (buf_Out ?b1) @ [v]\<rparr>, buf_list := []\<rparr>)"
      using runs assms(3) by (intro buffer_step.run_front) (simp_all add: chan_cap_def)
    from buffer_run.step [OF buffer_run.step [OF buffer_run.start s] s2] Nil c assms(3) show ?thesis
      by (intro exI [of _ "[Moves, Moves]"] exI [of _ "?b1\<lparr>buf_Out := (buf_Out ?b1)\<lparr>chan_queue := chan_queue (buf_Out ?b1) @ [v]\<rparr>, buf_list := []\<rparr>"])
        (simp add: buffered_def in_values_def)
  qed
qed

section \<open>Properties\<close>

text \<open>
  C17: The buffer is an unbounded queue: whatever the interleaving, the values got are the values put,
  in the same order, and what is not yet got is in the buffer; \<open>Out\<close> is closed only after \<open>In\<close> was
  closed and everything was moved to \<open>Out\<close>.
\<close>

theorem buffer_refines_queue:
  assumes "buffer_run NewBuffer ls b"
  shows "queue_run ls (buffered b) \<and>
    (chan_closed (buf_Out b) \<longrightarrow> buffered b = chan_queue (buf_Out b) \<and> (\<forall>c. buf_In b = Some c \<longrightarrow> chan_closed c))"
  using buffer_run_refines [OF assms] by (auto simp: buffer_ok_def buffered_def)

theorem buffer_refines_queue_witness:
  "\<exists>b. queue_run [Puts (1 :: nat), Moves, Puts 2, Moves, Gets 1] (buffered b) \<and> buffered b = [2]"
proof -
  let ?ch = "\<lambda>vs. \<lparr>chan_queue = vs, chan_closed = False\<rparr>"
  let ?b = "\<lambda>i l out. \<lparr>buf_In = Some (?ch i), buf_Out = ?ch out, buf_list = l, buf_runs = True\<rparr> :: nat buffer"
  have s: "buffer_step (?b [] [] []) (Puts 1) (?b [1] [] [])" "buffer_step (?b [1] [] []) Moves (?b [] [1] [])"
    "buffer_step (?b [] [1] []) (Puts 2) (?b [2] [1] [])" "buffer_step (?b [2] [1] []) Moves (?b [2] [] [1])"
    "buffer_step (?b [2] [] [1]) (Gets 1) (?b [2] [] [])"
    using buffer_step.put [of "?b [] [] []" "?ch []" 1] buffer_step.run_first [of "?b [1] [] []" "?ch [1]" 1 "[]"]
      buffer_step.put [of "?b [] [1] []" "?ch []" 2] buffer_step.run_front [of "?b [2] [1] []" 1 "[]"]
      buffer_step.get [of "?b [2] [] [1]" 1 "[]"] by (simp_all add: chan_cap_def)
  have n: "NewBuffer = ?b [] [] []" by (simp add: NewBuffer_def)
  have "buffer_run NewBuffer (((([] @ [Puts 1]) @ [Moves]) @ [Puts 2]) @ [Moves]) (?b [2] [] [1])"
    unfolding n by (intro buffer_run.step [OF _ s(4)] buffer_run.step [OF _ s(3)] buffer_run.step [OF _ s(2)]
      buffer_run.step [OF _ s(1)] buffer_run.start)
  from buffer_run.step [OF this s(5)] have "buffer_run NewBuffer [Puts 1, Moves, Puts 2, Moves, Gets 1] (?b [2] [] [])" by simp
  from buffer_refines_queue [OF this] show ?thesis
    by (intro exI [of _ "?b [2] [] []"]) (simp add: buffered_def in_values_def)
qed

text \<open>
  The buffer never holds anything back: in every reachable state a value waiting in \<open>In\<close> can be
  taken by the goroutine at once (so a rollback waits only for the scheduler), and, when \<open>Out\<close> is
  empty, steps of the goroutine alone offer the oldest value there.
\<close>

theorem buffer_never_stuck:
  assumes "buffer_run NewBuffer ls b" "buffered b \<noteq> []"
  shows "(in_values b \<noteq> [] \<longrightarrow> (\<exists>b'. buffer_step b Moves b' \<and> length (in_values b') < length (in_values b))) \<and>
    (\<exists>ms b'. buffer_run b ms b' \<and> set ms \<subseteq> {Moves} \<and> buffered b' = buffered b \<and>
       chan_queue (buf_Out b') \<noteq> [] \<and> hd (chan_queue (buf_Out b')) = hd (buffered b))"
proof -
  have ok: "buffer_ok b" using buffer_run_refines [OF assms(1)] by simp
  have "buf_runs b" if "in_values b \<noteq> []" using ok that by (auto simp: buffer_ok_def)
  then have "in_values b \<noteq> [] \<longrightarrow> (\<exists>b'. buffer_step b Moves b' \<and> length (in_values b') < length (in_values b))"
    using run_takes by blast
  moreover have "\<exists>ms b'. buffer_run b ms b' \<and> set ms \<subseteq> {Moves} \<and> buffered b' = buffered b \<and>
       chan_queue (buf_Out b') \<noteq> [] \<and> hd (chan_queue (buf_Out b')) = hd (buffered b)"
  proof (cases "chan_queue (buf_Out b)")
    case Nil
    from run_offers [OF ok assms(2) this] show ?thesis by fastforce
  next
    case (Cons v vs)
    then have "hd (buffered b) = v" by (simp add: buffered_def)
    with Cons show ?thesis by (intro exI [of _ "[]"] exI [of _ b]) (simp add: buffer_run.start)
  qed
  ultimately show ?thesis by blast
qed

theorem buffer_never_stuck_witness:
  "\<exists>b ms b'. buffer_run NewBuffer [Puts (1 :: nat)] b \<and> buffer_run b ms b' \<and> hd (chan_queue (buf_Out b')) = 1"
proof -
  let ?b = "NewBuffer\<lparr>buf_In := Some \<lparr>chan_queue = [1 :: nat], chan_closed = False\<rparr>\<rparr>"
  have "buffer_step NewBuffer (Puts 1) ?b"
    using buffer_step.put [of NewBuffer "\<lparr>chan_queue = [], chan_closed = False\<rparr>" "1 :: nat"]
    by (simp add: NewBuffer_def chan_cap_def)
  from buffer_run.step [OF buffer_run.start this] have r: "buffer_run NewBuffer [Puts 1] ?b" by simp
  have v: "buffered ?b = [1]" by (simp add: buffered_def in_values_def NewBuffer_def)
  then obtain ms b' where "buffer_run ?b ms b'" "hd (chan_queue (buf_Out b')) = hd (buffered ?b)"
    using buffer_never_stuck [OF r] by auto
  with r v show ?thesis by (intro exI [of _ ?b] exI [of _ ms] exI [of _ b']) simp
qed

end
