(* ===== verification/Batch_Pipeline.thy ===== *)
theory Batch_Pipeline
  imports Task_Buffer Wakeup Task_Manager_Contract
begin

text \<open>
  How confirmed tasks leave the database: \<open>batchTaskQueue\<close> of \<open>sender_service/task_queue.go\<close>, and
  \<open>generateBatch\<close> and \<open>confirmation\<close> of \<open>sender_service/sender_service.go\<close>, over any task manager. One
  goroutine (the gatherer) collects tasks into batches and queues them, one (the forwarder) hands
  queued batches over a channel of capacity 1, and the confirmation workers delete them; every
  interleaving of their steps is a run of \<open>pipeline_step\<close>. The timer of a batch may fire at any time.
\<close>

section \<open>The batch queue\<close>

record batchTaskQueue =
  batch_list :: "task list list"

definition QueueIsEmpty :: go_error where
  "QueueIsEmpty = OtherError ''queue is empty''"

definition batch_Push :: "task list \<Rightarrow> batchTaskQueue \<Rightarrow> batchTaskQueue" where
  "batch_Push tasks t = t\<lparr>batch_list := batch_list t @ [tasks]\<rparr>"

definition batch_Pop :: "batchTaskQueue \<Rightarrow> task list \<times> go_error option \<times> batchTaskQueue" where
  "batch_Pop t =
     (case batch_list t of
        tasks # rest \<Rightarrow> (tasks, None, t\<lparr>batch_list := rest\<rparr>)
      | [] \<Rightarrow> ([], Some QueueIsEmpty, t))"

section \<open>Confirmation of a batch\<close>

text \<open>The body of the loop of \<open>confirmation\<close>; the result is the error of the task manager.\<close>

definition confirm_batch ::
    "'a world_scheme task_manager_ops \<Rightarrow> task list \<Rightarrow> 'a world_scheme \<Rightarrow> (go_error option \<times> 'a world_scheme) option" where
  "confirm_batch TM batch w = do {
     (err, w) \<leftarrow> tm_Confirm TM batch w;
     let w = (case err of Some e \<Rightarrow> eh_New LevelFatal (error_text e) w | None \<Rightarrow> w);
     let w = eh_New LevelDebug ''confirmed tasks'' w;
     let w = publish_or_log WaitingForConfirmation (- int (length batch)) w;
     Some (err, publish_or_log ConfirmationRate (int (length batch)) w)
   }"

section \<open>The pipeline\<close>

datatype gatherer_pc =
    Gathering "task list"
  | Gathered "task list"
  | Queued nat
  | Signalling nat
  | Counting nat
  | GathererReturned "task list"

datatype forwarder_pc = PoppingBatch | Handing "task list" | AwaitingUpdate | ForwarderReturned

datatype confirmer_pc = AwaitingBatch | Confirming "task list" | ConfirmerReturned

text \<open>
  \<open>results\<close> lists the batches given to the task manager, each with its error; \<open>GathererReturned\<close>
  keeps the batch that was being collected when the goroutine returned.
\<close>

record 'w pipeline =
  tasksToConfirm :: "task channel"
  gatherer :: gatherer_pc
  batchQueue :: batchTaskQueue
  updateQueue_tokens :: nat
  updateQueue_ended :: bool
  forwarder :: forwarder_pc
  batches :: "task list channel"
  confirmer :: "nat \<Rightarrow> confirmer_pc"
  pipeline_world :: 'w
  results :: "(task list \<times> go_error option) list"

datatype pipeline_label = Sends task | Ends | Works

inductive pipeline_step ::
    "'a world_scheme task_manager_ops \<Rightarrow> int \<Rightarrow> 'a world_scheme pipeline \<Rightarrow> pipeline_label \<Rightarrow>
     'a world_scheme pipeline \<Rightarrow> bool" for TM batchMaxItems where
  sends: "\<not> chan_closed (tasksToConfirm p) \<Longrightarrow> int (length (chan_queue (tasksToConfirm p))) < batchMaxItems \<Longrightarrow>
    pipeline_step TM batchMaxItems p (Sends t)
      (p\<lparr>tasksToConfirm := (tasksToConfirm p)\<lparr>chan_queue := chan_queue (tasksToConfirm p) @ [t]\<rparr>\<rparr>)"
| ends: "\<not> chan_closed (tasksToConfirm p) \<Longrightarrow>
    pipeline_step TM batchMaxItems p Ends (p\<lparr>tasksToConfirm := (tasksToConfirm p)\<lparr>chan_closed := True\<rparr>\<rparr>)"
| gather: "gatherer p = Gathering batch \<Longrightarrow> chan_queue (tasksToConfirm p) = t # ts \<Longrightarrow>
    pipeline_step TM batchMaxItems p Works
      (p\<lparr>tasksToConfirm := (tasksToConfirm p)\<lparr>chan_queue := ts\<rparr>,
         gatherer := (if int (length (batch @ [t])) = batchMaxItems then Gathered (batch @ [t]) else Gathering (batch @ [t]))\<rparr>)"
| input_ended: "gatherer p = Gathering batch \<Longrightarrow> chan_queue (tasksToConfirm p) = [] \<Longrightarrow> chan_closed (tasksToConfirm p) \<Longrightarrow>
    pipeline_step TM batchMaxItems p Works (p\<lparr>gatherer := GathererReturned batch, updateQueue_ended := True\<rparr>)"
| expire: "gatherer p = Gathering batch \<Longrightarrow>
    pipeline_step TM batchMaxItems p Works (p\<lparr>gatherer := Gathered batch\<rparr>)"
| no_batch: "gatherer p = Gathered [] \<Longrightarrow>
    pipeline_step TM batchMaxItems p Works (p\<lparr>gatherer := Gathering []\<rparr>)"
| push: "gatherer p = Gathered batch \<Longrightarrow> batch \<noteq> [] \<Longrightarrow>
    pipeline_step TM batchMaxItems p Works (p\<lparr>batchQueue := batch_Push batch (batchQueue p), gatherer := Queued (length batch)\<rparr>)"
| check_full: "gatherer p = Queued n \<Longrightarrow> updateQueue_tokens p \<noteq> 0 \<Longrightarrow>
    pipeline_step TM batchMaxItems p Works (p\<lparr>gatherer := Counting n\<rparr>)"
| check_empty: "gatherer p = Queued n \<Longrightarrow> updateQueue_tokens p = 0 \<Longrightarrow>
    pipeline_step TM batchMaxItems p Works (p\<lparr>gatherer := Signalling n\<rparr>)"
| signal: "gatherer p = Signalling n \<Longrightarrow> updateQueue_tokens p < 1 \<Longrightarrow>
    pipeline_step TM batchMaxItems p Works
      (p\<lparr>updateQueue_tokens := Suc (updateQueue_tokens p), gatherer := Counting n\<rparr>)"
| count: "gatherer p = Counting n \<Longrightarrow>
    pipeline_step TM batchMaxItems p Works
      (p\<lparr>pipeline_world := publish_or_log WaitingForConfirmation (int n) (pipeline_world p), gatherer := Gathering []\<rparr>)"
| pop: "forwarder p = PoppingBatch \<Longrightarrow> batch_Pop (batchQueue p) = (batch, None, q) \<Longrightarrow>
    pipeline_step TM batchMaxItems p Works (p\<lparr>batchQueue := q, forwarder := Handing batch\<rparr>)"
| pop_empty: "forwarder p = PoppingBatch \<Longrightarrow> batch_Pop (batchQueue p) = (batch, Some QueueIsEmpty, q) \<Longrightarrow>
    pipeline_step TM batchMaxItems p Works (p\<lparr>batchQueue := q, forwarder := AwaitingUpdate\<rparr>)"
| hand: "forwarder p = Handing batch \<Longrightarrow> length (chan_queue (batches p)) < chan_cap \<Longrightarrow>
    pipeline_step TM batchMaxItems p Works
      (p\<lparr>batches := (batches p)\<lparr>chan_queue := chan_queue (batches p) @ [batch]\<rparr>, forwarder := PoppingBatch\<rparr>)"
| updated: "forwarder p = AwaitingUpdate \<Longrightarrow> updateQueue_tokens p > 0 \<Longrightarrow>
    pipeline_step TM batchMaxItems p Works
      (p\<lparr>updateQueue_tokens := updateQueue_tokens p - 1, forwarder := PoppingBatch\<rparr>)"
| update_ended: "forwarder p = AwaitingUpdate \<Longrightarrow> updateQueue_tokens p = 0 \<Longrightarrow> updateQueue_ended p \<Longrightarrow>
    pipeline_step TM batchMaxItems p Works
      (p\<lparr>batches := (batches p)\<lparr>chan_closed := True\<rparr>, forwarder := ForwarderReturned\<rparr>)"
| take_batch: "confirmer p k = AwaitingBatch \<Longrightarrow> chan_queue (batches p) = batch # rest \<Longrightarrow>
    pipeline_step TM batchMaxItems p Works
      (p\<lparr>batches := (batches p)\<lparr>chan_queue := rest\<rparr>, confirmer := (confirmer p)(k := Confirming batch)\<rparr>)"
| batches_ended: "confirmer p k = AwaitingBatch \<Longrightarrow> chan_queue (batches p) = [] \<Longrightarrow> chan_closed (batches p) \<Longrightarrow>
    pipeline_step TM batchMaxItems p Works (p\<lparr>confirmer := (confirmer p)(k := ConfirmerReturned)\<rparr>)"
| confirm: "confirmer p k = Confirming batch \<Longrightarrow> confirm_batch TM batch (pipeline_world p) = Some (err, w) \<Longrightarrow>
    pipeline_step TM batchMaxItems p Works
      (p\<lparr>pipeline_world := w, confirmer := (confirmer p)(k := AwaitingBatch), results := results p @ [(batch, err)]\<rparr>)"

text \<open>\<open>Run\<close> starts the goroutines.\<close>

definition pipeline_start :: "int \<Rightarrow> 'w \<Rightarrow> 'w pipeline" where
  "pipeline_start confirmationWorkersCount w =
     \<lparr>tasksToConfirm = \<lparr>chan_queue = [], chan_closed = False\<rparr>, gatherer = Gathering [],
      batchQueue = \<lparr>batch_list = []\<rparr>, updateQueue_tokens = 0, updateQueue_ended = False,
      forwarder = PoppingBatch, batches = \<lparr>chan_queue = [], chan_closed = False\<rparr>,
      confirmer = (\<lambda>k. if int k < confirmationWorkersCount then AwaitingBatch else ConfirmerReturned),
      pipeline_world = w, results = []\<rparr>"

inductive pipeline_run ::
    "'a world_scheme task_manager_ops \<Rightarrow> int \<Rightarrow> 'a world_scheme pipeline \<Rightarrow> pipeline_label list \<Rightarrow>
     'a world_scheme pipeline \<Rightarrow> bool" for TM batchMaxItems p0 where
  start: "pipeline_run TM batchMaxItems p0 [] p0"
| step: "pipeline_run TM batchMaxItems p0 ls p \<Longrightarrow> pipeline_step TM batchMaxItems p l p' \<Longrightarrow>
    pipeline_run TM batchMaxItems p0 (ls @ [l]) p'"

definition sent_tasks :: "pipeline_label list \<Rightarrow> task list" where
  "sent_tasks ls = concat (map (\<lambda>l. case l of Sends t \<Rightarrow> [t] | _ \<Rightarrow> []) ls)"

lemma sent_tasks_simps [simp]:
  "sent_tasks [] = []" "sent_tasks (ls @ [Sends t]) = sent_tasks ls @ [t]"
  "sent_tasks (ls @ [Ends]) = sent_tasks ls" "sent_tasks (ls @ [Works]) = sent_tasks ls"
  by (simp_all add: sent_tasks_def)

section \<open>The hand-over of the queue\<close>

text \<open>
  The gatherer and the forwarder follow the protocol of theory Wakeup: the pipeline, seen as the
  batch queue with its token, makes a step of that protocol or none.
\<close>

definition push_batch :: "task list \<Rightarrow> batchTaskQueue \<Rightarrow> batchTaskQueue option" where
  "push_batch batch t = Some (batch_Push batch t)"

definition next_batch :: "batchTaskQueue \<Rightarrow> (task list \<times> batchTaskQueue) option" where
  "next_batch t = (case batch_Pop t of (b, None, t') \<Rightarrow> Some (b, t') | (_, Some _, _) \<Rightarrow> None)"

lemma batch_Pop_simps:
  "batch_Pop t = (b, None, t') \<longleftrightarrow> batch_list t = b # batch_list t'"
  "batch_Pop t = (b, Some e, t') \<longleftrightarrow> batch_list t = [] \<and> b = [] \<and> e = QueueIsEmpty \<and> t' = t"
  by (auto simp: batch_Pop_def split: list.splits)

interpretation batch_signal: signalled_queue push_batch next_batch batch_list
  by unfold_locales (auto simp: next_batch_def batch_Pop_def)

fun gatherer_as :: "gatherer_pc \<Rightarrow> producer_pc" where
  "gatherer_as (Queued n) = Pushed"
| "gatherer_as (Signalling n) = Sending"
| "gatherer_as _ = Idle"

fun forwarder_as :: "forwarder_pc \<Rightarrow> consumer_pc" where
  "forwarder_as PoppingBatch = Popping"
| "forwarder_as (Handing b) = Popping"
| "forwarder_as AwaitingUpdate = Receiving"
| "forwarder_as ForwarderReturned = Receiving"

definition hand_over :: "'w pipeline \<Rightarrow> batchTaskQueue wakeup" where
  "hand_over p = \<lparr>shared = batchQueue p, tokens = updateQueue_tokens p,
     producer = (\<lambda>_. Idle)(0 := gatherer_as (gatherer p)), consumer = forwarder_as (forwarder p)\<rparr>"

lemma hand_over_simps [simp]:
  "shared (hand_over p) = batchQueue p" "tokens (hand_over p) = updateQueue_tokens p"
  "producer (hand_over p) k = (if k = 0 then gatherer_as (gatherer p) else Idle)"
  "consumer (hand_over p) = forwarder_as (forwarder p)"
  by (simp_all add: hand_over_def)

lemma hand_over_eqI:
  "batchQueue q = batchQueue p \<Longrightarrow> updateQueue_tokens q = updateQueue_tokens p \<Longrightarrow>
    gatherer_as (gatherer q) = gatherer_as (gatherer p) \<Longrightarrow> forwarder_as (forwarder q) = forwarder_as (forwarder p) \<Longrightarrow>
    hand_over q = hand_over p"
  by (simp add: hand_over_def)

lemma hand_over_step:
  assumes "pipeline_step TM batchMaxItems p l p'"
  shows "hand_over p' = hand_over p \<or> wakeup_step push_batch next_batch (\<lambda>_. False) (hand_over p) (hand_over p')"
  using assms
proof cases
  case (push batch)
  then have "wakeup_step push_batch next_batch (\<lambda>_. False) (hand_over p)
      ((hand_over p)\<lparr>shared := batch_Push batch (batchQueue p), producer := (producer (hand_over p))(0 := Pushed)\<rparr>)"
    by (intro wakeup_step.push) (simp_all add: push_batch_def)
  with push show ?thesis by (simp add: hand_over_def)
next
  case (check_full n)
  then have "wakeup_step push_batch next_batch (\<lambda>_. False) (hand_over p)
      ((hand_over p)\<lparr>producer := (producer (hand_over p))(0 := Idle)\<rparr>)"
    by (intro wakeup_step.check_full) simp_all
  with check_full show ?thesis by (simp add: hand_over_def)
next
  case (check_empty n)
  then have "wakeup_step push_batch next_batch (\<lambda>_. False) (hand_over p)
      ((hand_over p)\<lparr>producer := (producer (hand_over p))(0 := Sending)\<rparr>)"
    by (intro wakeup_step.check_empty) simp_all
  with check_empty show ?thesis by (simp add: hand_over_def)
next
  case (signal n)
  then have "wakeup_step push_batch next_batch (\<lambda>_. False) (hand_over p)
      ((hand_over p)\<lparr>tokens := Suc (tokens (hand_over p)), producer := (producer (hand_over p))(0 := Idle)\<rparr>)"
    by (intro wakeup_step.send) simp_all
  with signal show ?thesis by (simp add: hand_over_def)
next
  case (pop batch q)
  then have "wakeup_step push_batch next_batch (\<lambda>_. False) (hand_over p)
      ((hand_over p)\<lparr>shared := q, consumer := (if False then Returned else Popping)\<rparr>)"
    by (intro wakeup_step.pop) (simp_all add: next_batch_def)
  with pop show ?thesis by (simp add: hand_over_def)
next
  case (pop_empty batch q)
  then have "wakeup_step push_batch next_batch (\<lambda>_. False) (hand_over p) ((hand_over p)\<lparr>consumer := Receiving\<rparr>)"
    by (intro wakeup_step.pop_empty) (simp_all add: next_batch_def)
  with pop_empty show ?thesis by (simp add: hand_over_def batch_Pop_simps)
next
  case updated
  then have "wakeup_step push_batch next_batch (\<lambda>_. False) (hand_over p)
      ((hand_over p)\<lparr>tokens := tokens (hand_over p) - 1, consumer := Popping\<rparr>)"
    by (intro wakeup_step.receive) simp_all
  with updated show ?thesis by (simp add: hand_over_def)
qed (simp_all add: hand_over_def)

lemma hand_over_reachable:
  "pipeline_run TM batchMaxItems (pipeline_start n w) ls p \<Longrightarrow>
    wakeup_reachable push_batch next_batch (\<lambda>_. False) \<lparr>batch_list = []\<rparr> (hand_over p)"
proof (induction rule: pipeline_run.induct)
  case start
  have "hand_over (pipeline_start n w) = wakeup_init \<lparr>batch_list = []\<rparr>"
    by (simp add: hand_over_def pipeline_start_def wakeup_init_def fun_eq_iff)
  then show ?case by (simp add: wakeup_reachable.start)
next
  case (step ls p l p')
  from hand_over_step [OF step.hyps(2)] step.IH show ?case by (auto intro: wakeup_reachable.step)
qed

text \<open>With one gatherer a token can be put whenever the gatherer is about to put one.\<close>

lemma signalling_has_room:
  assumes "pipeline_run TM batchMaxItems (pipeline_start n w) ls p"
  shows "(\<exists>k. gatherer p = Signalling k) \<longrightarrow> updateQueue_tokens p = 0"
  using assms
proof (induction rule: pipeline_run.induct)
  case start
  show ?case by (simp add: pipeline_start_def)
next
  case (step ls p l p')
  from step.hyps(2) step.IH show ?case by cases auto
qed

section \<open>What a run keeps\<close>

fun gathered_tasks :: "gatherer_pc \<Rightarrow> task list" where
  "gathered_tasks (Gathering b) = b"
| "gathered_tasks (Gathered b) = b"
| "gathered_tasks (GathererReturned b) = b"
| "gathered_tasks _ = []"

fun handed_tasks :: "forwarder_pc \<Rightarrow> task list" where
  "handed_tasks (Handing b) = b"
| "handed_tasks _ = []"

fun confirming_tasks :: "confirmer_pc \<Rightarrow> task list" where
  "confirming_tasks (Confirming b) = b"
| "confirming_tasks _ = []"

text \<open>The tasks on their way with \<open>n\<close> workers, and all tasks the pipeline has been given.\<close>

definition on_the_way :: "nat \<Rightarrow> 'w pipeline \<Rightarrow> task multiset" where
  "on_the_way n p = mset (chan_queue (tasksToConfirm p)) + mset (gathered_tasks (gatherer p)) +
     mset (concat (batch_list (batchQueue p))) + mset (handed_tasks (forwarder p)) +
     mset (concat (chan_queue (batches p))) + (\<Sum>k<n. mset (confirming_tasks (confirmer p k)))"

definition finished_tasks :: "'w pipeline \<Rightarrow> task multiset" where
  "finished_tasks p = mset (concat (map fst (results p)))"

definition batch_ok :: "int \<Rightarrow> task list \<Rightarrow> bool" where
  "batch_ok m b \<longleftrightarrow> b \<noteq> [] \<and> int (length b) \<le> m"

fun gatherer_ok :: "int \<Rightarrow> gatherer_pc \<Rightarrow> bool" where
  "gatherer_ok m (Gathering b) \<longleftrightarrow> int (length b) < m"
| "gatherer_ok m (Gathered b) \<longleftrightarrow> int (length b) \<le> m"
| "gatherer_ok m _ \<longleftrightarrow> True"

definition batches_ok :: "int \<Rightarrow> 'w pipeline \<Rightarrow> bool" where
  "batches_ok m p \<longleftrightarrow> gatherer_ok m (gatherer p) \<and> (\<forall>b \<in> set (batch_list (batchQueue p)). batch_ok m b) \<and>
     (\<forall>b. forwarder p = Handing b \<longrightarrow> batch_ok m b) \<and> (\<forall>b \<in> set (chan_queue (batches p)). batch_ok m b) \<and>
     (\<forall>k b. confirmer p k = Confirming b \<longrightarrow> batch_ok m b) \<and> (\<forall>b \<in> fst ` set (results p). batch_ok m b)"

text \<open>\<open>is_open n p\<close>: the input channel has not been closed, and so no goroutine of the \<open>n\<close> workers' has returned.\<close>

definition is_open :: "nat \<Rightarrow> 'w pipeline \<Rightarrow> bool" where
  "is_open n p \<longleftrightarrow> \<not> chan_closed (tasksToConfirm p) \<and> \<not> updateQueue_ended p \<and> \<not> chan_closed (batches p) \<and>
     (\<forall>b. gatherer p \<noteq> GathererReturned b) \<and> forwarder p \<noteq> ForwarderReturned \<and> (\<forall>k<n. confirmer p k \<noteq> ConfirmerReturned)"

lemma step_on_the_way:
  assumes "pipeline_step TM m p l p'" "\<forall>k\<ge>n. confirmer p k = ConfirmerReturned"
  shows "on_the_way n p' + finished_tasks p' = on_the_way n p + finished_tasks p + mset (sent_tasks [l])"
proof -
  have below: "k < n" if "confirmer p k \<noteq> ConfirmerReturned" for k using assms(2) that by (meson not_le)
  note upd = sum_fun_upd [where f = "\<lambda>c. mset (confirming_tasks c)" and g = "confirmer p" and n = n]
  note tot = on_the_way_def finished_tasks_def sent_tasks_def
  from assms(1) show ?thesis
  proof cases
    case (take_batch k batch rest)
    with upd [OF below, of k "Confirming batch"] show ?thesis by (simp add: tot ac_simps)
  next
    case (batches_ended k)
    with upd [OF below, of k ConfirmerReturned] show ?thesis by (simp add: tot ac_simps)
  next
    case (confirm k batch err w)
    with upd [OF below, of k AwaitingBatch] show ?thesis by (simp add: tot)
  qed (auto simp: tot batch_Push_def batch_Pop_simps ac_simps)
qed

lemma step_workers:
  "pipeline_step TM m p l p' \<Longrightarrow> \<forall>k\<ge>n. confirmer p k = ConfirmerReturned \<Longrightarrow> \<forall>k\<ge>n. confirmer p' k = ConfirmerReturned"
  by (erule pipeline_step.cases) auto

lemma step_batches_ok:
  assumes "pipeline_step TM m p l p'" "batches_ok m p" "1 \<le> m"
  shows "batches_ok m p'"
  using assms by cases (auto simp: batches_ok_def batch_ok_def batch_Push_def batch_Pop_simps)

lemma step_is_open: "pipeline_step TM m p l p' \<Longrightarrow> l \<noteq> Ends \<Longrightarrow> is_open n p \<Longrightarrow> is_open n p'"
  by (erule pipeline_step.cases) (auto simp: is_open_def)

lemma start_facts:
  fixes workers :: int and w :: 'w
  defines "p0 \<equiv> pipeline_start workers w" and "n \<equiv> nat workers"
  shows "\<forall>k\<ge>n. confirmer p0 k = ConfirmerReturned" "on_the_way n p0 = {#}" "finished_tasks p0 = {#}" "is_open n p0"
    "1 \<le> m \<Longrightarrow> batches_ok m p0"
  by (auto simp: p0_def n_def pipeline_start_def on_the_way_def finished_tasks_def is_open_def batches_ok_def
      intro!: sum.neutral)

lemma sent_tasks_snoc: "sent_tasks (ls @ [l]) = sent_tasks ls @ sent_tasks [l]"
  by (simp add: sent_tasks_def)

lemma pipeline_keeps:
  assumes run: "pipeline_run TM m p0 ls p" and p0: "\<forall>k\<ge>n. confirmer p0 k = ConfirmerReturned"
  shows "(\<forall>k\<ge>n. confirmer p k = ConfirmerReturned) \<and>
    on_the_way n p + finished_tasks p = on_the_way n p0 + finished_tasks p0 + mset (sent_tasks ls) \<and>
    (1 \<le> m \<and> batches_ok m p0 \<longrightarrow> batches_ok m p) \<and>
    (Ends \<notin> set ls \<and> is_open n p0 \<longrightarrow> is_open n p)"
  using run
proof induction
  case start
  with p0 show ?case by simp
next
  case (step ls p l p')
  note w = step_workers [OF step(2), of n]
  have "on_the_way n p' + finished_tasks p' = on_the_way n p0 + finished_tasks p0 + mset (sent_tasks (ls @ [l]))"
    using step_on_the_way [OF step(2), of n] step(3) by (simp add: sent_tasks_snoc del: sent_tasks_simps)
  moreover have "is_open n p'" if "Ends \<notin> set (ls @ [l])" "is_open n p0"
    using that step_is_open [OF step(2), of n] step(3) by auto
  ultimately show ?case using w step_batches_ok [OF step(2)] step(3) by blast
qed

section \<open>Confirmation over any task manager\<close>

text \<open>The database after the results: every batch without an error is gone, and only given tasks can be.\<close>

definition reflects :: "(string \<rightharpoonup> int64) \<Rightarrow> (task list \<times> go_error option) list \<Rightarrow> (string \<rightharpoonup> int64) \<Rightarrow> bool" where
  "reflects m0 rs m \<longleftrightarrow> (\<exists>D. m = m0 |` (- D) \<and> (\<Union>(b, err) \<in> set rs. if err = None then task_id ` set b else {}) \<subseteq> D \<and>
     D \<subseteq> (\<Union>(b, err) \<in> set rs. task_id ` set b))"

lemma reflects_more:
  assumes "reflects m0 rs m" "confirmation_outcome (task_id ` set b) m err m'"
  shows "reflects m0 (rs @ [(b, err)]) m'"
proof -
  obtain D where D: "m = m0 |` (- D)" "(\<Union>(b, err) \<in> set rs. if err = None then task_id ` set b else {}) \<subseteq> D"
    "D \<subseteq> (\<Union>(b, err) \<in> set rs. task_id ` set b)" using assms(1) by (auto simp: reflects_def)
  let ?D = "D \<union> task_id ` set b"
  have "m |` (- (task_id ` set b)) = m0 |` (- ?D)" by (simp add: D(1) restrict_map_def fun_eq_iff)
  moreover have "m' = m |` (- (task_id ` set b)) \<or> err \<noteq> None \<and> m' = m"
    using assms(2) by (auto simp: confirmation_outcome_def split: option.splits)
  moreover have "reflects m0 (rs @ [(b, err)]) (m0 |` (- ?D))" unfolding reflects_def
    by (rule exI [of _ ?D]) (use D(2,3) in auto)
  moreover have "reflects m0 (rs @ [(b, err)]) m" if "err \<noteq> None" unfolding reflects_def
    by (rule exI [of _ D]) (use D that in auto)
  ultimately show ?thesis by auto
qed

text \<open>A bound on the steps that the tasks of a pipeline still have to make.\<close>

fun gatherer_weight :: "gatherer_pc \<Rightarrow> nat" where
  "gatherer_weight (Gathering b) = (if b = [] then 0 else 11)"
| "gatherer_weight (Gathered b) = (if b = [] then 1 else 10)"
| "gatherer_weight (Queued n) = 5"
| "gatherer_weight (Signalling n) = 4"
| "gatherer_weight (Counting n) = 1"
| "gatherer_weight (GathererReturned b) = 0"

fun forwarder_weight :: "forwarder_pc \<Rightarrow> nat" where
  "forwarder_weight PoppingBatch = 1"
| "forwarder_weight (Handing b) = 4"
| "forwarder_weight _ = 0"

fun confirmer_weight :: "confirmer_pc \<Rightarrow> nat" where
  "confirmer_weight (Confirming b) = 1"
| "confirmer_weight _ = 0"

definition weight :: "nat \<Rightarrow> 'w pipeline \<Rightarrow> nat" where
  "weight n p = 12 * length (chan_queue (tasksToConfirm p)) + gatherer_weight (gatherer p) +
     4 * length (batch_list (batchQueue p)) + 2 * updateQueue_tokens p + forwarder_weight (forwarder p) +
     2 * length (chan_queue (batches p)) + (\<Sum>k<n. confirmer_weight (confirmer p k))"

context task_manager_contract
begin

lemma logging_keeps:
  assumes "sound w"
  shows "sound (eh_New l m w)" "stored_in (eh_New l m w) = stored_in w"
proof -
  have e: "eh_New l m w = w\<lparr>events := events w @ [(l, m)], monitor := monitor w, clock_reads := clock_reads w\<rparr>"
    by (simp add: eh_New_def)
  show "sound (eh_New l m w)" "stored_in (eh_New l m w) = stored_in w"
    unfolding e using env_irrelevant [OF assms] by blast+
qed

lemma publishing_keeps:
  assumes "sound w"
  shows "sound (publish_or_log topic v w)" "stored_in (publish_or_log topic v w) = stored_in w"
proof -
  obtain es mo where p: "publish_or_log topic v w = w\<lparr>events := es, monitor := mo, clock_reads := clock_reads w\<rparr>"
    using publish_or_log_world [of topic v w] by blast
  show "sound (publish_or_log topic v w)" "stored_in (publish_or_log topic v w) = stored_in w"
    unfolding p using env_irrelevant [OF assms] by blast+
qed

lemma confirm_batch_facts:
  assumes "sound w"
  shows "\<exists>err w'. confirm_batch TM batch w = Some (err, w') \<and> sound w' \<and>
    confirmation_outcome (task_id ` set batch) (stored_in w) err (stored_in w')"
proof -
  obtain err w1 where c: "tm_Confirm TM batch w = Some (err, w1)" "sound w1"
    "confirmation_outcome (task_id ` set batch) (stored_in w) err (stored_in w1)" using confirm [OF assms] by blast
  define w2 where "w2 = (case err of Some e \<Rightarrow> eh_New LevelFatal (error_text e) w1 | None \<Rightarrow> w1)"
  have "sound w2" "stored_in w2 = stored_in w1" using c(2) by (auto simp: w2_def logging_keeps split: option.split)
  then show ?thesis using c by (simp add: confirm_batch_def w2_def [symmetric] logging_keeps publishing_keeps)
qed

lemma pipeline_world_keeps:
  assumes "pipeline_run TM m (pipeline_start workers w) ls p" "sound w"
  shows "sound (pipeline_world p) \<and> reflects (stored_in w) (results p) (stored_in (pipeline_world p))"
  using assms(1)
proof induction
  case start
  have "reflects (stored_in w) [] (stored_in w)" unfolding reflects_def
    by (rule exI [of _ "{}"]) (simp add: restrict_map_def)
  with assms(2) show ?case by (simp add: pipeline_start_def)
next
  case (step ls p l p')
  from step(2) show ?case
  proof cases
    case (confirm k batch err w1)
    then have "sound w1 \<and> confirmation_outcome (task_id ` set batch) (stored_in (pipeline_world p)) err (stored_in w1)"
      using confirm_batch_facts [of "pipeline_world p" batch] step(3) by auto
    then have "sound w1 \<and> reflects (stored_in w) (results p @ [(batch, err)]) (stored_in w1)"
      using reflects_more step(3) by blast
    with confirm show ?thesis by simp
  qed (use step(3) in \<open>simp_all add: publishing_keeps\<close>)
qed

text \<open>While tasks are on their way, some goroutine can bring them closer to the database.\<close>

definition closer :: "int \<Rightarrow> nat \<Rightarrow> 'a world_scheme pipeline \<Rightarrow> bool" where
  "closer m n p \<longleftrightarrow> (\<exists>p'. pipeline_step TM m p Works p' \<and> weight n p' < weight n p)"

lemma closerI: "pipeline_step TM m p Works p' \<Longrightarrow> weight n p' < weight n p \<Longrightarrow> closer m n p"
  by (auto simp: closer_def)

lemma gatherer_goes:
  assumes "is_open n p" "(\<exists>k. gatherer p = Signalling k) \<longrightarrow> updateQueue_tokens p = 0"
    and "gatherer p \<noteq> Gathering [] \<or> chan_queue (tasksToConfirm p) \<noteq> []"
  shows "closer m n p"
proof (cases "gatherer p")
  case (Gathering b)
  show ?thesis
  proof (cases "chan_queue (tasksToConfirm p)")
    case Nil
    with assms(3) Gathering have "b \<noteq> []" by simp
    with closerI [OF pipeline_step.expire [OF Gathering]] Gathering show ?thesis by (simp add: weight_def)
  next
    case (Cons t ts)
    from closerI [OF pipeline_step.gather [OF Gathering Cons]] Gathering Cons show ?thesis by (simp add: weight_def)
  qed
next
  case (Gathered b)
  show ?thesis
  proof (cases "b = []")
    case True
    with closerI [OF pipeline_step.no_batch] Gathered show ?thesis by (simp add: weight_def)
  next
    case False
    with closerI [OF pipeline_step.push [OF Gathered]] Gathered show ?thesis by (simp add: weight_def batch_Push_def)
  qed
next
  case (Queued k)
  with closerI [OF pipeline_step.check_full [OF Queued]] closerI [OF pipeline_step.check_empty [OF Queued]] show ?thesis
    by (cases "updateQueue_tokens p = 0") (simp_all add: weight_def)
next
  case (Signalling k)
  with assms(2) closerI [OF pipeline_step.signal [OF Signalling]] show ?thesis by (simp add: weight_def)
next
  case (Counting k)
  with closerI [OF pipeline_step.count [OF Counting]] show ?thesis by (simp add: weight_def)
next
  case (GathererReturned b)
  with assms(1) show ?thesis by (simp add: is_open_def)
qed

lemma confirmer_goes:
  assumes "sound (pipeline_world p)" "k < n" "confirmer p k = Confirming b"
  shows "closer m n p"
proof -
  obtain err w where "confirm_batch TM b (pipeline_world p) = Some (err, w)" using confirm_batch_facts [OF assms(1)] by blast
  from pipeline_step.confirm [OF assms(3) this] show ?thesis
    using sum_fun_upd [OF assms(2), of confirmer_weight "confirmer p" AwaitingBatch] assms(3)
    by (intro closerI) (auto simp: weight_def)
qed

lemma batch_goes:
  assumes "sound (pipeline_world p)" "is_open n p" "0 < n" "chan_queue (batches p) \<noteq> []"
  shows "closer m n p"
proof (cases "confirmer p 0")
  case AwaitingBatch
  obtain b rest where b: "chan_queue (batches p) = b # rest" using assms(4) by (cases "chan_queue (batches p)") auto
  from pipeline_step.take_batch [OF AwaitingBatch b] show ?thesis
    using sum_fun_upd [OF assms(3), of confirmer_weight "confirmer p" "Confirming b"] AwaitingBatch b
    by (intro closerI) (auto simp: weight_def)
next
  case (Confirming b)
  with confirmer_goes assms show ?thesis by blast
next
  case ConfirmerReturned
  with assms show ?thesis by (simp add: is_open_def)
qed

lemma forwarder_goes:
  assumes "sound (pipeline_world p)" "is_open n p" "0 < n" "gatherer p = Gathering []"
    and wake: "wakeup_reachable push_batch next_batch (\<lambda>_. False) \<lparr>batch_list = []\<rparr> (hand_over p)"
    and "batch_list (batchQueue p) \<noteq> [] \<or> handed_tasks (forwarder p) \<noteq> []"
  shows "closer m n p"
proof (cases "forwarder p")
  case PoppingBatch
  with assms(6) obtain b rest where b: "batch_list (batchQueue p) = b # rest" by (cases "batch_list (batchQueue p)") auto
  then have "batch_Pop (batchQueue p) = (b, None, (batchQueue p)\<lparr>batch_list := rest\<rparr>)" by (simp add: batch_Pop_def)
  from closerI [OF pipeline_step.pop [OF PoppingBatch this]] PoppingBatch b show ?thesis by (simp add: weight_def)
next
  case (Handing b)
  show ?thesis
  proof (cases "chan_queue (batches p) = []")
    case True
    with closerI [OF pipeline_step.hand [OF Handing]] Handing show ?thesis by (simp add: weight_def chan_cap_def)
  next
    case False
    with batch_goes assms show ?thesis by blast
  qed
next
  case AwaitingUpdate
  have "signal_due (hand_over p)"
    using batch_signal.no_lost_wakeup [OF wake] AwaitingUpdate assms(6) by simp
  then have "updateQueue_tokens p > 0" using assms(4) by (auto simp: signal_due_def split: if_splits)
  with closerI [OF pipeline_step.updated [OF AwaitingUpdate]] AwaitingUpdate show ?thesis by (simp add: weight_def)
next
  case ForwarderReturned
  with assms show ?thesis by (simp add: is_open_def)
qed

lemma pipeline_goes:
  assumes run: "pipeline_run TM m (pipeline_start workers w) ls p" and w: "sound w" and n: "1 \<le> workers"
    and op: "Ends \<notin> set ls" and way: "on_the_way (nat workers) p \<noteq> {#}"
  shows "closer m (nat workers) p"
proof -
  let ?n = "nat workers"
  note k = pipeline_keeps [OF run start_facts(1)]
  have o: "is_open ?n p" using k op start_facts(4) [of workers w] by simp
  have s: "sound (pipeline_world p)" using pipeline_world_keeps [OF run w] by simp
  have n': "0 < ?n" using n by simp
  show ?thesis
  proof (cases "gatherer p \<noteq> Gathering [] \<or> chan_queue (tasksToConfirm p) \<noteq> []")
    case True
    with gatherer_goes [OF o signalling_has_room [OF run]] show ?thesis by simp
  next
    case False
    then have g: "gatherer p = Gathering []" "chan_queue (tasksToConfirm p) = []" by simp_all
    show ?thesis
    proof (cases "batch_list (batchQueue p) \<noteq> [] \<or> handed_tasks (forwarder p) \<noteq> [] \<or> chan_queue (batches p) \<noteq> []")
      case True
      with forwarder_goes [OF s o n' g(1) hand_over_reachable [OF run]] batch_goes [OF s o n'] show ?thesis by blast
    next
      case False
      with way g have "(\<Sum>k<?n. mset (confirming_tasks (confirmer p k))) \<noteq> {#}" by (simp add: on_the_way_def)
      then obtain j where j: "j < ?n" "confirming_tasks (confirmer p j) \<noteq> []" by (metis lessThan_iff mset_zero_iff sum.neutral)
      then obtain b where "confirmer p j = Confirming b" by (cases "confirmer p j") auto
      with confirmer_goes [OF s j(1)] show ?thesis by blast
    qed
  qed
qed

lemma pipeline_drains:
  assumes run: "pipeline_run TM m (pipeline_start workers w) ls p" and w: "sound w" and n: "1 \<le> workers" and op: "Ends \<notin> set ls"
  shows "\<exists>ms p'. pipeline_run TM m (pipeline_start workers w) (ls @ ms) p' \<and> set ms \<subseteq> {Works} \<and> on_the_way (nat workers) p' = {#}"
  using run op
proof (induction "weight (nat workers) p" arbitrary: ls p rule: less_induct)
  case less
  show ?case
  proof (cases "on_the_way (nat workers) p = {#}")
    case True
    with less.prems show ?thesis by (intro exI [of _ "[]"] exI [of _ p]) simp
  next
    case False
    obtain p1 where p1: "pipeline_step TM m p Works p1" "weight (nat workers) p1 < weight (nat workers) p"
      using pipeline_goes [OF less.prems(1) w n less.prems(2) False] by (auto simp: closer_def)
    have "pipeline_run TM m (pipeline_start workers w) (ls @ [Works]) p1" by (rule pipeline_run.step [OF less.prems(1) p1(1)])
    moreover have "Ends \<notin> set (ls @ [Works])" using less.prems(2) by simp
    ultimately obtain ms p' where "pipeline_run TM m (pipeline_start workers w) ((ls @ [Works]) @ ms) p'" "set ms \<subseteq> {Works}"
      "on_the_way (nat workers) p' = {#}" using less.hyps [OF p1(2)] by blast
    then show ?thesis by (intro exI [of _ "Works # ms"] exI [of _ p']) simp
  qed
qed

end

section \<open>Properties\<close>

lemma pipeline_confirms:
  assumes "pipeline_run (manager_ops s (mysql_ops r my) uuid_ok) m (pipeline_start workers w) ls p"
    and "repo_sound r my w" "1 \<le> maxRetry s" "1 \<le> workers" "Ends \<notin> set ls"
  shows "\<exists>ms p'. pipeline_run (manager_ops s (mysql_ops r my) uuid_ok) m (pipeline_start workers w) (ls @ ms) p' \<and>
    set ms \<subseteq> {Works} \<and> mset (concat (map fst (results p'))) = mset (sent_tasks ls) \<and>
    ((\<forall>res \<in> set (results p'). snd res = None) \<longrightarrow>
       stored_tasks (pipeline_world p') = stored_tasks w |` (- (task_id ` set (sent_tasks ls))))"
proof -
  let ?TM = "manager_ops s (mysql_ops r my) uuid_ok"
  have w: "repo_sound r my w \<and> 1 \<le> maxRetry s" using assms(2,3) by simp
  obtain ms p' where run: "pipeline_run ?TM m (pipeline_start workers w) (ls @ ms) p'" "set ms \<subseteq> {Works}"
    "on_the_way (nat workers) p' = {#}"
    using mysql_repo.manager.pipeline_drains [OF assms(1) w assms(4,5)] by blast
  have "sent_tasks (ls @ ms) = sent_tasks ls" using run(2) by (induction ms rule: rev_induct) (auto simp: sent_tasks_def)
  then have fin: "mset (concat (map fst (results p'))) = mset (sent_tasks ls)"
    using pipeline_keeps [OF run(1) start_facts(1)] run(3) by (simp add: start_facts(2,3)) (simp add: finished_tasks_def)
  have "stored_tasks (pipeline_world p') = stored_tasks w |` (- (task_id ` set (sent_tasks ls)))"
    if ok: "\<forall>res \<in> set (results p'). snd res = None"
  proof -
    have "reflects (stored_tasks w) (results p') (stored_tasks (pipeline_world p'))"
      using mysql_repo.manager.pipeline_world_keeps [OF run(1) w] by simp
    then obtain D where D: "stored_tasks (pipeline_world p') = stored_tasks w |` (- D)"
      "(\<Union>(b, err) \<in> set (results p'). if err = None then task_id ` set b else {}) \<subseteq> D"
      "D \<subseteq> (\<Union>(b, err) \<in> set (results p'). task_id ` set b)" by (auto simp: reflects_def)
    have "(\<Union>(b, err) \<in> set (results p'). if err = None then task_id ` set b else {}) = (\<Union>(b, err) \<in> set (results p'). task_id ` set b)"
      using ok by (intro SUP_cong) auto
    then have "D = (\<Union>(b, err) \<in> set (results p'). task_id ` set b)" using D(2,3) by simp
    also have "\<dots> = task_id ` set (concat (map fst (results p')))" by (simp add: image_UN case_prod_unfold)
    also have "\<dots> = task_id ` set (sent_tasks ls)" using fin by (metis set_mset_mset)
    finally show ?thesis using D(1) by simp
  qed
  with run(1,2) fin show ?thesis by blast
qed

text \<open>
  C10: Every task that is confirmed leaves the database: from every state the pipeline can reach, its
  goroutines alone can bring all the tasks sent so far to the task manager, each exactly once, as long
  as there is a worker; if the task manager reports no error, then precisely these tasks are gone
  from the database. No interleaving leads to a state in which a task is stuck.
\<close>

theorem confirmed_tasks_leave_the_database:
  assumes "pipeline_run (manager_ops s (mysql_ops r my) uuid_ok) m (pipeline_start workers w) ls p"
    and "repo_sound r my w" "1 \<le> maxRetry s" "1 \<le> workers" "Ends \<notin> set ls"
  shows "\<exists>ms p'. pipeline_run (manager_ops s (mysql_ops r my) uuid_ok) m (pipeline_start workers w) (ls @ ms) p' \<and>
    set ms \<subseteq> {Works} \<and> mset (concat (map fst (results p'))) = mset (sent_tasks ls) \<and>
    ((\<forall>res \<in> set (results p'). snd res = None) \<longrightarrow>
       stored_tasks (pipeline_world p') = stored_tasks w |` (- (task_id ` set (sent_tasks ls))))"
  using assms by (rule pipeline_confirms)

lemma sample_send:
  "pipeline_run TM 1000 (pipeline_start 5 w) [Sends t]
     ((pipeline_start 5 w)\<lparr>tasksToConfirm := \<lparr>chan_queue = [t], chan_closed = False\<rparr>\<rparr>)"
  using pipeline_run.step [OF pipeline_run.start [of TM 1000 "pipeline_start 5 w"] pipeline_step.sends [of "pipeline_start 5 w" 1000 TM t]]
  by (simp add: pipeline_start_def)

theorem confirmed_tasks_leave_the_database_witness:
  "\<exists>ms p'. pipeline_run (manager_ops sample_manager (mysql_ops sample_repository example_mysql) (\<lambda>_. True)) 1000
      (pipeline_start 5 (counted_world [])) (Sends \<lparr>task_id = ''a'', exec_time = 50\<rparr> # ms) p' \<and>
    concat (map fst (results p')) = [\<lparr>task_id = ''a'', exec_time = 50\<rparr>]"
proof -
  let ?t = "\<lparr>task_id = ''a'', exec_time = 50\<rparr>"
  have "repo_sound sample_repository example_mysql (counted_world [])" by simp
  from confirmed_tasks_leave_the_database [where uuid_ok = "\<lambda>_. True", OF sample_send [where t = ?t] this sample_tries]
  obtain ms p' where run: "pipeline_run (manager_ops sample_manager (mysql_ops sample_repository example_mysql) (\<lambda>_. True)) 1000
      (pipeline_start 5 (counted_world [])) ([Sends ?t] @ ms) p'"
    "mset (concat (map fst (results p'))) = mset (sent_tasks [Sends ?t])" by fastforce
  have "concat (map fst (results p')) = [?t]" using run(2) by (simp add: sent_tasks_def del: mset_concat)
  with run(1) show ?thesis by auto
qed

text \<open>
  C16: The pipeline neither loses nor invents nor repeats a task: at every moment of every run what is on
  its way and what has been given to the task manager is what was sent. Batches are never empty and
  never longer than \<open>BatchMaxItems\<close>.
\<close>

theorem pipeline_conserves_tasks:
  assumes "pipeline_run TM m (pipeline_start workers w) ls p" "1 \<le> m"
  shows "on_the_way (nat workers) p + mset (concat (map fst (results p))) = mset (sent_tasks ls) \<and>
    (\<forall>(b, err) \<in> set (results p). b \<noteq> [] \<and> int (length b) \<le> m)"
proof -
  note k = pipeline_keeps [OF assms(1) start_facts(1)]
  have "batches_ok m p" using k assms(2) start_facts(5) [of m workers w] by simp
  then have "\<forall>b \<in> fst ` set (results p). batch_ok m b" by (simp add: batches_ok_def)
  then have "\<forall>(b, err) \<in> set (results p). b \<noteq> [] \<and> int (length b) \<le> m" by (auto simp: batch_ok_def)
  moreover have "on_the_way (nat workers) p + finished_tasks p = mset (sent_tasks ls)"
    using k unfolding start_facts(2,3) by simp
  ultimately show ?thesis unfolding finished_tasks_def by blast
qed

theorem pipeline_conserves_tasks_witness:
  "\<exists>ms p b err. pipeline_run (manager_ops sample_manager (mysql_ops sample_repository example_mysql) (\<lambda>_. True)) 1000
      (pipeline_start 5 (counted_world [])) (Sends \<lparr>task_id = ''a'', exec_time = 50\<rparr> # ms) p \<and>
    (b, err) \<in> set (results p) \<and> b \<noteq> [] \<and> int (length b) \<le> 1000"
proof -
  let ?t = "\<lparr>task_id = ''a'', exec_time = 50\<rparr>"
  have s: "repo_sound sample_repository example_mysql (counted_world []) \<and> 1 \<le> maxRetry sample_manager" by simp
  have "1 \<le> (5 :: int)" "Ends \<notin> set [Sends ?t]" by simp_all
  then obtain ms p where run: "pipeline_run (manager_ops sample_manager (mysql_ops sample_repository example_mysql) (\<lambda>_. True)) 1000
      (pipeline_start 5 (counted_world [])) ([Sends ?t] @ ms) p" "set ms \<subseteq> {Works}" "on_the_way (nat 5) p = {#}"
    using mysql_repo.manager.pipeline_drains [OF sample_send [where t = ?t] s] by blast
  have "sent_tasks ([Sends ?t] @ ms) = [?t]" using run(2) by (induction ms rule: rev_induct) (auto simp: sent_tasks_def)
  with pipeline_conserves_tasks [OF run(1)] run(3) have r: "mset (concat (map fst (results p))) = {#?t#}"
    "\<forall>(b, err) \<in> set (results p). b \<noteq> [] \<and> int (length b) \<le> 1000" by simp_all
  then have "results p \<noteq> []" by auto
  then obtain b err where "(b, err) \<in> set (results p)" by (metis list.set_intros(1) neq_Nil_conv surj_pair)
  with r(2) run(1) show ?thesis by (intro exI [of _ ms] exI [of _ p] exI [of _ b] exI [of _ err]) auto
qed

text \<open>
  C27: No wake-up is lost between the two goroutines of \<open>generateBatch\<close>: whenever the forwarder sleeps
  over a filled queue, a token is there or the gatherer is about to look for one; and, there being
  one gatherer only, its send on \<open>updateQueue\<close> never blocks, although the check of the channel's
  length and the send are not atomic.
\<close>

theorem batches_are_not_stranded:
  assumes "pipeline_run TM m (pipeline_start workers w) ls p"
  shows "(forwarder p = AwaitingUpdate \<and> batch_list (batchQueue p) \<noteq> [] \<longrightarrow>
       updateQueue_tokens p = 1 \<or> (\<exists>k. gatherer p = Queued k \<or> gatherer p = Signalling k)) \<and>
    (\<forall>k. gatherer p = Signalling k \<longrightarrow> updateQueue_tokens p = 0)"
proof -
  have "tokens (hand_over p) \<le> 1 \<and> (consumer (hand_over p) = Receiving \<longrightarrow> batch_list (shared (hand_over p)) \<noteq> [] \<longrightarrow> signal_due (hand_over p))"
    by (rule batch_signal.no_lost_wakeup [OF hand_over_reachable [OF assms]])
  moreover have "gatherer_as g \<noteq> Idle \<longleftrightarrow> (\<exists>k. g = Queued k \<or> g = Signalling k)" for g by (cases g) auto
  ultimately show ?thesis using signalling_has_room [OF assms] by (auto simp: signal_due_def split: if_splits)
qed

lemma sample_asleep:
  "\<exists>p. pipeline_run TM 1 (pipeline_start 1 w) [Works, Sends t, Works, Works] p \<and>
    forwarder p = AwaitingUpdate \<and> batch_list (batchQueue p) = [[t]] \<and> updateQueue_tokens p = 0"
proof -
  let ?p0 = "pipeline_start 1 w"
  let ?p1 = "?p0\<lparr>batchQueue := batchQueue ?p0, forwarder := AwaitingUpdate\<rparr>"
  let ?p2 = "?p1\<lparr>tasksToConfirm := \<lparr>chan_queue = [t], chan_closed = False\<rparr>\<rparr>"
  let ?p3 = "?p2\<lparr>tasksToConfirm := \<lparr>chan_queue = [], chan_closed = False\<rparr>, gatherer := Gathered [t]\<rparr>"
  let ?p4 = "?p3\<lparr>batchQueue := batch_Push [t] (batchQueue ?p3), gatherer := Queued 1\<rparr>"
  have s1: "pipeline_step TM 1 ?p0 Works ?p1"
    by (rule pipeline_step.pop_empty [where batch = "[]"]) (simp_all add: pipeline_start_def batch_Pop_def)
  have s2: "pipeline_step TM 1 ?p1 (Sends t) ?p2"
    using pipeline_step.sends [of ?p1 1 TM t] by (simp add: pipeline_start_def)
  have s3: "pipeline_step TM 1 ?p2 Works ?p3"
    using pipeline_step.gather [of ?p2 "[]" t "[]" TM 1] by (simp add: pipeline_start_def)
  have s4: "pipeline_step TM 1 ?p3 Works ?p4"
    using pipeline_step.push [of ?p3 "[t]" TM 1] by simp
  have "pipeline_run TM 1 ?p0 (((([] @ [Works]) @ [Sends t]) @ [Works]) @ [Works]) ?p4"
    by (rule pipeline_run.step [OF pipeline_run.step [OF pipeline_run.step [OF pipeline_run.step [OF pipeline_run.start s1] s2] s3] s4])
  then have r: "pipeline_run TM 1 ?p0 [Works, Sends t, Works, Works] ?p4" by simp
  have "forwarder ?p4 = AwaitingUpdate" "batch_list (batchQueue ?p4) = [[t]]" "updateQueue_tokens ?p4 = 0"
    by (simp_all add: batch_Push_def pipeline_start_def)
  with r show ?thesis by blast
qed

theorem batches_are_not_stranded_witness:
  "\<exists>p. pipeline_run (manager_ops sample_manager (mysql_ops sample_repository example_mysql) (\<lambda>_. True)) 1
      (pipeline_start 1 (counted_world [])) [Works, Sends \<lparr>task_id = ''a'', exec_time = 50\<rparr>, Works, Works] p \<and>
    forwarder p = AwaitingUpdate \<and> batch_list (batchQueue p) \<noteq> [] \<and>
    (\<exists>k. gatherer p = Queued k \<or> gatherer p = Signalling k)"
proof -
  let ?TM = "manager_ops sample_manager (mysql_ops sample_repository example_mysql) (\<lambda>_. True)" and ?t = "\<lparr>task_id = ''a'', exec_time = 50\<rparr>"
  obtain p where p: "pipeline_run ?TM 1 (pipeline_start 1 (counted_world [])) [Works, Sends ?t, Works, Works] p"
    "forwarder p = AwaitingUpdate" "batch_list (batchQueue p) = [[?t]]" "updateQueue_tokens p = 0"
    using sample_asleep by blast
  with batches_are_not_stranded [OF p(1)] show ?thesis by (intro exI [of _ p]) simp
qed

end
