(* ===== verification/Sender_Service.thy ===== *)
theory Sender_Service
  imports Batch_Pipeline
begin

text \<open>
  \<open>sender_service/sender_service.go\<close>: \<open>New\<close>, \<open>Consume\<close>, and \<open>Confirm\<close> and \<open>Rollback\<close> of the handles it
  returns. Handles are objects in a pool that is a variable of the package, so the store of all
  objects, the pool and the services are one state; an object is an address. What \<open>sync.Pool\<close> gives
  back, and which channel of \<open>Consume\<close> is received from, is chosen by the step. Theory Batch_Pipeline
  models what happens to the tasks sent on \<open>tasksToConfirm\<close>, of which this theory keeps the sequence;
  a send that has to wait for room is a later step.
\<close>

section \<open>State and construction\<close>

record sender_options =
  opt_BatchMaxItems :: int
  opt_BatchTimeout :: duration
  opt_TasksToConfirmCap :: int
  opt_BatchesCap :: int
  opt_ConfirmationWorkersCount :: int
  opt_CtxTimeout :: duration

record senderService =
  batchTimeout :: duration
  confirmationWorkersCount :: int
  batchMaxItems :: int
  ctxTimeout :: duration

text \<open>
  \<open>tts_service\<close>: the service whose \<open>monitoring\<close>, \<open>eh\<close>, \<open>rollback\<close> and \<open>confirm\<close> the object holds.
\<close>

record taskToSend =
  isProcessed :: bool
  tts_service :: nat
  tts_task :: task

record 'w service =
  tasksReadyToSend :: "task list"
  taskBuffer :: "task buffer"
  toConfirm :: "task list"
  service_world :: 'w

text \<open>
  \<open>pooled\<close>: the objects in \<open>taskToSendPool\<close>; \<open>pool_New\<close>: the service that assigned the pool last;
  \<open>consuming\<close>: the calls of \<open>Consume\<close> (their object and service) that wait for a task.
\<close>

record 'w senders =
  services :: "nat \<Rightarrow> 'w service"
  objects :: "nat \<rightharpoonup> taskToSend"
  pooled :: "nat multiset"
  pool_New :: nat
  consuming :: "(nat \<times> nat) multiset"

definition documented_sender_merge :: "(sender_options \<Rightarrow> sender_options \<Rightarrow> sender_options option) \<Rightarrow> bool" where
  "documented_sender_merge merge \<longleftrightarrow> (\<forall>d s. merge d s = Some
     \<lparr>opt_BatchMaxItems = fill_zero (opt_BatchMaxItems d) (opt_BatchMaxItems s),
      opt_BatchTimeout = fill_zero (opt_BatchTimeout d) (opt_BatchTimeout s),
      opt_TasksToConfirmCap = fill_zero (opt_TasksToConfirmCap d) (opt_TasksToConfirmCap s),
      opt_BatchesCap = fill_zero (opt_BatchesCap d) (opt_BatchesCap s),
      opt_ConfirmationWorkersCount = fill_zero (opt_ConfirmationWorkersCount d) (opt_ConfirmationWorkersCount s),
      opt_CtxTimeout = fill_zero (opt_CtxTimeout d) (opt_CtxTimeout s)\<rparr>)"

definition zero_sender_options :: sender_options where
  "zero_sender_options = \<lparr>opt_BatchMaxItems = 0, opt_BatchTimeout = 0, opt_TasksToConfirmCap = 0,
     opt_BatchesCap = 0, opt_ConfirmationWorkersCount = 0, opt_CtxTimeout = 0\<rparr>"

text \<open>\<open>New\<close> as the construction of service \<open>n\<close>; making a channel of negative capacity panics.\<close>

definition new_service :: "'w \<Rightarrow> 'w service" where
  "new_service w = \<lparr>tasksReadyToSend = [], taskBuffer = NewBuffer, toConfirm = [], service_world = w\<rparr>"

definition sender_New ::
    "(sender_options \<Rightarrow> sender_options \<Rightarrow> sender_options option) \<Rightarrow> sender_options option \<Rightarrow> nat \<Rightarrow>
     'a world_scheme \<Rightarrow> 'a world_scheme senders \<Rightarrow> (senderService \<times> 'a world_scheme senders) option" where
  "sender_New merge options n w st = do {
     let options = (case options of None \<Rightarrow> zero_sender_options | Some opts \<Rightarrow> opts);
     options \<leftarrow> merge options (zero_sender_options\<lparr>opt_BatchMaxItems := 1000, opt_BatchTimeout := 50 * millisecond,
       opt_ConfirmationWorkersCount := 5, opt_CtxTimeout := 5 * second\<rparr>);
     w \<leftarrow> init_or_panic ConfirmationRate VelocityMetricType w;
     w \<leftarrow> init_or_panic SendingRate VelocityMetricType w;
     w \<leftarrow> init_or_panic WaitingForConfirmation IntegralMetricType w;
     if opt_BatchMaxItems options < 0 then None
     else Some (\<lparr>batchTimeout = opt_BatchTimeout options,
         confirmationWorkersCount = opt_ConfirmationWorkersCount options,
         batchMaxItems = opt_BatchMaxItems options, ctxTimeout = opt_CtxTimeout options\<rparr>,
       st\<lparr>services := (services st)(n := new_service w), pooled := {#}, pool_New := n\<rparr>)
   }"

section \<open>Consume, Confirm, Rollback\<close>

definition zero_task :: task where
  "zero_task = \<lparr>task_id = [], exec_time = 0\<rparr>"

definition at_service :: "nat \<Rightarrow> ('w service \<Rightarrow> 'w service) \<Rightarrow> 'w senders \<Rightarrow> 'w senders" where
  "at_service s f st = st\<lparr>services := (services st)(s := f (services st s))\<rparr>"

text \<open>\<open>Consume\<close>: an object from the pool or from its \<open>New\<close>, then a task from one of the two channels.\<close>

definition consume_start :: "nat \<Rightarrow> nat \<Rightarrow> taskToSend \<Rightarrow> 'w senders \<Rightarrow> 'w senders" where
  "consume_start s a tts st = st\<lparr>objects := (objects st)(a \<mapsto> tts\<lparr>isProcessed := False\<rparr>),
     consuming := add_mset (a, s) (consuming st)\<rparr>"

definition consume_end :: "nat \<Rightarrow> nat \<Rightarrow> taskToSend \<Rightarrow> task \<Rightarrow> 'w senders \<Rightarrow> 'w senders" where
  "consume_end s a tts t st = st\<lparr>objects := (objects st)(a \<mapsto> tts\<lparr>tts_task := t\<rparr>), consuming := consuming st - {#(a, s)#}\<rparr>"

text \<open>The bodies of \<open>Confirm\<close> and \<open>Rollback\<close> on an object that is not processed.\<close>

definition put_processed :: "nat \<Rightarrow> taskToSend \<Rightarrow> 'w senders \<Rightarrow> 'w senders" where
  "put_processed a tts st = st\<lparr>objects := (objects st)(a \<mapsto> tts\<lparr>isProcessed := True\<rparr>), pooled := add_mset a (pooled st)\<rparr>"

definition tts_Confirm :: "nat \<Rightarrow> taskToSend \<Rightarrow> 'a world_scheme senders \<Rightarrow> 'a world_scheme senders" where
  "tts_Confirm a tts st = put_processed a tts (at_service (tts_service tts)
     (\<lambda>v. v\<lparr>service_world := publish_or_log SendingRate 1 (service_world v), toConfirm := toConfirm v @ [tts_task tts]\<rparr>) st)"

definition tts_Rollback :: "nat \<Rightarrow> taskToSend \<Rightarrow> task buffer \<Rightarrow> 'w senders \<Rightarrow> 'w senders" where
  "tts_Rollback a tts buffer st = put_processed a tts (at_service (tts_service tts) (\<lambda>v. v\<lparr>taskBuffer := buffer\<rparr>) st)"

datatype sender_label =
    Delivers nat task
  | ConsumeStarts nat nat
  | Consumes nat nat task
  | CallsConfirm nat
  | CallsRollback nat
  | BufferMoves nat

inductive sender_step :: "'a world_scheme senders \<Rightarrow> sender_label \<Rightarrow> 'a world_scheme senders \<Rightarrow> bool" where
  delivers: "sender_step st (Delivers s t) (at_service s (\<lambda>v. v\<lparr>tasksReadyToSend := tasksReadyToSend v @ [t]\<rparr>) st)"
| pool_old: "a \<in># pooled st \<Longrightarrow> objects st a = Some tts \<Longrightarrow>
    sender_step st (ConsumeStarts s a) (consume_start s a tts (st\<lparr>pooled := pooled st - {#a#}\<rparr>))"
| pool_new: "objects st a = None \<Longrightarrow>
    sender_step st (ConsumeStarts s a)
      (consume_start s a \<lparr>isProcessed = False, tts_service = pool_New st, tts_task = zero_task\<rparr> st)"
| from_ready: "(a, s) \<in># consuming st \<Longrightarrow> objects st a = Some tts \<Longrightarrow> tasksReadyToSend (services st s) = t # ts \<Longrightarrow>
    sender_step st (Consumes s a t) (consume_end s a tts t (at_service s (\<lambda>v. v\<lparr>tasksReadyToSend := ts\<rparr>) st))"
| from_buffer: "(a, s) \<in># consuming st \<Longrightarrow> objects st a = Some tts \<Longrightarrow>
    buffer_step (taskBuffer (services st s)) (Gets t) buffer \<Longrightarrow>
    sender_step st (Consumes s a t) (consume_end s a tts t (at_service s (\<lambda>v. v\<lparr>taskBuffer := buffer\<rparr>) st))"
| confirm: "objects st a = Some tts \<Longrightarrow> \<not> isProcessed tts \<Longrightarrow> sender_step st (CallsConfirm a) (tts_Confirm a tts st)"
| confirm_processed: "objects st a = Some tts \<Longrightarrow> isProcessed tts \<Longrightarrow> sender_step st (CallsConfirm a) st"
| rollback: "objects st a = Some tts \<Longrightarrow> \<not> isProcessed tts \<Longrightarrow>
    buffer_step (taskBuffer (services st (tts_service tts))) (Puts (tts_task tts)) buffer \<Longrightarrow>
    sender_step st (CallsRollback a) (tts_Rollback a tts buffer st)"
| rollback_processed: "objects st a = Some tts \<Longrightarrow> isProcessed tts \<Longrightarrow> sender_step st (CallsRollback a) st"
| buffer_moves: "buffer_step (taskBuffer (services st s)) Moves buffer \<Longrightarrow>
    sender_step st (BufferMoves s) (at_service s (\<lambda>v. v\<lparr>taskBuffer := buffer\<rparr>) st)"

inductive sender_run ::
    "'a world_scheme senders \<Rightarrow> sender_label list \<Rightarrow> 'a world_scheme senders \<Rightarrow> bool" for st0 where
  start: "sender_run st0 [] st0"
| step: "sender_run st0 ls st \<Longrightarrow> sender_step st l st' \<Longrightarrow> sender_run st0 (ls @ [l]) st'"

definition no_senders :: "'w \<Rightarrow> 'w senders" where
  "no_senders w = \<lparr>services = (\<lambda>_. new_service w), objects = Map.empty, pooled = {#}, pool_New = 0, consuming = {#}\<rparr>"

section \<open>Proper use of the handles\<close>

text \<open>
  \<open>held ls\<close>: the handles that \<open>Consume\<close> has returned and on which neither \<open>Confirm\<close> nor \<open>Rollback\<close>
  has been called since. A proper run of one service makes these calls on held handles only.
\<close>

fun held_after :: "sender_label \<Rightarrow> nat multiset \<Rightarrow> nat multiset" where
  "held_after (Consumes s a t) H = add_mset a H"
| "held_after (CallsConfirm a) H = H - {#a#}"
| "held_after (CallsRollback a) H = H - {#a#}"
| "held_after _ H = H"

definition held :: "sender_label list \<Rightarrow> nat multiset" where
  "held ls = fold held_after ls {#}"

fun proper_call :: "nat multiset \<Rightarrow> sender_label \<Rightarrow> bool" where
  "proper_call H (CallsConfirm a) \<longleftrightarrow> a \<in># H"
| "proper_call H (CallsRollback a) \<longleftrightarrow> a \<in># H"
| "proper_call H (Delivers s t) \<longleftrightarrow> s = 0"
| "proper_call H (ConsumeStarts s a) \<longleftrightarrow> s = 0"
| "proper_call H (Consumes s a t) \<longleftrightarrow> s = 0"
| "proper_call H (BufferMoves s) \<longleftrightarrow> s = 0"

inductive proper_run ::
    "'a world_scheme senders \<Rightarrow> sender_label list \<Rightarrow> 'a world_scheme senders \<Rightarrow> bool" for st0 where
  proper_start: "proper_run st0 [] st0"
| proper_step: "proper_run st0 ls st \<Longrightarrow> sender_step st l st' \<Longrightarrow> proper_call (held ls) l \<Longrightarrow>
    proper_run st0 (ls @ [l]) st'"

lemma held_simps [simp]: "held [] = {#}" "held (ls @ [l]) = held_after l (held ls)"
  by (simp_all add: held_def)

definition delivered :: "sender_label list \<Rightarrow> task list" where
  "delivered ls = concat (map (\<lambda>l. case l of Delivers s t \<Rightarrow> [t] | _ \<Rightarrow> []) ls)"

lemma delivered_snoc: "delivered (ls @ [l]) = delivered ls @ delivered [l]"
  by (simp add: delivered_def)

definition task_of :: "(nat \<rightharpoonup> taskToSend) \<Rightarrow> nat \<Rightarrow> task" where
  "task_of objs a = tts_task (the (objs a))"

text \<open>Every object is at exactly one place, and processed exactly when it is in the pool.\<close>

definition objects_ok :: "nat multiset \<Rightarrow> 'w senders \<Rightarrow> bool" where
  "objects_ok H st \<longleftrightarrow> pool_New st = 0 \<and> (\<forall>x \<in># consuming st. snd x = 0) \<and>
     (\<forall>a. count (pooled st + image_mset fst (consuming st) + H) a = (if objects st a = None then 0 else 1)) \<and>
     (\<forall>a tts. objects st a = Some tts \<longrightarrow> tts_service tts = 0 \<and> (isProcessed tts \<longleftrightarrow> a \<in># pooled st))"

text \<open>What a service has, with the tasks of the held handles.\<close>

definition service_tasks :: "nat multiset \<Rightarrow> 'w senders \<Rightarrow> task multiset" where
  "service_tasks H st = mset (tasksReadyToSend (services st 0)) + image_mset (task_of (objects st)) H +
     mset (buffered (taskBuffer (services st 0))) + mset (toConfirm (services st 0))"

lemma objects_okD:
  assumes "objects_ok H st" "objects st a = Some tts"
  shows "count (pooled st) a + count (image_mset fst (consuming st)) a + count H a = 1" "tts_service tts = 0"
    "isProcessed tts \<longleftrightarrow> 0 < count (pooled st) a"
  using assms by (auto simp: objects_ok_def dest: spec [of _ a])

lemma objects_ok_None:
  assumes "objects_ok H st" "objects st a = None"
  shows "count (pooled st) a = 0" "count (image_mset fst (consuming st)) a = 0" "count H a = 0"
  using assms by (auto simp: objects_ok_def dest: spec [of _ a])

lemma fst_count: "(a, s) \<in># M \<Longrightarrow> 1 \<le> count (image_mset fst M) a"
  by (metis Suc_leI One_nat_def count_greater_zero_iff fst_conv image_eqI set_image_mset)

lemma task_of_upd [simp]: "count H a = 0 \<Longrightarrow> image_mset (task_of (objs(a \<mapsto> x))) H = image_mset (task_of objs) H"
proof -
  assume "count H a = 0"
  then have "a \<notin># H" by (simp add: not_in_iff)
  then show ?thesis by (intro image_mset_cong) (auto simp: task_of_def)
qed

lemma task_of_same [simp]: "task_of (objs(a \<mapsto> x)) a = tts_task x"
  by (simp add: task_of_def)

text \<open>The steps of a handle: to a waiting call, to a holder, back to the pool.\<close>

lemma objects_okI:
  assumes "objects_ok H st" "objects st' = (objects st)(a \<mapsto> x)" "pool_New st' = pool_New st" "tts_service x = 0"
    and "\<And>y. y \<in># consuming st' \<Longrightarrow> y \<in># consuming st \<or> snd y = 0"
    and "\<And>b. b \<noteq> a \<Longrightarrow> count (pooled st') b = count (pooled st) b \<and> count H' b = count H b \<and>
      count (image_mset fst (consuming st')) b = count (image_mset fst (consuming st)) b"
    and "count (pooled st') a + count (image_mset fst (consuming st')) a + count H' a = 1"
    and "isProcessed x \<longleftrightarrow> 0 < count (pooled st') a"
  shows "objects_ok H' st'"
  unfolding objects_ok_def
proof (intro conjI allI impI ballI)
  have ok: "count (pooled st) b + count (image_mset fst (consuming st)) b + count H b = (if objects st b = None then 0 else 1)"
    "objects st b = Some tts \<Longrightarrow> tts_service tts = 0 \<and> (isProcessed tts \<longleftrightarrow> 0 < count (pooled st) b)" for b tts
    using assms(1) by (simp_all add: objects_ok_def)
  show "pool_New st' = 0" using assms(1,3) by (simp add: objects_ok_def)
  show "snd y = 0" if "y \<in># consuming st'" for y using assms(1) assms(5) [OF that] by (auto simp: objects_ok_def)
  show "count (pooled st' + image_mset fst (consuming st') + H') b = (if objects st' b = None then 0 else 1)" for b
    using assms(6) [of b] assms(2,7) ok(1) [of b] by (cases "b = a") simp_all
  fix b tts assume "objects st' b = Some tts"
  then have "b = a \<and> tts = x \<or> b \<noteq> a \<and> objects st b = Some tts" unfolding assms(2) by (auto split: if_splits)
  then have "tts_service tts = 0 \<and> (isProcessed tts \<longleftrightarrow> 0 < count (pooled st') b)"
    using assms(4,8) ok(2) assms(6) [of b] by metis
  then show "tts_service tts = 0" "isProcessed tts \<longleftrightarrow> b \<in># pooled st'" by simp_all
qed

lemma received:
  assumes ok: "objects_ok H st" and c: "(a, s) \<in># consuming st" and o: "objects st a = Some tts"
  shows "s = 0 \<and> count (pooled st) a = 0 \<and> count (image_mset fst (consuming st)) a = 1 \<and> count H a = 0 \<and>
    tts_service tts = 0 \<and> (a, 0) \<in># consuming st \<and> \<not> isProcessed tts"
proof -
  have z: "s = 0" using ok c unfolding objects_ok_def by force
  have "count (pooled st) a = 0 \<and> count (image_mset fst (consuming st)) a = 1 \<and> count H a = 0"
    using objects_okD(1) [OF ok o] fst_count [OF c] by linarith
  with objects_okD(2,3) [OF ok o] z c show ?thesis by simp
qed

lemma in_hand:
  assumes ok: "objects_ok H st" and o: "objects st a = Some tts" and h: "a \<in># H"
  shows "count (pooled st) a = 0 \<and> count (image_mset fst (consuming st)) a = 0 \<and> count H a = 1 \<and>
    tts_service tts = 0 \<and> \<not> isProcessed tts"
proof -
  have "0 < count H a" using h by simp
  then have "count (pooled st) a = 0 \<and> count (image_mset fst (consuming st)) a = 0 \<and> count H a = 1"
    using objects_okD(1) [OF ok o] by linarith
  with objects_okD(2,3) [OF ok o] show ?thesis by simp
qed

lemma step_objects_ok:
  assumes step: "sender_step st l st'" and ok: "objects_ok H st" and proper: "proper_call H l"
  shows "objects_ok (held_after l H) st' \<and> service_tasks (held_after l H) st' = service_tasks H st + mset (delivered [l])"
  using step
proof cases
  case (delivers s t)
  then show ?thesis using ok proper
    by (simp add: at_service_def objects_ok_def service_tasks_def delivered_def)
next
  case (pool_old a tts s)
  note f = objects_okD [OF ok pool_old(4)]
  have c: "count (pooled st) a = 1" "count (image_mset fst (consuming st)) a = 0" "count H a = 0"
    using f(1) pool_old(3) by (auto simp: count_greater_zero_iff [symmetric] simp del: count_greater_zero_iff)
  then have "objects_ok H st'" using f pool_old proper
    by (intro objects_okI [OF ok, where a = a and x = "tts\<lparr>isProcessed := False\<rparr>"]) (auto simp: consume_start_def)
  then show ?thesis using pool_old c by (simp add: delivered_def service_tasks_def consume_start_def)
next
  case (pool_new a s)
  note c = objects_ok_None [OF ok pool_new(3)]
  have "objects_ok H st'" using pool_new proper c ok
    by (intro objects_okI [OF ok, where a = a and x = "\<lparr>isProcessed = False, tts_service = pool_New st, tts_task = zero_task\<rparr>"])
      (auto simp: consume_start_def objects_ok_def)
  then show ?thesis using pool_new c by (simp add: delivered_def service_tasks_def consume_start_def)
next
  case (from_ready a s tts t ts)
  note r = received [OF ok from_ready(3,4)]
  then obtain C where "consuming st = add_mset (a, 0) C" by (auto dest: multi_member_split)
  then have "objects_ok (add_mset a H) st'" using r from_ready proper
    by (intro objects_okI [OF ok, where a = a and x = "tts\<lparr>tts_task := t\<rparr>"]) (auto simp: consume_end_def at_service_def)
  then show ?thesis using from_ready proper r by (simp add: delivered_def service_tasks_def consume_end_def at_service_def)
next
  case (from_buffer a s tts t buffer)
  note r = received [OF ok from_buffer(3,4)]
  then obtain C where "consuming st = add_mset (a, 0) C" by (auto dest: multi_member_split)
  then have "objects_ok (add_mset a H) st'" using r from_buffer proper
    by (intro objects_okI [OF ok, where a = a and x = "tts\<lparr>tts_task := t\<rparr>"]) (auto simp: consume_end_def at_service_def)
  then show ?thesis using from_buffer proper r step_effect [OF from_buffer(5)]
    by (simp add: delivered_def service_tasks_def consume_end_def at_service_def)
next
  case (confirm a tts)
  note p = in_hand [OF ok confirm(3)]
  have "objects_ok (H - {#a#}) st'" using p confirm proper ok
    by (intro objects_okI [OF ok, where a = a and x = "tts\<lparr>isProcessed := True\<rparr>"])
      (auto simp: tts_Confirm_def put_processed_def at_service_def)
  moreover obtain H' where "H = add_mset a H'" using proper confirm by (auto dest: multi_member_split)
  ultimately show ?thesis using confirm proper p
    by (simp add: delivered_def service_tasks_def tts_Confirm_def put_processed_def at_service_def task_of_def)
next
  case (confirm_processed a tts)
  with in_hand [OF ok confirm_processed(3)] proper show ?thesis by simp
next
  case (rollback a tts buffer)
  note p = in_hand [OF ok rollback(3)]
  have "objects_ok (H - {#a#}) st'" using p rollback proper ok
    by (intro objects_okI [OF ok, where a = a and x = "tts\<lparr>isProcessed := True\<rparr>"])
      (auto simp: tts_Rollback_def put_processed_def at_service_def)
  moreover obtain H' where "H = add_mset a H'" using proper rollback by (auto dest: multi_member_split)
  ultimately show ?thesis using rollback proper p step_effect [OF rollback(5)]
    by (simp add: delivered_def service_tasks_def tts_Rollback_def put_processed_def at_service_def task_of_def)
next
  case (rollback_processed a tts)
  with in_hand [OF ok rollback_processed(3)] proper show ?thesis by simp
next
  case (buffer_moves s buffer)
  then show ?thesis using ok proper step_effect [OF buffer_moves(3)]
    by (simp add: at_service_def objects_ok_def service_tasks_def delivered_def)
qed

lemma sender_New_start:
  assumes "sender_New merge options n w (no_senders w0) = Some (cfg, st0)"
  obtains w1 where "st0 = (no_senders w0)\<lparr>services := (services (no_senders w0))(n := new_service w1), pool_New := n\<rparr>"
  using assms by (auto simp: sender_New_def bind_eq_Some_conv no_senders_def split: if_splits)

lemma start_objects_ok:
  assumes "sender_New merge options 0 w (no_senders w0) = Some (cfg, st0)"
  shows "objects_ok {#} st0" "service_tasks {#} st0 = {#}"
  by (rule sender_New_start [OF assms]; simp add: no_senders_def objects_ok_def service_tasks_def new_service_def NewBuffer_ok)+

lemma proper_run_keeps:
  "proper_run st0 ls st \<Longrightarrow> objects_ok {#} st0 \<Longrightarrow>
    objects_ok (held ls) st \<and> service_tasks (held ls) st = service_tasks {#} st0 + mset (delivered ls)"
proof (induction rule: proper_run.induct)
  case proper_start
  then show ?case by (simp add: delivered_def)
next
  case (proper_step ls st l st')
  then have IH: "objects_ok (held ls) st" "service_tasks (held ls) st = service_tasks {#} st0 + mset (delivered ls)" by simp_all
  from step_objects_ok [OF proper_step.hyps(2) IH(1) proper_step.hyps(3)] IH(2) show ?case
    by (simp add: delivered_snoc)
qed

section \<open>Properties\<close>

text \<open>
  C11: Sending loses no task: while every handle is used once, each task delivered to the sender service
  is, at every moment of every run with any number of consumers, in exactly one of: the ready channel,
  a handle that a consumer holds, the buffer of rolled-back tasks, or the tasks sent for confirmation.
  No handle is held twice, and the next \<open>Confirm\<close> or \<open>Rollback\<close> on a held handle is not ignored.
\<close>

theorem handles_conserve_tasks:
  assumes "sender_New merge options 0 w (no_senders w0) = Some (cfg, st0)" "proper_run st0 ls st"
  shows "mset (delivered ls) = mset (tasksReadyToSend (services st 0)) + image_mset (task_of (objects st)) (held ls) +
      mset (buffered (taskBuffer (services st 0))) + mset (toConfirm (services st 0)) \<and>
    (\<forall>a \<in># held ls. count (held ls) a = 1 \<and> (\<exists>tts. objects st a = Some tts \<and> \<not> isProcessed tts \<and> tts_service tts = 0))"
proof -
  note k = proper_run_keeps [OF assms(2) start_objects_ok(1) [OF assms(1)]]
  then have ok: "objects_ok (held ls) st" by simp
  have "count (held ls) a = 1 \<and> (\<exists>tts. objects st a = Some tts \<and> \<not> isProcessed tts \<and> tts_service tts = 0)"
    if "a \<in># held ls" for a
  proof -
    have c: "0 < count (held ls) a" using that by simp
    with objects_ok_None(3) [OF ok] obtain tts where o: "objects st a = Some tts" by fastforce
    note f = objects_okD [OF ok o]
    with c have "count (held ls) a = 1 \<and> count (pooled st) a = 0" by linarith
    with f o show ?thesis by simp
  qed
  moreover have "service_tasks (held ls) st = mset (delivered ls)" using k by (simp only: start_objects_ok(2) [OF assms(1)]) simp
  ultimately show ?thesis by (simp add: service_tasks_def)
qed

text \<open>
  A handle takes effect once: after \<open>Confirm\<close> or \<open>Rollback\<close>, every further call of either changes
  nothing, until the handle is given out again.
\<close>

theorem second_call_is_ignored:
  assumes "sender_step st l st1" "sender_step st1 l' st2" "l \<in> {CallsConfirm a, CallsRollback a}" "l' \<in> {CallsConfirm a, CallsRollback a}"
  shows "st2 = st1"
proof -
  have "\<exists>tts. objects st1 a = Some tts \<and> isProcessed tts"
    using assms(1,3) by (cases rule: sender_step.cases) (auto simp: tts_Confirm_def tts_Rollback_def put_processed_def)
  with assms(2,4) show ?thesis by (cases rule: sender_step.cases) auto
qed

section \<open>Sample runs\<close>

definition standard_sender_merge :: "sender_options \<Rightarrow> sender_options \<Rightarrow> sender_options option" where
  "standard_sender_merge d s = Some
     \<lparr>opt_BatchMaxItems = fill_zero (opt_BatchMaxItems d) (opt_BatchMaxItems s),
      opt_BatchTimeout = fill_zero (opt_BatchTimeout d) (opt_BatchTimeout s),
      opt_TasksToConfirmCap = fill_zero (opt_TasksToConfirmCap d) (opt_TasksToConfirmCap s),
      opt_BatchesCap = fill_zero (opt_BatchesCap d) (opt_BatchesCap s),
      opt_ConfirmationWorkersCount = fill_zero (opt_ConfirmationWorkersCount d) (opt_ConfirmationWorkersCount s),
      opt_CtxTimeout = fill_zero (opt_CtxTimeout d) (opt_CtxTimeout s)\<rparr>"

definition bare_world :: world where
  "bare_world = \<lparr>events = [], monitor = \<lparr>periodMeasure = second, metrics = Map.empty, subscriptionChs = Map.empty\<rparr>,
     clock = (\<lambda>_. 0), clock_reads = 0\<rparr>"

lemma sample_sender:
  obtains cfg w1 where "sender_New standard_sender_merge None n bare_world st =
    Some (cfg, st\<lparr>services := (services st)(n := new_service w1), pooled := {#}, pool_New := n\<rparr>)"
    "batchMaxItems cfg = 1000" "confirmationWorkersCount cfg = 5"
  by (simp add: sender_New_def standard_sender_merge_def zero_sender_options_def fill_zero_def init_or_panic_def mon_Init_def
      monitoring_Init_def bare_world_def topic_defs)

text \<open>The steps of a consumer on a service whose buffer is empty, and the states between them.\<close>

definition sample_state :: "nat \<Rightarrow> nat \<Rightarrow> task list \<Rightarrow> task buffer \<Rightarrow> task list \<Rightarrow> (nat \<rightharpoonup> taskToSend) \<Rightarrow> nat multiset \<Rightarrow>
    (nat \<times> nat) multiset \<Rightarrow> 'w \<Rightarrow> 'w senders \<Rightarrow> 'w senders" where
  "sample_state s n ready buf conf objs pool cons w st =
     \<lparr>services = (services st)(s := \<lparr>tasksReadyToSend = ready, taskBuffer = buf, toConfirm = conf, service_world = w\<rparr>),
      objects = objs, pooled = pool, pool_New = n, consuming = cons\<rparr>"

lemma sample_sender_steps:
  "sender_step (sample_state s n ready buf conf objs pool cons w st) (Delivers s t)
     (sample_state s n (ready @ [t]) buf conf objs pool cons w st)"
  "objs a = None \<Longrightarrow> sender_step (sample_state s n ready buf conf objs pool cons w st) (ConsumeStarts s a)
     (sample_state s n ready buf conf (objs(a \<mapsto> \<lparr>isProcessed = False, tts_service = n, tts_task = zero_task\<rparr>)) pool (add_mset (a, s) cons) w st)"
  "objs a = Some tts \<Longrightarrow> sender_step (sample_state s n ready buf conf objs (add_mset a pool) cons w st) (ConsumeStarts s a)
     (sample_state s n ready buf conf (objs(a \<mapsto> tts\<lparr>isProcessed := False\<rparr>)) pool (add_mset (a, s) cons) w st)"
  "objs a = Some tts \<Longrightarrow> sender_step (sample_state s n (t # ready) buf conf objs pool (add_mset (a, s) cons) w st) (Consumes s a t)
     (sample_state s n ready buf conf (objs(a \<mapsto> tts\<lparr>tts_task := t\<rparr>)) pool cons w st)"
  "objs a = Some tts \<Longrightarrow> \<not> isProcessed tts \<Longrightarrow> tts_service tts = s \<Longrightarrow>
     sender_step (sample_state s n ready buf conf objs pool cons w st) (CallsConfirm a)
       (sample_state s n ready buf (conf @ [tts_task tts]) (objs(a \<mapsto> tts\<lparr>isProcessed := True\<rparr>)) (add_mset a pool) cons
          (publish_or_log SendingRate 1 w) st)"
  "objs a = Some tts \<Longrightarrow> isProcessed tts \<Longrightarrow>
     sender_step (sample_state s n ready buf conf objs pool cons w st) (CallsRollback a) (sample_state s n ready buf conf objs pool cons w st)"
  "objs a = Some tts \<Longrightarrow> \<not> isProcessed tts \<Longrightarrow> tts_service tts = s \<Longrightarrow> buffer_step buf (Puts (tts_task tts)) buf' \<Longrightarrow>
     sender_step (sample_state s n ready buf conf objs pool cons w st) (CallsRollback a)
       (sample_state s n ready buf' conf (objs(a \<mapsto> tts\<lparr>isProcessed := True\<rparr>)) (add_mset a pool) cons w st)"
proof -
  let ?s = "sample_state s n ready buf conf objs pool cons w st"
  note u = sample_state_def at_service_def consume_start_def consume_end_def tts_Confirm_def tts_Rollback_def put_processed_def
  show "sender_step ?s (Delivers s t) (sample_state s n (ready @ [t]) buf conf objs pool cons w st)"
    using sender_step.delivers [of ?s s t] by (simp add: u)
  show "sender_step ?s (ConsumeStarts s a)
     (sample_state s n ready buf conf (objs(a \<mapsto> \<lparr>isProcessed = False, tts_service = n, tts_task = zero_task\<rparr>)) pool (add_mset (a, s) cons) w st)"
    if "objs a = None" using sender_step.pool_new [of ?s a s] that by (simp add: u)
  assume o: "objs a = Some tts"
  show "sender_step (sample_state s n ready buf conf objs (add_mset a pool) cons w st) (ConsumeStarts s a)
     (sample_state s n ready buf conf (objs(a \<mapsto> tts\<lparr>isProcessed := False\<rparr>)) pool (add_mset (a, s) cons) w st)"
    using sender_step.pool_old [of a "sample_state s n ready buf conf objs (add_mset a pool) cons w st" tts s] o by (simp add: u)
  show "sender_step (sample_state s n (t # ready) buf conf objs pool (add_mset (a, s) cons) w st) (Consumes s a t)
     (sample_state s n ready buf conf (objs(a \<mapsto> tts\<lparr>tts_task := t\<rparr>)) pool cons w st)"
    using sender_step.from_ready [of a s "sample_state s n (t # ready) buf conf objs pool (add_mset (a, s) cons) w st" tts t ready] o
    by (simp add: u)
  show "sender_step ?s (CallsRollback a) ?s" if "isProcessed tts"
    using sender_step.rollback_processed [of ?s a tts] o that by (simp add: sample_state_def)
  assume p: "\<not> isProcessed tts" and s: "tts_service tts = s"
  show "sender_step ?s (CallsConfirm a)
       (sample_state s n ready buf (conf @ [tts_task tts]) (objs(a \<mapsto> tts\<lparr>isProcessed := True\<rparr>)) (add_mset a pool) cons
          (publish_or_log SendingRate 1 w) st)"
    using sender_step.confirm [of ?s a tts] o p s by (simp add: u)
  show "sender_step ?s (CallsRollback a)
       (sample_state s n ready buf' conf (objs(a \<mapsto> tts\<lparr>isProcessed := True\<rparr>)) (add_mset a pool) cons w st)"
    if "buffer_step buf (Puts (tts_task tts)) buf'"
    using sender_step.rollback [of ?s a tts buf'] o p s that by (simp add: u)
qed

lemma sample_start:
  obtains cfg w1 where "sender_New standard_sender_merge None 0 bare_world (no_senders bare_world) =
    Some (cfg, sample_state 0 0 [] NewBuffer [] Map.empty {#} {#} w1 (no_senders bare_world))"
proof -
  obtain cfg w1 where "sender_New standard_sender_merge None 0 bare_world (no_senders bare_world) =
    Some (cfg, (no_senders bare_world)\<lparr>services := (services (no_senders bare_world))(0 := new_service w1), pooled := {#}, pool_New := 0\<rparr>)"
    by (rule sample_sender)
  moreover have "(no_senders bare_world)\<lparr>services := (services (no_senders bare_world))(0 := new_service w1), pooled := {#}, pool_New := 0\<rparr> =
      sample_state 0 0 [] NewBuffer [] Map.empty {#} {#} w1 (no_senders bare_world)"
    by (simp add: sample_state_def no_senders_def new_service_def)
  ultimately show thesis using that by simp
qed

lemma NewBuffer_put:
  obtains buf where "buffer_step NewBuffer (Puts t) buf" "buffered buf = [t]"
  using buffer_step.put [of NewBuffer "\<lparr>chan_queue = [], chan_closed = False\<rparr>" t]
  by (fastforce simp: NewBuffer_def chan_cap_def buffered_def in_values_def)

lemma sample_consume:
  fixes t :: task and w1 :: world
  defines "st \<equiv> \<lambda>r conf objs pool cons w. sample_state 0 0 r NewBuffer conf objs pool cons w (no_senders bare_world)"
    and "obj \<equiv> \<lambda>p t. [1 \<mapsto> \<lparr>isProcessed = p, tts_service = 0, tts_task = t\<rparr>]"
  shows "proper_run (st [] [] Map.empty {#} {#} w1) [Delivers 0 t, ConsumeStarts 0 1, Consumes 0 1 t] (st [] [] (obj False t) {#} {#} w1)"
    "proper_run (st [] [] Map.empty {#} {#} w1) [Delivers 0 t, ConsumeStarts 0 1, Consumes 0 1 t, CallsConfirm 1]
       (st [] [t] (obj True t) {#1#} {#} (publish_or_log SendingRate 1 w1))"
proof -
  let ?r0 = "st [] [] Map.empty {#} {#} w1"
  have "proper_run ?r0 ((([] @ [Delivers 0 t]) @ [ConsumeStarts 0 1]) @ [Consumes 0 1 t]) (st [] [] (obj False t) {#} {#} w1)"
  proof (intro proper_run.proper_step)
    show "proper_run ?r0 [] ?r0" by (rule proper_start)
    show "sender_step ?r0 (Delivers 0 t) (st [t] [] Map.empty {#} {#} w1)"
      using sample_sender_steps(1) [of 0 0 "[]"] by (simp add: st_def)
    show "sender_step (st [t] [] Map.empty {#} {#} w1) (ConsumeStarts 0 1) (st [t] [] (obj False zero_task) {#} {#(1, 0)#} w1)"
      unfolding st_def obj_def by (rule sample_sender_steps) simp
    show "sender_step (st [t] [] (obj False zero_task) {#} {#(1, 0)#} w1) (Consumes 0 1 t) (st [] [] (obj False t) {#} {#} w1)"
      using sample_sender_steps(4) [of "obj False zero_task" 1 _ 0 0 t "[]" NewBuffer "[]" "{#}" "{#}" w1 "no_senders bare_world"]
      by (simp add: st_def obj_def)
  qed simp_all
  then show three: "proper_run ?r0 [Delivers 0 t, ConsumeStarts 0 1, Consumes 0 1 t] (st [] [] (obj False t) {#} {#} w1)" by simp
  have "sender_step (st [] [] (obj False t) {#} {#} w1) (CallsConfirm 1) (st [] [t] (obj True t) {#1#} {#} (publish_or_log SendingRate 1 w1))"
    using sample_sender_steps(5) [of "obj False t" 1 _ 0 0 "[]" NewBuffer "[]" "{#}" "{#}" w1 "no_senders bare_world"]
    by (simp add: st_def obj_def)
  from proper_step [OF three this] show "proper_run ?r0 [Delivers 0 t, ConsumeStarts 0 1, Consumes 0 1 t, CallsConfirm 1]
      (st [] [t] (obj True t) {#1#} {#} (publish_or_log SendingRate 1 w1))" by (simp add: held_def)
qed

lemma sample_confirmed:
  obtains cfg st0 st where "sender_New standard_sender_merge None 0 bare_world (no_senders bare_world) = Some (cfg, st0)"
    "proper_run st0 [Delivers 0 t, ConsumeStarts 0 1, Consumes 0 1 t, CallsConfirm 1] st"
    "tasksReadyToSend (services st 0) = []" "buffered (taskBuffer (services st 0)) = []" "toConfirm (services st 0) = [t]"
  by (rule sample_start, rule that, assumption, rule sample_consume(2)) (simp_all add: sample_state_def NewBuffer_ok)

theorem handles_conserve_tasks_witness:
  "\<exists>cfg st0 st. sender_New standard_sender_merge None 0 bare_world (no_senders bare_world) = Some (cfg, st0) \<and>
     proper_run st0 [Delivers 0 \<lparr>task_id = ''a'', exec_time = 50\<rparr>, ConsumeStarts 0 1, Consumes 0 1 \<lparr>task_id = ''a'', exec_time = 50\<rparr>] st \<and>
     (\<exists>tts. objects st 1 = Some tts \<and> \<not> isProcessed tts)"
proof -
  let ?t = "\<lparr>task_id = ''a'', exec_time = 50\<rparr>"
  obtain cfg w1 where n: "sender_New standard_sender_merge None 0 bare_world (no_senders bare_world) =
    Some (cfg, sample_state 0 0 [] NewBuffer [] Map.empty {#} {#} w1 (no_senders bare_world))" by (rule sample_start)
  have "1 \<in># held [Delivers 0 ?t, ConsumeStarts 0 1, Consumes 0 1 ?t]" by (simp add: held_def)
  with handles_conserve_tasks [OF n sample_consume(1) [of w1 ?t]] n sample_consume(1) [of w1 ?t] show ?thesis by blast
qed

theorem second_call_is_ignored_witness:
  "\<exists>st1 st2 :: world senders. sender_step st1 (CallsRollback 1) st2 \<and> st2 = st1 \<and> toConfirm (services st1 0) = [\<lparr>task_id = ''a'', exec_time = 50\<rparr>]"
proof -
  let ?t = "\<lparr>task_id = ''a'', exec_time = 50\<rparr>"
  let ?o = "\<lparr>isProcessed = False, tts_service = 0, tts_task = ?t\<rparr>"
  let ?st = "\<lambda>conf objs pool w. sample_state 0 0 [] NewBuffer conf objs pool {#} w (no_senders bare_world)"
  let ?w = "publish_or_log SendingRate 1 bare_world"
  let ?st1 = "?st ([] @ [tts_task ?o]) ((Map.empty(1 \<mapsto> ?o))(1 \<mapsto> ?o\<lparr>isProcessed := True\<rparr>)) {#1#} ?w"
  have s1: "sender_step (?st [] (Map.empty(1 \<mapsto> ?o)) {#} bare_world) (CallsConfirm 1) ?st1" by (rule sample_sender_steps) simp_all
  have s2: "sender_step ?st1 (CallsRollback 1) ?st1" by (rule sample_sender_steps(6), simp, simp)
  from second_call_is_ignored [OF s1 s2, of 1] s2 show ?thesis
    by (intro exI [of _ ?st1]) (simp add: sample_state_def)
qed

text \<open>
  C34: The protection against a second call ends when the handle goes back to the pool. The README's
  idiom \<open>if err { result.Rollback() }; result.Confirm()\<close> with two consumers can confirm another
  consumer's task: here the second consumer is given the first one's handle with \<open>t2\<close>, the first one's
  \<open>Confirm\<close> confirms \<open>t2\<close>, and the second one's \<open>Rollback\<close> of \<open>t2\<close> is then ignored, so that \<open>t2\<close> is deleted
  from the database although its sending failed.
\<close>

theorem stale_handle_confirms_foreign_task:
  "\<exists>cfg st0 st. sender_New standard_sender_merge None 0 bare_world (no_senders bare_world) = Some (cfg, st0) \<and>
     sender_run st0 [Delivers 0 t1, Delivers 0 t2, ConsumeStarts 0 1, Consumes 0 1 t1, CallsRollback 1,
       ConsumeStarts 0 1, Consumes 0 1 t2, CallsConfirm 1, CallsRollback 1] st \<and>
     toConfirm (services st 0) = [t2] \<and> buffered (taskBuffer (services st 0)) = [t1]"
proof -
  obtain cfg w1 where n: "sender_New standard_sender_merge None 0 bare_world (no_senders bare_world) =
    Some (cfg, sample_state 0 0 [] NewBuffer [] Map.empty {#} {#} w1 (no_senders bare_world))" by (rule sample_start)
  obtain buf where buf: "buffer_step NewBuffer (Puts t1) buf" "buffered buf = [t1]" by (rule NewBuffer_put)
  let ?st = "\<lambda>r b conf objs pool cons w. sample_state 0 0 r b conf objs pool cons w (no_senders bare_world)"
  let ?o = "\<lambda>p t. [1 \<mapsto> \<lparr>isProcessed = p, tts_service = 0, tts_task = t\<rparr>]"
  let ?w2 = "publish_or_log SendingRate 1 w1"
  have run: "sender_run (?st [] NewBuffer [] Map.empty {#} {#} w1) ((((((((([] @ [Delivers 0 t1]) @ [Delivers 0 t2]) @ [ConsumeStarts 0 1]) @
      [Consumes 0 1 t1]) @ [CallsRollback 1]) @ [ConsumeStarts 0 1]) @ [Consumes 0 1 t2]) @ [CallsConfirm 1]) @ [CallsRollback 1])
      (?st [] buf [t2] (?o True t2) {#1#} {#} ?w2)"
  proof (intro sender_run.step)
    show "sender_run (?st [] NewBuffer [] Map.empty {#} {#} w1) [] (?st [] NewBuffer [] Map.empty {#} {#} w1)" by (rule sender_run.start)
    show "sender_step (?st [] NewBuffer [] Map.empty {#} {#} w1) (Delivers 0 t1) (?st [t1] NewBuffer [] Map.empty {#} {#} w1)"
      using sample_sender_steps(1) [of 0 0 "[]"] by simp
    show "sender_step (?st [t1] NewBuffer [] Map.empty {#} {#} w1) (Delivers 0 t2) (?st [t1, t2] NewBuffer [] Map.empty {#} {#} w1)"
      using sample_sender_steps(1) [of 0 0 "[t1]"] by simp
    show "sender_step (?st [t1, t2] NewBuffer [] Map.empty {#} {#} w1) (ConsumeStarts 0 1)
        (?st [t1, t2] NewBuffer [] (?o False zero_task) {#} {#(1, 0)#} w1)" by (rule sample_sender_steps) simp
    show "sender_step (?st [t1, t2] NewBuffer [] (?o False zero_task) {#} {#(1, 0)#} w1) (Consumes 0 1 t1)
        (?st [t2] NewBuffer [] (?o False t1) {#} {#} w1)"
      using sample_sender_steps(4) [of "?o False zero_task" 1 _ 0 0 t1 "[t2]" NewBuffer "[]" "{#}" "{#}" w1 "no_senders bare_world"] by simp
    show "sender_step (?st [t2] NewBuffer [] (?o False t1) {#} {#} w1) (CallsRollback 1) (?st [t2] buf [] (?o True t1) {#1#} {#} w1)"
      using sample_sender_steps(7) [of "?o False t1" 1 _ 0 NewBuffer buf 0 "[t2]" "[]" "{#}" "{#}" w1 "no_senders bare_world"] buf(1) by simp
    show "sender_step (?st [t2] buf [] (?o True t1) {#1#} {#} w1) (ConsumeStarts 0 1) (?st [t2] buf [] (?o False t1) {#} {#(1, 0)#} w1)"
      using sample_sender_steps(3) [of "?o True t1" 1 _ 0 0 "[t2]" buf "[]" "{#}" "{#}" w1 "no_senders bare_world"] by simp
    show "sender_step (?st [t2] buf [] (?o False t1) {#} {#(1, 0)#} w1) (Consumes 0 1 t2) (?st [] buf [] (?o False t2) {#} {#} w1)"
      using sample_sender_steps(4) [of "?o False t1" 1 _ 0 0 t2 "[]" buf "[]" "{#}" "{#}" w1 "no_senders bare_world"] by simp
    show "sender_step (?st [] buf [] (?o False t2) {#} {#} w1) (CallsConfirm 1) (?st [] buf [t2] (?o True t2) {#1#} {#} ?w2)"
      using sample_sender_steps(5) [of "?o False t2" 1 _ 0 0 "[]" buf "[]" "{#}" "{#}" w1 "no_senders bare_world"] by simp
    show "sender_step (?st [] buf [t2] (?o True t2) {#1#} {#} ?w2) (CallsRollback 1) (?st [] buf [t2] (?o True t2) {#1#} {#} ?w2)"
      by (rule sample_sender_steps(6), simp, simp)
  qed
  have run': "sender_run (?st [] NewBuffer [] Map.empty {#} {#} w1) [Delivers 0 t1, Delivers 0 t2, ConsumeStarts 0 1, Consumes 0 1 t1, CallsRollback 1,
       ConsumeStarts 0 1, Consumes 0 1 t2, CallsConfirm 1, CallsRollback 1] (?st [] buf [t2] (?o True t2) {#1#} {#} ?w2)"
    using run by simp
  have "toConfirm (services (?st [] buf [t2] (?o True t2) {#1#} {#} ?w2) 0) = [t2]"
    "buffered (taskBuffer (services (?st [] buf [t2] (?o True t2) {#1#} {#} ?w2) 0)) = [t1]"
    using buf(2) by (simp_all add: sample_state_def)
  with n run' show ?thesis by blast
qed

text \<open>
  C38: The pool belongs to the package, and every \<open>New\<close> assigns it anew with its own channels: once a
  second sender service has been built, the handles given out by the first one confirm their tasks to
  the second one, whose task manager does not have them.
\<close>

theorem second_service_takes_the_confirmations:
  "\<exists>cfg st0 cfg' st1 st. sender_New standard_sender_merge None 0 bare_world (no_senders bare_world) = Some (cfg, st0) \<and>
     sender_New standard_sender_merge None 1 bare_world st0 = Some (cfg', st1) \<and>
     sender_run st1 [Delivers 0 t, ConsumeStarts 0 1, Consumes 0 1 t, CallsConfirm 1] st \<and>
     toConfirm (services st 0) = [] \<and> toConfirm (services st 1) = [t]"
proof -
  obtain cfg w1 where n: "sender_New standard_sender_merge None 0 bare_world (no_senders bare_world) =
    Some (cfg, sample_state 0 0 [] NewBuffer [] Map.empty {#} {#} w1 (no_senders bare_world))" by (rule sample_start)
  let ?before = "sample_state 0 0 [] NewBuffer [] Map.empty {#} {#} w1 (no_senders bare_world)"
  obtain cfg' w2 where n1: "sender_New standard_sender_merge None 1 bare_world ?before =
    Some (cfg', ?before\<lparr>services := (services ?before)(1 := new_service w2), pooled := {#}, pool_New := 1\<rparr>)" by (rule sample_sender)
  let ?base = "(no_senders bare_world)\<lparr>services := (services (no_senders bare_world))(1 := new_service w2)\<rparr>"
  let ?st = "\<lambda>r objs pool cons. sample_state 0 1 r NewBuffer [] objs pool cons w1 ?base"
  have st1: "?before\<lparr>services := (services ?before)(1 := new_service w2), pooled := {#}, pool_New := 1\<rparr> = ?st [] Map.empty {#} {#}"
    by (simp add: sample_state_def fun_upd_twist)
  let ?o = "\<lambda>t. [1 \<mapsto> \<lparr>isProcessed = False, tts_service = 1, tts_task = t\<rparr>]"
  have run: "sender_run (?st [] Map.empty {#} {#}) (((([] @ [Delivers 0 t]) @ [ConsumeStarts 0 1]) @ [Consumes 0 1 t]) @ [CallsConfirm 1])
      (tts_Confirm 1 \<lparr>isProcessed = False, tts_service = 1, tts_task = t\<rparr> (?st [] (?o t) {#} {#}))"
  proof (intro sender_run.step)
    show "sender_run (?st [] Map.empty {#} {#}) [] (?st [] Map.empty {#} {#})" by (rule sender_run.start)
    show "sender_step (?st [] Map.empty {#} {#}) (Delivers 0 t) (?st [t] Map.empty {#} {#})"
      using sample_sender_steps(1) [of 0 1 "[]"] by simp
    show "sender_step (?st [t] Map.empty {#} {#}) (ConsumeStarts 0 1) (?st [t] (?o zero_task) {#} {#(1, 0)#})"
      by (rule sample_sender_steps) simp
    show "sender_step (?st [t] (?o zero_task) {#} {#(1, 0)#}) (Consumes 0 1 t) (?st [] (?o t) {#} {#})"
      using sample_sender_steps(4) [of "?o zero_task" 1 _ 0 1 t "[]" NewBuffer "[]" "{#}" "{#}" w1 ?base] by simp
    show "sender_step (?st [] (?o t) {#} {#}) (CallsConfirm 1)
        (tts_Confirm 1 \<lparr>isProcessed = False, tts_service = 1, tts_task = t\<rparr> (?st [] (?o t) {#} {#}))"
      by (rule sender_step.confirm) (simp_all add: sample_state_def)
  qed
  let ?fin = "tts_Confirm 1 \<lparr>isProcessed = False, tts_service = 1, tts_task = t\<rparr> (?st [] (?o t) {#} {#})"
  have "toConfirm (services ?fin 0) = []" "toConfirm (services ?fin 1) = [t]"
    by (simp_all add: tts_Confirm_def put_processed_def at_service_def sample_state_def new_service_def)
  with n n1 run show ?thesis unfolding st1 append_Nil append_Cons by blast
qed

end
