(* ===== verification/Connection.thy ===== *)
theory Connection
  imports Prelude
begin

text \<open>
  \<open>connection/mysql.go\<close>: the options of the connection and the data source name made of them. Opening
  and pinging belong to \<open>database/sql\<close> and its driver and are parameters: \<open>sql_Open\<close> gives a handle or
  fails, \<open>ping\<close> says whether the server answers.
\<close>

record connection_options =
  opt_User :: string
  opt_Password :: string
  opt_Host :: string
  opt_DbName :: string
  opt_MaxIdleConns :: int
  opt_MaxOpenConns :: int

record 'db sql_DB =
  handle :: 'db
  maxIdleConns :: "int option"
  maxOpenConns :: "int option"

definition fill_empty :: "string \<Rightarrow> string \<Rightarrow> string" where
  "fill_empty d s = (if d = [] then s else d)"

definition documented_connection_merge ::
    "(connection_options \<Rightarrow> connection_options \<Rightarrow> connection_options option) \<Rightarrow> bool" where
  "documented_connection_merge merge \<longleftrightarrow> (\<forall>d s. merge d s = Some
     \<lparr>opt_User = fill_empty (opt_User d) (opt_User s), opt_Password = fill_empty (opt_Password d) (opt_Password s),
      opt_Host = fill_empty (opt_Host d) (opt_Host s), opt_DbName = fill_empty (opt_DbName d) (opt_DbName s),
      opt_MaxIdleConns = fill_zero (opt_MaxIdleConns d) (opt_MaxIdleConns s),
      opt_MaxOpenConns = fill_zero (opt_MaxOpenConns d) (opt_MaxOpenConns s)\<rparr>)"

definition zero_connection_options :: connection_options where
  "zero_connection_options = \<lparr>opt_User = [], opt_Password = [], opt_Host = [], opt_DbName = [],
     opt_MaxIdleConns = 0, opt_MaxOpenConns = 0\<rparr>"

definition default_connection_options :: connection_options where
  "default_connection_options = \<lparr>opt_User = ''root'', opt_Password = [], opt_Host = ''127.0.0.1:3306'',
     opt_DbName = ''task'', opt_MaxIdleConns = 25, opt_MaxOpenConns = 25\<rparr>"

definition dataSourceName :: "connection_options \<Rightarrow> string" where
  "dataSourceName options = opt_User options @ '':'' @ opt_Password options @ ''@tcp('' @ opt_Host options @
     '')/'' @ opt_DbName options @ ''?charset=utf8''"

text \<open>\<open>None\<close> as the result of \<open>New\<close> is a panic.\<close>

definition connection_New ::
    "(connection_options \<Rightarrow> connection_options \<Rightarrow> connection_options option) \<Rightarrow> (string \<Rightarrow> 'db option) \<Rightarrow>
     ('db \<Rightarrow> bool) \<Rightarrow> connection_options option \<Rightarrow> 'db sql_DB option" where
  "connection_New merge sql_Open ping options = do {
     let options = (case options of None \<Rightarrow> zero_connection_options | Some opts \<Rightarrow> opts);
     options \<leftarrow> merge options default_connection_options;
     h \<leftarrow> sql_Open (dataSourceName options);
     if \<not> ping h then None
     else Some \<lparr>handle = h,
       maxIdleConns = (if opt_MaxIdleConns options > 0 then Some (opt_MaxIdleConns options) else None),
       maxOpenConns = (if opt_MaxOpenConns options > 0 then Some (opt_MaxOpenConns options) else None)\<rparr>
   }"

text \<open>With no options the local server is opened as root, with at most 25 connections.\<close>

lemma connection_New_default:
  assumes "documented_connection_merge merge"
  shows "connection_New merge sql_Open ping (Some zero_connection_options) =
    (case sql_Open ''root:@tcp(127.0.0.1:3306)/task?charset=utf8'' of
       None \<Rightarrow> None
     | Some h \<Rightarrow> if ping h then Some \<lparr>handle = h, maxIdleConns = Some 25, maxOpenConns = Some 25\<rparr> else None)"
proof -
  have "merge zero_connection_options default_connection_options = Some default_connection_options"
    using assms by (simp add: documented_connection_merge_def zero_connection_options_def default_connection_options_def
      fill_empty_def fill_zero_def)
  moreover have "dataSourceName default_connection_options = ''root:@tcp(127.0.0.1:3306)/task?charset=utf8''"
    by (simp add: dataSourceName_def default_connection_options_def)
  ultimately show ?thesis
    by (simp add: connection_New_def split: option.split) (simp add: default_connection_options_def)
qed

end
