(* ===== verification/Trigger_Hook.thy ===== *)
theory Trigger_Hook
  imports Error_Service Preloader_Service Waiting_Service Sender_Service Connection
begin

text \<open>
  \<open>builder.go\<close> and \<open>trigger_hook.go\<close>: how the parts are put together, and the interface of the whole,
  whose operations are those of the parts. \<open>mergo.Merge\<close> at its eight types is a parameter, as are
  the opening of the database and \<open>util.NewId()\<close>.
\<close>

section \<open>Build\<close>

record config =
  Connection_options :: connection_options
  RepositoryOptions :: repository_options
  ErrorServiceOptions :: error_options
  MonitoringServiceOptions :: monitoring_options
  SenderServiceOptions :: sender_options
  WaitingServiceOptions :: waiting_options
  TaskManagerOptions :: task_manager_options
  PreloaderServiceOptions :: preloader_options

record mergo =
  merge_connection :: "connection_options \<Rightarrow> connection_options \<Rightarrow> connection_options option"
  merge_repository :: "repository_options \<Rightarrow> repository_options \<Rightarrow> repository_options option"
  merge_error :: "error_options \<Rightarrow> error_options \<Rightarrow> error_options option"
  merge_monitoring :: "monitoring_options \<Rightarrow> monitoring_options \<Rightarrow> monitoring_options option"
  merge_sender :: "sender_options \<Rightarrow> sender_options \<Rightarrow> sender_options option"
  merge_waiting :: "waiting_options \<Rightarrow> waiting_options \<Rightarrow> waiting_options option"
  merge_task_manager :: "task_manager_options \<Rightarrow> task_manager_options \<Rightarrow> task_manager_options option"
  merge_preloader :: "preloader_options \<Rightarrow> preloader_options \<Rightarrow> preloader_options option"

text \<open>The parts of the hook; the monitoring is part of the world that the parts share.\<close>

record 'x triggerHook =
  hook_eventHandler :: "'x event_handler"
  hook_repository :: mysqlRepository
  hook_taskManager :: taskManager
  hook_preloadingService :: preloadingService
  hook_waitingService :: "int \<times> task_list waiting"
  hook_senderService :: senderService

text \<open>
  \<open>Build\<close> as the construction of sender service \<open>n\<close> of the process (\<open>st\<close> holds those built before, and
  their pool); the world at the end is that of the new sender service. \<open>None\<close> is a panic.
\<close>

definition Build ::
    "mergo \<Rightarrow> (string \<Rightarrow> 'db option) \<Rightarrow> ('db \<Rightarrow> bool) \<Rightarrow> mysql \<Rightarrow> string \<Rightarrow> nat \<Rightarrow> config \<Rightarrow>
     'a repo_world_scheme \<Rightarrow> 'a repo_world_scheme senders \<Rightarrow>
     ('x triggerHook \<times> 'a repo_world_scheme senders) option" where
  "Build G sql_Open ping my newId n config w st = do {
     errorService \<leftarrow> error_service_New (merge_error G) (Some (ErrorServiceOptions config));
     monitoringService \<leftarrow> monitoring_New (merge_monitoring G) (Some (MonitoringServiceOptions config));
     _ \<leftarrow> connection_New (merge_connection G) sql_Open ping (Some (Connection_options config));
     repositoryService \<leftarrow> repository_New (merge_repository G) newId (Some (RepositoryOptions config));
     let R = mysql_ops repositoryService my;
     let w = w\<lparr>monitor := monitoringService\<rparr>;
     (taskManager, w) \<leftarrow> task_manager_New (merge_task_manager G) R (Some (TaskManagerOptions config)) w;
     (preloaderService, w) \<leftarrow> preloader_New (merge_preloader G) (Some (PreloaderServiceOptions config)) w;
     (waitingService, w) \<leftarrow> waiting_New (merge_waiting G) (Some (WaitingServiceOptions config)) w;
     (senderService, st) \<leftarrow> sender_New (merge_sender G) (Some (SenderServiceOptions config)) n w st;
     Some (\<lparr>hook_eventHandler = errorService, hook_repository = repositoryService, hook_taskManager = taskManager,
       hook_preloadingService = preloaderService, hook_waitingService = waitingService,
       hook_senderService = senderService\<rparr>, st)
   }"

section \<open>The interface of the hook\<close>

definition hook_TM :: "'x triggerHook \<Rightarrow> mysql \<Rightarrow> (string \<Rightarrow> bool) \<Rightarrow> 'a repo_world_scheme task_manager_ops" where
  "hook_TM s my uuid_ok = manager_ops (hook_taskManager s) (mysql_ops (hook_repository s) my) uuid_ok"

definition CreateCtx ::
    "'x triggerHook \<Rightarrow> 'a world_scheme task_manager_ops \<Rightarrow> string \<Rightarrow> task \<Rightarrow> 'a world_scheme \<Rightarrow>
     ((go_error option \<times> task \<times> task list) \<times> 'a world_scheme) option" where
  "CreateCtx s TM new_id task w = AddNewTask (hook_preloadingService s) TM new_id task w"

definition DeleteCtx ::
    "'a world_scheme task_manager_ops \<Rightarrow> string \<Rightarrow> 'a world_scheme \<Rightarrow> ((go_error option \<times> string list) \<times> 'a world_scheme) option" where
  "DeleteCtx TM taskID w = CancelIfExist TM taskID w"

text \<open>The deprecated \<open>Create\<close> and \<open>Delete\<close> are the same with a background context.\<close>

definition hook_Create where
  "hook_Create s TM new_id task w = CreateCtx s TM new_id task w"

definition hook_Delete where
  "hook_Delete TM taskID w = DeleteCtx TM taskID w"

text \<open>\<open>Run\<close> starts the services' goroutines and returns what the event handler returns.\<close>

definition hook_Run :: "'x triggerHook \<Rightarrow> run_result \<times> 'x event_handler" where
  "hook_Run s = EventHandler_Run (hook_eventHandler s)"

section \<open>The topics\<close>

definition with_metric :: "topic \<Rightarrow> metric \<Rightarrow> 'a world_scheme \<Rightarrow> 'a world_scheme" where
  "with_metric t m w = w\<lparr>monitor := (monitor w)\<lparr>metrics := (metrics (monitor w))(t \<mapsto> m)\<rparr>\<rparr>"

lemma init_or_panic_metric: "init_or_panic t ty w = Some w' \<Longrightarrow> w' = with_metric t (new_metric ty) w"
  by (auto simp: init_or_panic_def mon_Init_def monitoring_Init_def with_metric_def split: if_splits)

lemma listen_or_panic_metric: "listen_or_panic t w = Some w' \<Longrightarrow> w' = with_metric t (ValueMetric 0) w"
  by (auto simp: listen_or_panic_def mon_Listen_def monitoring_Listen_def with_metric_def split: if_splits)

lemma preloader_New_world:
  "preloader_New merge options w = Some (p, w') \<Longrightarrow>
    w' = with_metric PreloadingRate (VelocityMetric 0) (with_metric CreatingRate (VelocityMetric 0) w)"
  by (auto simp: preloader_New_def Let_def bind_eq_Some_conv dest!: init_or_panic_metric)

lemma waiting_New_world:
  "waiting_New merge options w = Some (s, w') \<Longrightarrow>
    w' = with_metric DeletingRate (VelocityMetric 0) (with_metric Preloaded (ValueMetric 0) w)"
  by (auto simp: waiting_New_def Let_def bind_eq_Some_conv dest!: init_or_panic_metric listen_or_panic_metric)

lemma sender_New_world:
  "sender_New merge options n w st = Some (cfg, st') \<Longrightarrow>
    service_world (services st' n) = with_metric WaitingForConfirmation (IntegralMetric 0)
      (with_metric SendingRate (VelocityMetric 0) (with_metric ConfirmationRate (VelocityMetric 0) w))"
  by (auto simp: sender_New_def Let_def bind_eq_Some_conv new_service_def dest!: init_or_panic_metric split: if_splits)

lemma with_metric_simps [simp]:
  "metrics (monitor (with_metric t m w)) = (metrics (monitor w))(t \<mapsto> m)"
  by (simp add: with_metric_def)

lemma with_metric_keeps [simp]:
  "stored_tasks (with_metric t m w) = stored_tasks w" "repo_sound r my (with_metric t m w) = repo_sound r my w"
  by (simp_all add: with_metric_def stored_tasks_def repo_sound_def)

lemma Build_parts:
  assumes "Build G sql_Open ping my newId n config w st = Some (hook, st')"
  obtains mo w1 w2 w3 where
    "monitoring_New (merge_monitoring G) (Some (MonitoringServiceOptions config)) = Some mo"
    "repository_New (merge_repository G) newId (Some (RepositoryOptions config)) = Some (hook_repository hook)"
    "task_manager_New (merge_task_manager G) (mysql_ops (hook_repository hook) my) (Some (TaskManagerOptions config))
       (w\<lparr>monitor := mo\<rparr>) = Some (hook_taskManager hook, w1)"
    "preloader_New (merge_preloader G) (Some (PreloaderServiceOptions config)) w1 = Some (hook_preloadingService hook, w2)"
    "waiting_New (merge_waiting G) (Some (WaitingServiceOptions config)) w2 = Some (hook_waitingService hook, w3)"
    "sender_New (merge_sender G) (Some (SenderServiceOptions config)) n w3 st = Some (hook_senderService hook, st')"
  using assms by (auto simp: Build_def Let_def bind_eq_Some_conv)

lemma monitoring_New_empty: "monitoring_New merge options = Some mo \<Longrightarrow> metrics mo = Map.empty"
  by (auto simp: monitoring_New_def bind_eq_Some_conv split: if_splits)

lemma repo_sound_monitor:
  "repo_sound r my (w\<lparr>monitor := mo\<rparr>) = repo_sound r my w" "stored_tasks (w\<lparr>monitor := mo\<rparr>) = stored_tasks w"
  by (simp_all add: stored_tasks_def repo_sound_def)

section \<open>Creating and deleting over any task manager\<close>

context task_manager_contract
begin

lemma adding:
  assumes "sound w"
  shows "\<exists>err t' sends w'. AddNewTask p TM new_id t w = Some ((err, t', sends), w') \<and> sound w' \<and>
    creation_outcome valid_id t t' (stored_in w) err (stored_in w') \<and> (if err = None then set sends \<subseteq> {t'} else sends = [])"
proof -
  define w1 where "w1 = w\<lparr>clock_reads := Suc (clock_reads w)\<rparr>"
  define taken where "taken = is_taken_at p (Unix (clock w (clock_reads w))) t"
  have e: "w1 = w\<lparr>events := events w, monitor := monitor w, clock_reads := Suc (clock_reads w)\<rparr>" by (simp add: w1_def)
  have w1: "sound w1" "stored_in w1 = stored_in w" unfolding e using env_irrelevant [OF assms] by blast+
  obtain err t' w2 where c: "tm_Create TM new_id t taken w1 = Some ((err, t'), w2)" "sound w2"
    "creation_outcome valid_id t t' (stored_in w1) err (stored_in w2)" using create [OF w1(1)] by blast
  have "AddNewTask p TM new_id t w = (case err of
      Some e \<Rightarrow> Some ((Some e, t', []), w2)
    | None \<Rightarrow> Some ((None, t', if taken then [t'] else []), publish_or_log CreatingRate 1 w2))"
    unfolding AddNewTask_def time_Now_def Let_def prod.case using c(1)
    by (simp add: w1_def [symmetric] taken_def [symmetric])
  with c w1 publishing_keeps [OF c(2)] show ?thesis by (cases err) auto
qed

lemma cancelling:
  assumes "sound w"
  shows "\<exists>err ids w'. CancelIfExist TM tid w = Some ((err, ids), w') \<and> sound w' \<and>
    deletion_outcome tid (stored_in w) err (stored_in w') \<and> ids = (if err = None then [tid] else [])"
proof -
  obtain err w1 where d: "tm_Delete TM tid w = Some (err, w1)" "sound w1"
    "deletion_outcome tid (stored_in w) err (stored_in w1)" using delete [OF assms] by blast
  with publishing_keeps [OF d(2)] show ?thesis by (cases err) (simp_all add: CancelIfExist_def)
qed

end

text \<open>Where the tasks are, on MySQL.\<close>

lemma adding_places:
  assumes "repo_sound (hook_repository s) my w" "1 \<le> maxRetry (hook_taskManager s)"
    and "CreateCtx s (hook_TM s my uuid_ok) new_id t w = Some ((err, t', sends), w1)" "err = None" "u \<noteq> task_id t'"
  shows "task_places w1 u = task_places w u"
proof -
  define w0 where "w0 = w\<lparr>clock_reads := Suc (clock_reads w)\<rparr>"
  define taken where "taken = is_taken_at (hook_preloadingService s) (Unix (clock w (clock_reads w))) t"
  have w0: "repo_sound (hook_repository s) my w0" "database w0 = database w" using assms(1) by (simp_all add: w0_def repo_sound_def)
  obtain v where v: "task_manager_Create (hook_taskManager s) (mysql_ops (hook_repository s) my) uuid_ok new_id t taken w0 = Some ((None, t'), v)"
    "database w1 = database v"
    using assms(3,4) by (auto simp: CreateCtx_def AddNewTask_def time_Now_def hook_TM_def manager_ops_def bind_eq_Some_conv
        w0_def taken_def publish_database Let_def split: option.splits)
  from manager_create_home [OF w0(1) assms(2) v(1)] assms(5) show ?thesis
    by (auto simp: created_def homed_at_def task_places_def v(2) w0(2))
qed

lemma cancelling_places:
  assumes "repo_sound (hook_repository s) my w1 \<and> 1 \<le> maxRetry (hook_taskManager s)"
    and "DeleteCtx (hook_TM s my uuid_ok) tid w1 = Some ((err, out), w2)"
  shows "task_places w2 \<subseteq>\<^sub>m task_places w1"
proof -
  obtain v where "task_manager_Delete (hook_taskManager s) (mysql_ops (hook_repository s) my) tid w1 = Some (err, v)"
    "database w2 = database v"
    using assms(2) by (auto simp: DeleteCtx_def CancelIfExist_def hook_TM_def manager_ops_def bind_eq_Some_conv publish_database
        split: option.splits)
  with manager_deletes_home(1) [of "hook_repository s" my w1 "hook_taskManager s" tid err v] assms(1) show ?thesis
    by (simp add: task_places_def)
qed

lemma places_as_before:
  fixes w w2 :: "'a repo_world_scheme"
  assumes "\<And>u. u \<noteq> tid \<Longrightarrow> task_places w1 u = task_places w u" "task_places w2 \<subseteq>\<^sub>m task_places w1"
    and "stored_tasks w2 = stored_tasks w" "tid \<notin> dom (stored_tasks w)"
  shows "task_places w2 = task_places w"
proof (rule ext)
  fix u
  have stored: "stored_tasks v u = map_option coll_exec (task_places v u)" for v :: "'a repo_world_scheme"
    by (simp add: stored_tasks_def stored_def task_places_def)
  show "task_places w2 u = task_places w u"
  proof (cases "task_places w2 u")
    case None
    with assms(3) stored [of w2] stored [of w] show ?thesis by simp
  next
    case (Some c)
    then have "stored_tasks w u \<noteq> None" using assms(3) stored [of w2] by auto
    then have "u \<noteq> tid" using assms(4) by (auto simp: dom_def)
    with assms(1,2) Some show ?thesis by (metis domI map_le_def)
  qed
qed

section \<open>Properties\<close>

text \<open>
  C25: In a hook that \<open>Build\<close> returns, every topic a part publishes to is registered with the type its
  publications need, so that no publication fails and no later registration can panic; the metric
  \<open>All\<close> is the number of tasks stored, and building changes none of them.
\<close>

theorem Build_registers_topics:
  assumes "Build G sql_Open ping my newId n config w st = Some (hook, st')" "repo_sound (hook_repository hook) my w"
  shows "metrics (monitor (service_world (services st' n))) =
      [AllTasks \<mapsto> IntegralMetric (wrap64 (int (card (dom (stored_tasks w))))),
       CreatingRate \<mapsto> VelocityMetric 0, PreloadingRate \<mapsto> VelocityMetric 0,
       Preloaded \<mapsto> ValueMetric 0, DeletingRate \<mapsto> VelocityMetric 0,
       ConfirmationRate \<mapsto> VelocityMetric 0, SendingRate \<mapsto> VelocityMetric 0,
       WaitingForConfirmation \<mapsto> IntegralMetric 0] \<and>
    stored_tasks (service_world (services st' n)) = stored_tasks w \<and>
    repo_sound (hook_repository hook) my (service_world (services st' n))"
proof -
  obtain mo w1 w2 w3 where b: "monitoring_New (merge_monitoring G) (Some (MonitoringServiceOptions config)) = Some mo"
    "task_manager_New (merge_task_manager G) (mysql_ops (hook_repository hook) my) (Some (TaskManagerOptions config))
       (w\<lparr>monitor := mo\<rparr>) = Some (hook_taskManager hook, w1)"
    "preloader_New (merge_preloader G) (Some (PreloaderServiceOptions config)) w1 = Some (hook_preloadingService hook, w2)"
    "waiting_New (merge_waiting G) (Some (WaitingServiceOptions config)) w2 = Some (hook_waitingService hook, w3)"
    "sender_New (merge_sender G) (Some (SenderServiceOptions config)) n w3 st = Some (hook_senderService hook, st')"
    by (rule Build_parts [OF assms(1)])
  have mo: "metrics mo = Map.empty" by (rule monitoring_New_empty [OF b(1)])
  have s: "repo_sound (hook_repository hook) my (w\<lparr>monitor := mo\<rparr>)" using assms(2) by (simp add: repo_sound_monitor)
  have "metrics (monitor (w\<lparr>monitor := mo\<rparr>)) AllTasks = None" using mo by simp
  from mysql_repo.manager_new [OF s this b(2)] have w1: "repo_sound (hook_repository hook) my w1" "stored_tasks w1 = stored_tasks w"
    "metrics (monitor w1) = [AllTasks \<mapsto> IntegralMetric (wrap64 (int (card (dom (stored_tasks w)))))]"
    using mo by (simp_all add: repo_sound_monitor)
  show ?thesis
    unfolding sender_New_world [OF b(5)] waiting_New_world [OF b(4)] preloader_New_world [OF b(3)]
    using w1 by (simp only: with_metric_simps with_metric_keeps)
qed

text \<open>
  C24: Deleting a task just created undoes its creation: if both calls succeed, the database holds the same
  tasks as before, each with the same time and in the same collection with the same owner, and the
  cancelled id is the task's; \<open>DeleteCtx\<close> cannot answer that there is no such task. Neither call panics.
  The tables need not be as before: the empty collection that \<open>Create\<close> may have inserted stays, and
  the deletion may clean up other empty collections.
\<close>

theorem delete_undoes_create:
  assumes "repo_sound (hook_repository s) my w" "1 \<le> maxRetry (hook_taskManager s)"
  shows "\<exists>err t' sends w1. CreateCtx s (hook_TM s my uuid_ok) new_id t w = Some ((err, t', sends), w1) \<and>
    (err = None \<longrightarrow> (\<exists>err2 ids w2. DeleteCtx (hook_TM s my uuid_ok) (task_id t') w1 = Some ((err2, ids), w2) \<and>
       err2 \<noteq> Some TmErrorTaskNotFound \<and>
       (err2 = None \<longrightarrow> stored_tasks w2 = stored_tasks w \<and> task_places w2 = task_places w \<and> ids = [task_id t'])))"
proof -
  let ?TM = "hook_TM s my uuid_ok"
  have w: "repo_sound (hook_repository s) my w \<and> 1 \<le> maxRetry (hook_taskManager s)" using assms by simp
  obtain err t' sends w1 where a: "CreateCtx s ?TM new_id t w = Some ((err, t', sends), w1)"
    "repo_sound (hook_repository s) my w1 \<and> 1 \<le> maxRetry (hook_taskManager s)"
    "creation_outcome uuid_ok t t' (stored_tasks w) err (stored_tasks w1)"
    using mysql_repo.manager.adding [OF w, of "hook_preloadingService s" uuid_ok new_id t] by (auto simp: CreateCtx_def hook_TM_def)
  obtain err2 ids w2 where d: "DeleteCtx ?TM (task_id t') w1 = Some ((err2, ids), w2)"
    "deletion_outcome (task_id t') (stored_tasks w1) err2 (stored_tasks w2)" "ids = (if err2 = None then [task_id t'] else [])"
    using mysql_repo.manager.cancelling [OF a(2), of uuid_ok "task_id t'"] by (auto simp: DeleteCtx_def hook_TM_def)
  have "err2 \<noteq> Some TmErrorTaskNotFound \<and>
      (err2 = None \<longrightarrow> stored_tasks w2 = stored_tasks w \<and> task_places w2 = task_places w \<and> ids = [task_id t'])" if "err = None"
  proof -
    have new: "task_id t' \<notin> dom (stored_tasks w)" "stored_tasks w1 = (stored_tasks w)(task_id t' \<mapsto> exec_time t')"
      using a(3) that by (auto simp: creation_outcome_def Let_def)
    have "task_places w2 = task_places w" if "stored_tasks w2 = stored_tasks w"
      using adding_places [OF assms a(1) \<open>err = None\<close>] cancelling_places [OF a(2) d(1)] that new(1) by (rule places_as_before)
    with new d(2,3) show ?thesis by (auto simp: deletion_outcome_def fun_upd_idem_iff)
  qed
  with a(1) d(1) show ?thesis by blast
qed

section \<open>A hook with the default options\<close>

definition documented_mergo :: "mergo \<Rightarrow> bool" where
  "documented_mergo G \<longleftrightarrow> documented_connection_merge (merge_connection G) \<and> documented_repository_merge (merge_repository G) \<and>
     documented_error_merge (merge_error G) \<and> documented_monitoring_merge (merge_monitoring G) \<and>
     documented_sender_merge (merge_sender G) \<and> documented_waiting_merge (merge_waiting G) \<and>
     documented_task_manager_merge (merge_task_manager G) \<and> documented_preloader_merge (merge_preloader G)"

definition zero_config :: config where
  "zero_config = \<lparr>Connection_options = zero_connection_options,
     RepositoryOptions = \<lparr>opt_MaxCountTasksInCollection = 0, opt_CleaningFrequency = 0\<rparr>,
     ErrorServiceOptions = \<lparr>opt_EventHandlers = {}, opt_Debug = False, opt_EventCap = 0\<rparr>,
     MonitoringServiceOptions = \<lparr>opt_PeriodMeasure = 0, opt_MonitoringEventCap = 0, opt_Subscriptions = []\<rparr>,
     SenderServiceOptions = zero_sender_options,
     WaitingServiceOptions = \<lparr>opt_TasksReadyToSendCap = 0, opt_CanceledTasksCap = 0, opt_GreedyProcessingLimit = 0\<rparr>,
     TaskManagerOptions = \<lparr>opt_MaxRetry = 0, opt_TimeGapBetweenRetry = 0\<rparr>,
     PreloaderServiceOptions = \<lparr>opt_TimePreload = 0, opt_CoefTimePreloadOfNewTask = 0, opt_TaskNumberInOneSearch = 0,
       opt_WorkersCount = 0, preloader_options.opt_CtxTimeout = 0, opt_PreloadedTaskCap = 0\<rparr>\<rparr>"

lemma init_fresh: "metrics (monitor w) t = None \<Longrightarrow> init_or_panic t ty w = Some (with_metric t (new_metric ty) w)"
  by (simp add: init_or_panic_def mon_Init_def monitoring_Init_def with_metric_def)

lemma listen_fresh: "metrics (monitor w) t = None \<Longrightarrow> listen_or_panic t w = Some (with_metric t (ValueMetric 0) w)"
  by (simp add: listen_or_panic_def mon_Listen_def monitoring_Listen_def with_metric_def)

lemma quiet_manager_New:
  fixes w :: "'a repo_world_scheme"
  assumes "outcomes w = []" "metrics (monitor w) AllTasks = None" "documented_task_manager_merge merge"
  shows "\<exists>w'. task_manager_New merge (mysql_ops r my) (Some \<lparr>opt_MaxRetry = 0, opt_TimeGapBetweenRetry = 0\<rparr>) w =
      Some (\<lparr>maxRetry = 3, timeGapBetweenRetry = 10 * millisecond\<rparr>, w') \<and> metrics (monitor w') = (metrics (monitor w))(AllTasks \<mapsto>
        IntegralMetric (wrap64 (int (sql_count (database w)))))"
proof -
  have m: "merge \<lparr>opt_MaxRetry = 0, opt_TimeGapBetweenRetry = 0\<rparr> \<lparr>opt_MaxRetry = 3, opt_TimeGapBetweenRetry = 10 * millisecond\<rparr> =
      Some \<lparr>opt_MaxRetry = 3, opt_TimeGapBetweenRetry = 10 * millisecond\<rparr>"
    using assms(3) by (simp add: documented_task_manager_merge_def fill_zero_def)
  obtain w1 where up: "repo_Up w = (None, w1)" "outcomes w1 = []" "monitor w1 = monitor w" "sql_count (database w1) = sql_count (database w)"
    using assms(1)
    by (cases "has_create_task (database w)") (simp_all add: repo_Up_def quiet_calls create_collection_table_def
        create_task_table_def create_procedure_def sql_count_def Let_def)
  have c: "repo_Count w1 = ((int (sql_count (database w1)), None), w1)"
    by (simp add: repo_Count_def quiet_calls(2) [OF up(2)])
  show ?thesis using assms(2) up c
    by (simp add: task_manager_New_def mysql_ops_def m init_fresh mon_Publish_def monitoring_Publish_def with_metric_def)
qed

lemma default_parts:
  assumes "documented_mergo G"
  shows "error_service_New (merge_error G) (Some (ErrorServiceOptions zero_config)) =
      Some \<lparr>eventQueue = \<lparr>maxQueueCap = 1000, event_list = []\<rparr>, updateQueue = 0, updateQueue_closed = False,
        eventHandlers = {}, debug = False, handled = []\<rparr>"
    "monitoring_New (merge_monitoring G) (Some (MonitoringServiceOptions zero_config)) =
      Some \<lparr>periodMeasure = 10 * second, metrics = Map.empty, subscriptionChs = (\<lambda>_. None)\<rparr>"
    "repository_New (merge_repository G) app (Some (RepositoryOptions zero_config)) =
      Some \<lparr>appInstanceId = app, MaxCountTasksInCollection = 1000, CleaningFrequency = 10\<rparr>"
    "metrics (monitor w) CreatingRate = None \<Longrightarrow> metrics (monitor w) PreloadingRate = None \<Longrightarrow>
      \<exists>w'. preloader_New (merge_preloader G) (Some (PreloaderServiceOptions zero_config)) w = Some (sample_preloader, w')"
    "metrics (monitor w) Preloaded = None \<Longrightarrow> metrics (monitor w) DeletingRate = None \<Longrightarrow>
      \<exists>w'. waiting_New (merge_waiting G) (Some (WaitingServiceOptions zero_config)) w =
        Some ((10, waiting_start (NewPrioritizedTask [])), w')"
    "metrics (monitor w) ConfirmationRate = None \<Longrightarrow> metrics (monitor w) SendingRate = None \<Longrightarrow>
      metrics (monitor w) WaitingForConfirmation = None \<Longrightarrow>
      \<exists>st'. sender_New (merge_sender G) (Some (SenderServiceOptions zero_config)) n w st =
        Some (\<lparr>batchTimeout = 50 * millisecond, confirmationWorkersCount = 5, batchMaxItems = 1000, ctxTimeout = 5 * second\<rparr>, st')"
proof -
  note d = assms [unfolded documented_mergo_def]
  show "error_service_New (merge_error G) (Some (ErrorServiceOptions zero_config)) =
      Some \<lparr>eventQueue = \<lparr>maxQueueCap = 1000, event_list = []\<rparr>, updateQueue = 0, updateQueue_closed = False,
        eventHandlers = {}, debug = False, handled = []\<rparr>"
    using d by (simp add: error_service_New_def documented_error_merge_def zero_config_def fill_zero_def)
  show "monitoring_New (merge_monitoring G) (Some (MonitoringServiceOptions zero_config)) =
      Some \<lparr>periodMeasure = 10 * second, metrics = Map.empty, subscriptionChs = (\<lambda>_. None)\<rparr>"
    using d by (simp add: monitoring_New_def documented_monitoring_merge_def zero_config_def fill_zero_def second_def)
  show "repository_New (merge_repository G) app (Some (RepositoryOptions zero_config)) =
      Some \<lparr>appInstanceId = app, MaxCountTasksInCollection = 1000, CleaningFrequency = 10\<rparr>"
    using d by (simp add: repository_New_def documented_repository_merge_def zero_config_def fill_zero_def)
  show "\<exists>w'. preloader_New (merge_preloader G) (Some (PreloaderServiceOptions zero_config)) w = Some (sample_preloader, w')"
    if "metrics (monitor w) CreatingRate = None" "metrics (monitor w) PreloadingRate = None"
    using d that by (simp add: preloader_New_def documented_preloader_merge_def zero_config_def fill_zero_def preloader_defaults_def
        sample_preloader_def init_fresh second_def topic_defs)
  show "\<exists>w'. waiting_New (merge_waiting G) (Some (WaitingServiceOptions zero_config)) w =
        Some ((10, waiting_start (NewPrioritizedTask [])), w')"
    if "metrics (monitor w) Preloaded = None" "metrics (monitor w) DeletingRate = None"
    using d that by (simp add: waiting_New_def documented_waiting_merge_def zero_config_def fill_zero_def init_fresh listen_fresh topic_defs)
  show "\<exists>st'. sender_New (merge_sender G) (Some (SenderServiceOptions zero_config)) n w st =
        Some (\<lparr>batchTimeout = 50 * millisecond, confirmationWorkersCount = 5, batchMaxItems = 1000, ctxTimeout = 5 * second\<rparr>, st')"
    if "metrics (monitor w) ConfirmationRate = None" "metrics (monitor w) SendingRate = None" "metrics (monitor w) WaitingForConfirmation = None"
    using d that by (simp add: sender_New_def documented_sender_merge_def zero_config_def zero_sender_options_def fill_zero_def
        init_fresh millisecond_def second_def topic_defs)
qed

lemma Build_default:
  fixes w :: "'a repo_world_scheme" and G :: mergo
  assumes "documented_mergo G" "sql_Open ''root:@tcp(127.0.0.1:3306)/task?charset=utf8'' = Some h" "ping h" "outcomes w = []"
  shows "\<exists>(hook :: 'x triggerHook) st'. Build G sql_Open ping my newId n zero_config w st = Some (hook, st') \<and>
    hook_repository hook = \<lparr>appInstanceId = newId, MaxCountTasksInCollection = 1000, CleaningFrequency = 10\<rparr> \<and>
    hook_taskManager hook = \<lparr>maxRetry = 3, timeGapBetweenRetry = 10 * millisecond\<rparr> \<and>
    hook_preloadingService hook = \<lparr>timePreload = 5 * second, coefTimePreloadOfNewTask = 2, taskNumberInOneSearch = 1000,
      workersCount = 10, preloadingService.ctxTimeout = 5 * second\<rparr> \<and>
    hook_waitingService hook = (10, waiting_start (NewPrioritizedTask [])) \<and>
    hook_senderService hook = \<lparr>batchTimeout = 50 * millisecond, confirmationWorkersCount = 5, batchMaxItems = 1000, ctxTimeout = 5 * second\<rparr>"
proof -
  note d = default_parts [OF assms(1)]
  let ?r = "\<lparr>appInstanceId = newId, MaxCountTasksInCollection = 1000, CleaningFrequency = 10\<rparr>"
  let ?mo = "\<lparr>periodMeasure = 10 * second, metrics = Map.empty, subscriptionChs = (\<lambda>_. None)\<rparr>"
  have "documented_connection_merge (merge_connection G)" using assms(1) by (simp add: documented_mergo_def)
  from connection_New_default [OF this, of sql_Open ping] assms(2,3) have c:
    "connection_New (merge_connection G) sql_Open ping (Some (Connection_options zero_config)) =
      Some \<lparr>handle = h, maxIdleConns = Some 25, maxOpenConns = Some 25\<rparr>" by (simp add: zero_config_def)
  have tm: "documented_task_manager_merge (merge_task_manager G)" using assms(1) by (simp add: documented_mergo_def)
  have "outcomes (w\<lparr>monitor := ?mo\<rparr>) = []" "metrics (monitor (w\<lparr>monitor := ?mo\<rparr>)) AllTasks = None" using assms(4) by simp_all
  from quiet_manager_New [OF this tm, of ?r my] obtain w1 m where w1:
    "task_manager_New (merge_task_manager G) (mysql_ops ?r my) (Some (TaskManagerOptions zero_config)) (w\<lparr>monitor := ?mo\<rparr>) =
      Some (\<lparr>maxRetry = 3, timeGapBetweenRetry = 10 * millisecond\<rparr>, w1)" "metrics (monitor w1) = [AllTasks \<mapsto> m]"
    by (auto simp: zero_config_def)
  obtain w2 where w2: "preloader_New (merge_preloader G) (Some (PreloaderServiceOptions zero_config)) w1 = Some (sample_preloader, w2)"
    using d(4) [of w1] w1(2) by (auto simp: topic_defs)
  have m2: "metrics (monitor w2) = [AllTasks \<mapsto> m, CreatingRate \<mapsto> VelocityMetric 0, PreloadingRate \<mapsto> VelocityMetric 0]"
    unfolding preloader_New_world [OF w2] by (simp add: w1(2))
  obtain w3 where w3: "waiting_New (merge_waiting G) (Some (WaitingServiceOptions zero_config)) w2 =
      Some ((10, waiting_start (NewPrioritizedTask [])), w3)"
    using d(5) [of w2] m2 by (auto simp: topic_defs)
  have m3: "metrics (monitor w3) = [AllTasks \<mapsto> m, CreatingRate \<mapsto> VelocityMetric 0, PreloadingRate \<mapsto> VelocityMetric 0,
      Preloaded \<mapsto> ValueMetric 0, DeletingRate \<mapsto> VelocityMetric 0]"
    unfolding waiting_New_world [OF w3] by (simp add: m2)
  obtain st' where st': "sender_New (merge_sender G) (Some (SenderServiceOptions zero_config)) n w3 st =
        Some (\<lparr>batchTimeout = 50 * millisecond, confirmationWorkersCount = 5, batchMaxItems = 1000, ctxTimeout = 5 * second\<rparr>, st')"
    using d(6) [of w3 n st] m3 by (auto simp: topic_defs)
  show ?thesis
    unfolding Build_def Let_def d(1-3) c w1(1) w2 w3 st' by (simp add: c d(3) w1(1) w2 w3 st' sample_preloader_def)
qed

text \<open>
  \<open>Build\<close> of an empty configuration succeeds on a server that answers and gives every part the
  documented defaults: no registration of a topic panics, and the numbers are in the ranges the other
  theorems ask for (at least one retry, one worker, one confirmation worker, a positive batch size).
\<close>

theorem Build_with_defaults:
  fixes w :: "'a repo_world_scheme" and G :: mergo
  assumes "documented_mergo G" "sql_Open ''root:@tcp(127.0.0.1:3306)/task?charset=utf8'' = Some h" "ping h" "outcomes w = []"
  shows "\<exists>(hook :: 'x triggerHook) st'. Build G sql_Open ping my newId n zero_config w st = Some (hook, st') \<and>
    hook_repository hook = \<lparr>appInstanceId = newId, MaxCountTasksInCollection = 1000, CleaningFrequency = 10\<rparr> \<and>
    hook_taskManager hook = \<lparr>maxRetry = 3, timeGapBetweenRetry = 10 * millisecond\<rparr> \<and>
    hook_preloadingService hook = \<lparr>timePreload = 5 * second, coefTimePreloadOfNewTask = 2, taskNumberInOneSearch = 1000,
      workersCount = 10, preloadingService.ctxTimeout = 5 * second\<rparr> \<and>
    hook_waitingService hook = (10, waiting_start (NewPrioritizedTask [])) \<and>
    hook_senderService hook = \<lparr>batchTimeout = 50 * millisecond, confirmationWorkersCount = 5, batchMaxItems = 1000, ctxTimeout = 5 * second\<rparr>"
  using assms by (rule Build_default)

section \<open>Witnesses\<close>

definition standard_mergo :: mergo where
  "standard_mergo = \<lparr>
     merge_connection = (\<lambda>d s. Some
       \<lparr>opt_User = fill_empty (opt_User d) (opt_User s), opt_Password = fill_empty (opt_Password d) (opt_Password s),
        opt_Host = fill_empty (opt_Host d) (opt_Host s), opt_DbName = fill_empty (opt_DbName d) (opt_DbName s),
        opt_MaxIdleConns = fill_zero (opt_MaxIdleConns d) (opt_MaxIdleConns s),
        opt_MaxOpenConns = fill_zero (opt_MaxOpenConns d) (opt_MaxOpenConns s)\<rparr>),
     merge_repository = (\<lambda>d s. Some
       \<lparr>opt_MaxCountTasksInCollection = fill_zero (opt_MaxCountTasksInCollection d) (opt_MaxCountTasksInCollection s),
        opt_CleaningFrequency = fill_zero (opt_CleaningFrequency d) (opt_CleaningFrequency s)\<rparr>),
     merge_error = (\<lambda>d s. Some
       \<lparr>opt_EventHandlers = (if opt_EventHandlers d = {} then opt_EventHandlers s else opt_EventHandlers d),
        opt_Debug = (opt_Debug d \<or> opt_Debug s), opt_EventCap = fill_zero (opt_EventCap d) (opt_EventCap s)\<rparr>),
     merge_monitoring = (\<lambda>d s. Some
       \<lparr>opt_PeriodMeasure = fill_zero (opt_PeriodMeasure d) (opt_PeriodMeasure s),
        opt_MonitoringEventCap = fill_zero (opt_MonitoringEventCap d) (opt_MonitoringEventCap s),
        opt_Subscriptions = (if opt_Subscriptions d = [] then opt_Subscriptions s else opt_Subscriptions d)\<rparr>),
     merge_sender = standard_sender_merge,
     merge_waiting = (\<lambda>d s. Some
       \<lparr>opt_TasksReadyToSendCap = fill_zero (opt_TasksReadyToSendCap d) (opt_TasksReadyToSendCap s),
        opt_CanceledTasksCap = fill_zero (opt_CanceledTasksCap d) (opt_CanceledTasksCap s),
        opt_GreedyProcessingLimit = fill_zero (opt_GreedyProcessingLimit d) (opt_GreedyProcessingLimit s)\<rparr>),
     merge_task_manager = standard_task_manager_merge,
     merge_preloader = (\<lambda>d s. Some
       \<lparr>opt_TimePreload = fill_zero (opt_TimePreload d) (opt_TimePreload s),
        opt_CoefTimePreloadOfNewTask = fill_zero (opt_CoefTimePreloadOfNewTask d) (opt_CoefTimePreloadOfNewTask s),
        opt_TaskNumberInOneSearch = fill_zero (opt_TaskNumberInOneSearch d) (opt_TaskNumberInOneSearch s),
        opt_WorkersCount = fill_zero (opt_WorkersCount d) (opt_WorkersCount s),
        preloader_options.opt_CtxTimeout = fill_zero (preloader_options.opt_CtxTimeout d) (preloader_options.opt_CtxTimeout s),
        opt_PreloadedTaskCap = fill_zero (opt_PreloadedTaskCap d) (opt_PreloadedTaskCap s)\<rparr>)\<rparr>"

lemma standard_mergo_ok: "documented_mergo standard_mergo"
  by (simp add: documented_mergo_def standard_mergo_def documented_connection_merge_def documented_repository_merge_def
      documented_error_merge_def documented_monitoring_merge_def documented_sender_merge_def standard_sender_merge_def
      documented_waiting_merge_def standard_task_manager_merge_ok documented_preloader_merge_def)

theorem Build_with_defaults_witness:
  "\<exists>(hook :: unit triggerHook) st'. Build standard_mergo Some (\<lambda>_. True) example_mysql ''me'' 0 zero_config (sample_world [])
      (no_senders (sample_world [])) = Some (hook, st') \<and> workersCount (hook_preloadingService hook) = 10"
proof -
  let ?dsn = "''root:@tcp(127.0.0.1:3306)/task?charset=utf8''"
  have q: "outcomes (sample_world []) = []" "Some ?dsn = Some ?dsn" "(\<lambda>_. True) ?dsn" by simp_all
  from Build_with_defaults [where 'x = unit and sql_Open = Some and ping = "\<lambda>_. True" and h = ?dsn and my = example_mysql and newId = "''me''" and n = 0
      and st = "no_senders (sample_world [])", OF standard_mergo_ok q(2,3,1)]
  obtain hook :: "unit triggerHook" and st' where
    "Build standard_mergo Some (\<lambda>_. True) example_mysql ''me'' 0 zero_config (sample_world []) (no_senders (sample_world [])) = Some (hook, st')"
    "workersCount (hook_preloadingService hook) = 10" by auto
  then show ?thesis by blast
qed

theorem Build_registers_topics_witness:
  "\<exists>(hook :: unit triggerHook) st'. Build standard_mergo Some (\<lambda>_. True) example_mysql ''me'' 0 zero_config (sample_world [])
      (no_senders (sample_world [])) = Some (hook, st') \<and>
     metrics (monitor (service_world (services st' 0))) AllTasks = Some (IntegralMetric 1)"
proof -
  let ?dsn = "''root:@tcp(127.0.0.1:3306)/task?charset=utf8''"
  have q: "outcomes (sample_world []) = []" "Some ?dsn = Some ?dsn" "(\<lambda>_. True) ?dsn" by simp_all
  from Build_default [where 'x = unit and sql_Open = Some and ping = "\<lambda>_. True" and h = ?dsn and my = example_mysql and newId = "''me''" and n = 0
      and st = "no_senders (sample_world [])", OF standard_mergo_ok q(2,3,1)]
  obtain hook :: "unit triggerHook" and st' where
    b: "Build standard_mergo Some (\<lambda>_. True) example_mysql ''me'' 0 zero_config (sample_world []) (no_senders (sample_world [])) = Some (hook, st')"
    "hook_repository hook = \<lparr>appInstanceId = ''me'', MaxCountTasksInCollection = 1000, CleaningFrequency = 10\<rparr>" by auto
  have "repo_sound sample_repository example_mysql (sample_world [])" by simp
  then have s: "repo_sound (hook_repository hook) example_mysql (sample_world [])"
    unfolding b(2) by (simp add: repo_sound_def wrap32_def)
  have "dom (stored_tasks (sample_world [])) = {''a''}" by (auto simp: sample_stored split: if_splits)
  with Build_registers_topics [OF b(1) s] b(1) show ?thesis by (auto simp: topic_defs wrap64_def)
qed

definition sample_triggerHook :: "unit triggerHook" where
  "sample_triggerHook = \<lparr>hook_eventHandler = \<lparr>eventQueue = \<lparr>maxQueueCap = 1000, event_list = []\<rparr>, updateQueue = 0,
       updateQueue_closed = False, eventHandlers = {}, debug = False, handled = []\<rparr>,
     hook_repository = sample_repository, hook_taskManager = sample_manager, hook_preloadingService = sample_preloader,
     hook_waitingService = (10, waiting_start (NewPrioritizedTask [])),
     hook_senderService = \<lparr>batchTimeout = 50 * millisecond, confirmationWorkersCount = 5, batchMaxItems = 1000, ctxTimeout = 5 * second\<rparr>\<rparr>"

text \<open>
  Both calls succeed; the empty collection 3 that the creation has inserted stays, and the cleaning removes
  the empty collection 2.
\<close>

lemma some_pair: "case x of None \<Rightarrow> False | Some (a, b) \<Rightarrow> P a b \<Longrightarrow> \<exists>a b. x = Some (a, b) \<and> P a b"
  by (auto split: option.splits)

lemma sample_undone:
  "case CreateCtx sample_triggerHook (hook_TM sample_triggerHook example_mysql (\<lambda>_. True)) ''n''
      \<lparr>task_id = '''', exec_time = 7\<rparr> (counted_world []) of None \<Rightarrow> False | Some (x, w1) \<Rightarrow>
    (case DeleteCtx (hook_TM sample_triggerHook example_mysql (\<lambda>_. True)) ''n'' w1 of None \<Rightarrow> False | Some (y, w2) \<Rightarrow>
       x = (None, \<lparr>task_id = ''n'', exec_time = 100\<rparr>, [\<lparr>task_id = ''n'', exec_time = 100\<rparr>]) \<and> y = (None, [''n'']) \<and>
       map coll_id (coll_rows (database w2)) = [1, 3])"
  by code_simp

theorem delete_undoes_create_witness:
  "\<exists>w1 w2. CreateCtx sample_triggerHook (hook_TM sample_triggerHook example_mysql (\<lambda>_. True)) ''n''
      \<lparr>task_id = '''', exec_time = 7\<rparr> (counted_world []) =
      Some ((None, \<lparr>task_id = ''n'', exec_time = 100\<rparr>, [\<lparr>task_id = ''n'', exec_time = 100\<rparr>]), w1) \<and>
    DeleteCtx (hook_TM sample_triggerHook example_mysql (\<lambda>_. True)) ''n'' w1 = Some ((None, [''n'']), w2) \<and>
    stored_tasks w2 = stored_tasks (counted_world []) \<and> task_places w2 = task_places (counted_world []) \<and>
    map coll_id (coll_rows (database w2)) = [1, 3]"
proof -
  let ?TM = "hook_TM sample_triggerHook example_mysql (\<lambda>_. True)" and ?t = "\<lparr>task_id = '''', exec_time = 7\<rparr>"
  have h: "hook_repository sample_triggerHook = sample_repository" "hook_taskManager sample_triggerHook = sample_manager"
    by (simp_all add: sample_triggerHook_def)
  obtain w1 w2 where c: "CreateCtx sample_triggerHook ?TM ''n'' ?t (counted_world []) =
      Some ((None, \<lparr>task_id = ''n'', exec_time = 100\<rparr>, [\<lparr>task_id = ''n'', exec_time = 100\<rparr>]), w1)"
    "DeleteCtx ?TM ''n'' w1 = Some ((None, [''n'']), w2)"
    "map coll_id (coll_rows (database w2)) = [1, 3]"
    using some_pair [OF sample_undone] by (elim exE conjE) (drule some_pair, elim exE conjE, rule that, simp_all only:)
  have s: "repo_sound (hook_repository sample_triggerHook) example_mysql (counted_world [])"
    "1 \<le> maxRetry (hook_taskManager sample_triggerHook)" unfolding h by simp_all
  from delete_undoes_create [OF s, of "\<lambda>_. True" "''n''" ?t] c show ?thesis by auto
qed

end
