(* ===== verification/Task_Accounts.thy ===== *)
theory Task_Accounts
  imports Waiting_Service Task_Places
begin

text \<open>
  The account of a running instance, apart from any implementation: which stored tasks it owns, which
  collections it has still to read, which tasks it has in its hands and which it has executed; and the
  changes that keep the account in order. Theory Live_System shows that the steps of the instance
  are such changes.
\<close>

section \<open>Distinct ids\<close>

lemma distinct_ids_count: "distinct_ids M \<longleftrightarrow> (\<forall>u. count (image_mset task_id M) u \<le> 1)"
proof
  assume d: "distinct_ids M"
  show "\<forall>u. count (image_mset task_id M) u \<le> 1"
  proof
    fix u
    show "count (image_mset task_id M) u \<le> 1"
    proof (cases "u \<in> ids M")
      case True
      then obtain t N where M: "M = add_mset t N" "task_id t = u" by (auto simp: ids_def dest: multi_member_split)
      with distinct_ids_add d have "u \<notin># image_mset task_id N" by (auto simp: ids_def)
      then show ?thesis unfolding not_in_iff M using M(2) by simp
    next
      case False
      then have "u \<notin># image_mset task_id M" by (simp add: ids_def)
      then show ?thesis unfolding not_in_iff by simp
    qed
  qed
next
  assume c: "\<forall>u. count (image_mset task_id M) u \<le> 1"
  show "distinct_ids M" unfolding distinct_ids_def
  proof (intro allI impI)
    fix t N assume "M = add_mset t N"
    then have "count (image_mset task_id N) (task_id t) = 0" using spec [OF c, of "task_id t"] by simp
    then have "task_id t \<notin># image_mset task_id N" unfolding not_in_iff .
    then show "task_id t \<notin> ids N" by (simp add: ids_def)
  qed
qed

lemma ids_count: "u \<in> ids M \<longleftrightarrow> 0 < count (image_mset task_id M) u"
  by (simp add: ids_def)

lemma distinct_ids_union:
  "distinct_ids M \<Longrightarrow> distinct_ids N \<Longrightarrow> ids M \<inter> ids N = {} \<Longrightarrow> distinct_ids (M + N)"
proof -
  assume d: "distinct_ids M" "distinct_ids N" "ids M \<inter> ids N = {}"
  show ?thesis unfolding distinct_ids_count
  proof
    fix u
    have "count (image_mset task_id M) u = 0 \<or> count (image_mset task_id N) u = 0"
      using d(3) ids_count [of u] by blast
    then show "count (image_mset task_id (M + N)) u \<le> 1" using d(1,2) by (auto simp: distinct_ids_count)
  qed
qed

section \<open>The account\<close>

text \<open>
  The account of an instance \<open>me\<close>: \<open>P\<close> the places of the stored tasks, \<open>U\<close> the collections that are still
  to be read, \<open>F\<close> the tasks in flight and \<open>D\<close> those confirmed. No id occurs twice; a task in flight is
  stored as the instance's, with the same time, or somebody has deleted it; and a stored task of the
  instance is in a collection that will be read, or in flight, or its creation reported a failure.
\<close>

definition tasks_ok ::
    "string \<Rightarrow> (string \<rightharpoonup> coll_row) \<Rightarrow> nat multiset \<Rightarrow> task multiset \<Rightarrow> task multiset \<Rightarrow> string set \<Rightarrow> string set \<Rightarrow> bool" where
  "tasks_ok me P U F D deleted failed \<longleftrightarrow> distinct_ids (F + D) \<and> (\<forall>i. count U i \<le> 1) \<and>
     (\<forall>t \<in># F. case P (task_id t) of None \<Rightarrow> task_id t \<in> deleted
        | Some c \<Rightarrow> exec_time t = coll_exec c \<and> coll_taken c = me \<and> coll_id c \<notin># U) \<and>
     (\<forall>u \<in> ids D. P u = None) \<and>
     (\<forall>u c. P u = Some c \<longrightarrow> coll_taken c = me \<longrightarrow> coll_id c \<in># U \<or> u \<in> ids F \<or> u \<in> failed) \<and>
     (\<forall>u c. P u = Some c \<longrightarrow> coll_id c \<in># U \<longrightarrow> coll_taken c = me)"

lemma tasks_okD:
  assumes "tasks_ok me P U F D deleted failed"
  shows "distinct_ids (F + D)" "count U i \<le> 1"
    "t \<in># F \<Longrightarrow> P (task_id t) = Some c \<Longrightarrow> exec_time t = coll_exec c \<and> coll_taken c = me \<and> coll_id c \<notin># U"
    "t \<in># F \<Longrightarrow> P (task_id t) = None \<Longrightarrow> task_id t \<in> deleted"
    "u \<in> ids D \<Longrightarrow> P u = None"
    "P u = Some c \<Longrightarrow> coll_taken c = me \<Longrightarrow> coll_id c \<in># U \<or> u \<in> ids F \<or> u \<in> failed"
    "P u = Some c \<Longrightarrow> coll_id c \<in># U \<Longrightarrow> coll_taken c = me"
  using assms by (auto simp: tasks_ok_def)

lemma tasks_okI:
  assumes "distinct_ids (F + D)" "\<And>i. count U i \<le> 1"
    "\<And>t c. t \<in># F \<Longrightarrow> P (task_id t) = Some c \<Longrightarrow> exec_time t = coll_exec c \<and> coll_taken c = me \<and> coll_id c \<notin># U"
    "\<And>t. t \<in># F \<Longrightarrow> P (task_id t) = None \<Longrightarrow> task_id t \<in> deleted"
    "\<And>u. u \<in> ids D \<Longrightarrow> P u = None"
    "\<And>u c. P u = Some c \<Longrightarrow> coll_taken c = me \<Longrightarrow> coll_id c \<in># U \<or> u \<in> ids F \<or> u \<in> failed"
    "\<And>u c. P u = Some c \<Longrightarrow> coll_id c \<in># U \<Longrightarrow> coll_taken c = me"
  shows "tasks_ok me P U F D deleted failed"
  using assms unfolding tasks_ok_def by (auto split: option.splits)

lemma tasks_ok_more:
  assumes ok: "tasks_ok me P U F D deleted failed" and more: "deleted \<subseteq> deleted'" "failed \<subseteq> failed'"
  shows "tasks_ok me P U F D deleted' failed'"
  by (rule tasks_okI) (use tasks_okD [OF ok] more in blast)+

lemma in_ids: "t \<in># M \<Longrightarrow> task_id t \<in> ids M"
  by (simp add: ids_def)

section \<open>What keeps it\<close>

text \<open>Creating and deleting a task, removing cancelled tasks, taking and reading collections, confirming a batch.\<close>

lemma account_create:
  assumes ok: "tasks_ok me P U F D deleted failed" and new: "task_id t \<notin> deleted" "task_id t \<notin> ids D" "P (task_id t) = None"
    and c: "coll_exec c = exec_time t" "coll_id c \<notin># U"
    and out: "G = (if coll_taken c = me then {#t#} else {#})"
  shows "tasks_ok me (P(task_id t \<mapsto> c)) U (F + G) D deleted failed"
proof -
  have f: "task_id t \<notin> ids F" using tasks_okD(4) [OF ok] new(1,3) by (auto simp: ids_def)
  have "distinct_ids G" by (simp add: out distinct_ids_count)
  have "distinct_ids ((F + D) + G)"
    by (rule distinct_ids_union [OF tasks_okD(1) [OF ok] \<open>distinct_ids G\<close>]) (use new(2) f in \<open>auto simp: out ids_plus\<close>)
  then have "distinct_ids (F + G + D)" by (simp add: ac_simps)
  moreover have "task_id x \<noteq> task_id t" if "x \<in># F" for x using f in_ids [OF that] by metis
  ultimately show ?thesis using c new(2) tasks_okD [OF ok]
    by (intro tasks_okI) (auto simp: out ids_plus split: if_splits)
qed

lemma account_create_failed:
  assumes ok: "tasks_ok me P U F D deleted failed" and new: "task_id t \<notin> deleted" "task_id t \<notin> ids D"
    and P': "\<forall>u. u \<noteq> task_id t \<longrightarrow> P' u = P u" "task_id t \<in> dom P \<longrightarrow> P' = P" "\<And>c. P' (task_id t) = Some c \<Longrightarrow> coll_id c \<notin># U"
  shows "tasks_ok me P' U F D deleted (insert (task_id t) failed)"
proof (cases "task_id t \<in> dom P")
  case True
  with P'(2) tasks_ok_more [OF ok, of deleted "insert (task_id t) failed"] show ?thesis by auto
next
  case False
  then have f: "task_id t \<notin> ids F" using tasks_okD(4) [OF ok] new(1) by (auto simp: ids_def)
  have same: "P' (task_id x) = P (task_id x)" if "x \<in># F" for x using f in_ids [OF that] P'(1) by metis
  have old: "P' u = P u" if "u \<noteq> task_id t" for u using P'(1) that by simp
  show ?thesis
  proof (rule tasks_okI)
    show "P' u = None" if "u \<in> ids D" for u using that new(2) old [of u] tasks_okD(5) [OF ok] by auto
    show "coll_id c \<in># U \<or> u \<in> ids F \<or> u \<in> insert (task_id t) failed" if "P' u = Some c" "coll_taken c = me" for u c
      using that old [of u] tasks_okD(6) [OF ok] by (cases "u = task_id t") auto
    show "coll_taken c = me" if "P' u = Some c" "coll_id c \<in># U" for u c
      using that old [of u] P'(3) tasks_okD(7) [OF ok] by (cases "u = task_id t") auto
  qed (use same tasks_okD [OF ok] in auto)
qed

lemma account_delete:
  assumes ok: "tasks_ok me P U F D deleted failed" and P': "P' \<subseteq>\<^sub>m P" "\<forall>u. u \<noteq> tid \<longrightarrow> P' u = P u"
  shows "tasks_ok me P' U F D (insert tid deleted) failed"
proof -
  have le: "P u = Some c" if "P' u = Some c" for u c using P'(1) that by (auto simp: map_le_def dom_def)
  have "case P' (task_id t) of None \<Rightarrow> task_id t \<in> insert tid deleted
        | Some c \<Rightarrow> exec_time t = coll_exec c \<and> coll_taken c = me \<and> coll_id c \<notin># U" if "t \<in># F" for t
  proof (cases "P' (task_id t)")
    case None
    with tasks_okD(4) [OF ok that] P'(2) show ?thesis by auto
  next
    case (Some c)
    with tasks_okD(3) [OF ok that le [OF Some]] show ?thesis by simp
  qed
  moreover have "\<forall>u \<in> ids D. P' u = None" using tasks_okD(5) [OF ok] le by (metis option.exhaust option.distinct(1))
  ultimately show ?thesis using ok le unfolding tasks_ok_def by blast
qed

lemma account_cancel:
  assumes ok: "tasks_ok me P U F D deleted failed" and F': "F' \<subseteq># F" "unless C F' = unless C F" "C \<inter> dom P = {}"
  shows "tasks_ok me P U F' D deleted failed"
proof -
  have "F' + D \<subseteq># F + D" using F'(1) by simp
  then have "distinct_ids (F' + D)" using distinct_ids_sub tasks_okD(1) [OF ok] by blast
  moreover have "u \<in> ids F'" if "P u = Some c" "u \<in> ids F" for u c
  proof -
    obtain t where t: "t \<in># F" "task_id t = u" using \<open>u \<in> ids F\<close> by (auto simp: ids_def)
    have "u \<notin> C" using that(1) F'(3) by auto
    with t F'(2) have "t \<in># unless C F'" by (simp add: unless_def)
    with t(2) show ?thesis by (auto simp: unless_def ids_def)
  qed
  moreover have "t \<in># F" if "t \<in># F'" for t using that F'(1) by (rule mset_subset_eqD [rotated])
  ultimately show ?thesis using ok unfolding tasks_ok_def by blast
qed

lemma account_find:
  assumes ok: "tasks_ok me P {#} F D deleted failed"
    and ks: "distinct ks" "\<And>u p. P u = Some p \<Longrightarrow> coll_id p \<in> set ks \<Longrightarrow> coll_taken p \<noteq> me"
  shows "tasks_ok me (map_option (taken_by me ks) \<circ> P) (mset ks) F D deleted failed"
proof (rule tasks_okI)
  have old: "\<exists>p. P u = Some p \<and> c = taken_by me ks p" if "(map_option (taken_by me ks) \<circ> P) u = Some c" for u c
    using that by auto
  show "count (mset ks) i \<le> 1" for i using ks(1) by (simp add: distinct_count_atmost_1)
  show "exec_time t = coll_exec c \<and> coll_taken c = me \<and> coll_id c \<notin># mset ks"
    if "t \<in># F" "(map_option (taken_by me ks) \<circ> P) (task_id t) = Some c" for t c
    using old [OF that(2)] tasks_okD(3) [OF ok that(1)] ks(2) by fastforce
  show "coll_id c \<in># mset ks \<or> u \<in> ids F \<or> u \<in> failed"
    if "(map_option (taken_by me ks) \<circ> P) u = Some c" "coll_taken c = me" for u c
  proof -
    from old [OF that(1)] obtain p where "P u = Some p" "c = taken_by me ks p" by blast
    with that(2) tasks_okD(6) [OF ok, of u p] show ?thesis by (cases "coll_id p \<in> set ks") auto
  qed
  show "coll_taken c = me" if "(map_option (taken_by me ks) \<circ> P) u = Some c" "coll_id c \<in># mset ks" for u c
    using old [OF that(1)] that(2) by auto
qed (use tasks_okD [OF ok] in auto)

lemma account_read:
  assumes ok: "tasks_ok me P (add_mset i U) F D deleted failed"
    and ts: "distinct (map task_id ts)" "set ts = {t. \<exists>c. P (task_id t) = Some c \<and> exec_time t = coll_exec c \<and> coll_id c = i}"
  shows "tasks_ok me P U (F + mset ts) D deleted failed"
proof -
  have i: "i \<notin># U" using tasks_okD(2) [OF ok, of i] by (simp add: not_in_iff)
  have read: "u \<in> ids (mset ts)" if "P u = Some c" "coll_id c = i" for u c
    using that ts(2) unfolding ids_def by (intro image_eqI [of _ _ "\<lparr>task_id = u, exec_time = coll_exec c\<rparr>"]) auto
  have "u \<notin> ids (F + D)" if u: "u \<in> ids (mset ts)" for u
  proof -
    obtain c where c: "P u = Some c" "coll_id c = i" using u ts(2) by (auto simp: ids_def)
    with tasks_okD(5) [OF ok] have "u \<notin> ids D" by fastforce
    moreover have "u \<notin> ids F" using tasks_okD(3) [OF ok] c by (fastforce simp: ids_def)
    ultimately show ?thesis by (simp add: ids_plus)
  qed
  then have "distinct_ids ((F + D) + mset ts)"
    by (intro distinct_ids_union [OF tasks_okD(1) [OF ok] distinct_ids_mset [OF ts(1)]]) auto
  then have d: "distinct_ids (F + mset ts + D)" by (simp add: ac_simps)
  have owned: "coll_taken c = me" if "P u = Some c" "coll_id c = i" for u c using tasks_okD(7) [OF ok that(1)] that(2) by simp
  have u: "count U j \<le> 1" for j using tasks_okD(2) [OF ok, of j] by (cases "i = j") simp_all
  show ?thesis unfolding tasks_ok_def
  proof (intro conjI allI ballI impI)
    show "case P (task_id t) of None \<Rightarrow> task_id t \<in> deleted
        | Some c \<Rightarrow> exec_time t = coll_exec c \<and> coll_taken c = me \<and> coll_id c \<notin># U" if "t \<in># F + mset ts" for t
      using that tasks_okD(3,4) [OF ok, of t] i owned [of "task_id t"] ts(2) by (auto split: option.splits)
    show "coll_id c \<in># U \<or> u \<in> ids (F + mset ts) \<or> u \<in> failed" if "P u = Some c" "coll_taken c = me" for u c
      using tasks_okD(6) [OF ok that] read [OF that(1)] by (auto simp: ids_plus)
    show "coll_taken c = me" if "P u = Some c" "coll_id c \<in># U" for u c using tasks_okD(7) [OF ok that(1)] that(2) by simp
  qed (use d u tasks_okD(5) [OF ok] in auto)
qed

lemma account_confirm:
  assumes ok: "tasks_ok me P U (F + B) D deleted failed" and P': "P' \<subseteq>\<^sub>m P" "dom P' = dom P - ids B"
  shows "tasks_ok me P' U F (D + B) deleted failed"
proof -
  have le: "P u = Some c" "u \<notin> ids B" if "P' u = Some c" for u c
    using P' that by (auto simp: map_le_def dom_def)
  have d: "distinct_ids (F + (D + B))" using tasks_okD(1) [OF ok] by (simp add: ac_simps)
  have "task_id t \<notin> ids B" if "t \<in># F" for t
  proof
    assume "task_id t \<in> ids B"
    then have "0 < count (image_mset task_id F) (task_id t)" "0 < count (image_mset task_id B) (task_id t)"
      using in_ids [OF that] by (simp_all only: ids_count)
    moreover have "count (image_mset task_id (F + (D + B))) (task_id t) \<le> 1" using d unfolding distinct_ids_count ..
    ultimately show False by (simp del: count_greater_zero_iff)
  qed
  then have dom: "P' (task_id t) = None \<Longrightarrow> P (task_id t) = None" if "t \<in># F" for t using that P'(2) by (metis DiffI domIff)
  show ?thesis unfolding tasks_ok_def
  proof (intro conjI allI ballI impI)
    show "case P' (task_id t) of None \<Rightarrow> task_id t \<in> deleted
        | Some c \<Rightarrow> exec_time t = coll_exec c \<and> coll_taken c = me \<and> coll_id c \<notin># U" if "t \<in># F" for t
      using that tasks_okD(3,4) [OF ok, of t] le(1) [of "task_id t"] dom [OF that] by (auto split: option.splits)
    show "P' u = None" if "u \<in> ids (D + B)" for u
      using that tasks_okD(5) [OF ok, of u] le [of u] by (cases "P' u") (auto simp: ids_plus)
    show "coll_id c \<in># U \<or> u \<in> ids F \<or> u \<in> failed" if "P' u = Some c" "coll_taken c = me" for u c
      using tasks_okD(6) [OF ok le(1) [OF that(1)] that(2)] le(2) [OF that(1)] by (auto simp: ids_plus)
    show "coll_taken c = me" if "P' u = Some c" "coll_id c \<in># U" for u c
      using tasks_okD(7) [OF ok le(1) [OF that(1)] that(2)] .
  qed (use d tasks_okD(2) [OF ok] in auto)
qed

end
