(* ===== verification/Live_System.thy ===== *)
theory Live_System
  imports Trigger_Hook Task_Accounts
begin

text \<open>
  A running instance: the goroutines that \<open>triggerHook.Run\<close> starts and the calls of its users, step by
  step on one shared world. Every step is a step of a component, with what it sends handed to the
  component that receives it: the preloader and \<open>Create\<close> to the waiting service, \<open>Delete\<close> to the waiting
  service, the waiting service to the sender service, \<open>Confirm\<close> to the confirmation pipeline, which
  deletes from the database the preloader reads. Any interleaving of these steps is a run, and any of
  the calls of the database may fail.
\<close>

section \<open>The instance and its steps\<close>

text \<open>
  \<open>live_adding\<close>: the tasks that calls of \<open>AddNewTask\<close> are about to send on \<open>preloadedTask\<close>; \<open>live_cancelling\<close>:
  the ids that calls of \<open>CancelIfExist\<close> are about to send on \<open>canceledTasks\<close>. The worlds inside the parts
  are those of their last steps; \<open>live_world\<close> is the current one.
\<close>

record 'w live =
  live_world :: 'w
  live_bunch :: "'w bunch"
  live_adding :: "task multiset"
  live_cancelling :: "string multiset"
  live_waiting :: "task_list waiting"
  live_senders :: "'w senders"
  live_pipeline :: "'w pipeline"
  live_returned :: bool

datatype live_label =
    Creates "go_error option" task
  | Offers task
  | Deletes string "go_error option"
  | Cancels string
  | Sleeps
  | Finds "nat list"
  | SearchFails
  | Loads "nat list"
  | Waits int wait_choice
  | Hands task
  | Uses sender_label
  | Forwards task
  | Confirms

fun is_delivery :: "sender_label \<Rightarrow> bool" where
  "is_delivery (Delivers s t) = True"
| "is_delivery _ = False"

inductive live_step ::
    "'x triggerHook \<Rightarrow> 'a world_scheme task_manager_ops \<Rightarrow>
     (nat \<Rightarrow> 'a world_scheme \<Rightarrow> (task list \<times> go_error option) \<times> 'a world_scheme) \<Rightarrow>
     'a world_scheme live \<Rightarrow> live_label \<Rightarrow> 'a world_scheme live \<Rightarrow> bool" for hook TM read where
  creates: "CreateCtx hook TM new_id t (live_world s) = Some ((err, t', out), w) \<Longrightarrow>
    live_step hook TM read s (Creates err t') (s\<lparr>live_world := w, live_adding := live_adding s + mset out\<rparr>)"
| offers: "t \<in># live_adding s \<Longrightarrow>
    waiting_step heap_ops (fst (hook_waitingService hook)) (live_waiting s) (Arrives t) ws \<Longrightarrow>
    live_step hook TM read s (Offers t) (s\<lparr>live_adding := live_adding s - {#t#}, live_waiting := ws\<rparr>)"
| deletes: "DeleteCtx TM tid (live_world s) = Some ((err, out), w) \<Longrightarrow>
    live_step hook TM read s (Deletes tid err) (s\<lparr>live_world := w, live_cancelling := live_cancelling s + mset out\<rparr>)"
| cancels: "tid \<in># live_cancelling s \<Longrightarrow>
    waiting_step heap_ops (fst (hook_waitingService hook)) (live_waiting s) (CancelArrives tid) ws \<Longrightarrow>
    live_step hook TM read s (Cancels tid) (s\<lparr>live_cancelling := live_cancelling s - {#tid#}, live_waiting := ws\<rparr>)"
| sleeps: "\<not> live_returned s \<Longrightarrow> bunch_over (live_bunch s) \<Longrightarrow>
    preloader_Run_pass (hook_preloadingService hook) TM (live_world s) = Some (PassSleeps d, w) \<Longrightarrow>
    live_step hook TM read s Sleeps (s\<lparr>live_world := w\<rparr>)"
| finds: "\<not> live_returned s \<Longrightarrow> bunch_over (live_bunch s) \<Longrightarrow>
    preloader_Run_pass (hook_preloadingService hook) TM (live_world s) = Some (PassWorks (Some ks), w) \<Longrightarrow>
    live_step hook TM read s (Finds ks)
      (s\<lparr>live_world := w, live_bunch := bunch_start (workersCount (hook_preloadingService hook)) ks w\<rparr>)"
| search_fails: "\<not> live_returned s \<Longrightarrow> bunch_over (live_bunch s) \<Longrightarrow>
    preloader_Run_pass (hook_preloadingService hook) TM (live_world s) = Some (PassReturns, w) \<Longrightarrow>
    live_step hook TM read s SearchFails (s\<lparr>live_world := w, live_returned := True\<rparr>)"
| loads: "bunch_step read ((live_bunch s)\<lparr>bunch_world := live_world s\<rparr>) b \<Longrightarrow>
    live_step hook TM read s (Loads (take (length (lost b) - length (lost (live_bunch s))) (lost b)))
      (s\<lparr>live_world := bunch_world b, live_bunch := b,
         live_waiting := (live_waiting s)\<lparr>preloadedTasks :=
           preloadedTasks (live_waiting s) @ drop (length (sent (live_bunch s))) (sent b)\<rparr>\<rparr>)"
| waits: "waiting_step heap_ops (fst (hook_waitingService hook)) (live_waiting s) (Iterates now choice) ws \<Longrightarrow>
    live_step hook TM read s (Waits now choice) (s\<lparr>live_waiting := ws\<rparr>)"
| hands: "readyToSend (live_waiting s) = (at, t) # rest \<Longrightarrow> sender_step (live_senders s) (Delivers 0 t) st \<Longrightarrow>
    live_step hook TM read s (Hands t)
      (s\<lparr>live_waiting := (live_waiting s)\<lparr>readyToSend := rest\<rparr>, live_senders := st\<rparr>)"
| uses: "sender_step (at_service 0 (\<lambda>v. v\<lparr>service_world := live_world s\<rparr>) (live_senders s)) l st \<Longrightarrow> \<not> is_delivery l \<Longrightarrow>
    live_step hook TM read s (Uses l)
      (s\<lparr>live_senders := st, live_world := service_world (services st 0)\<rparr>)"
| forwards: "toConfirm (services (live_senders s) 0) = t # rest \<Longrightarrow>
    pipeline_step TM (batchMaxItems (hook_senderService hook)) (live_pipeline s) (Sends t) p \<Longrightarrow>
    live_step hook TM read s (Forwards t)
      (s\<lparr>live_senders := at_service 0 (\<lambda>v. v\<lparr>toConfirm := rest\<rparr>) (live_senders s), live_pipeline := p\<rparr>)"
| confirms: "pipeline_step TM (batchMaxItems (hook_senderService hook))
      ((live_pipeline s)\<lparr>pipeline_world := live_world s\<rparr>) Works p \<Longrightarrow>
    live_step hook TM read s Confirms (s\<lparr>live_world := pipeline_world p, live_pipeline := p\<rparr>)"

text \<open>The instance that \<open>Build\<close> returns, when its goroutines start.\<close>

definition live_start :: "'x triggerHook \<Rightarrow> 'w senders \<Rightarrow> 'w live" where
  "live_start hook st =
     (let w = service_world (services st 0)
      in \<lparr>live_world = w, live_bunch = bunch_start 0 [] w, live_adding = {#}, live_cancelling = {#},
          live_waiting = snd (hook_waitingService hook), live_senders = st,
          live_pipeline = pipeline_start (confirmationWorkersCount (hook_senderService hook)) w,
          live_returned = False\<rparr>)"

inductive live_run ::
    "'x triggerHook \<Rightarrow> 'a world_scheme task_manager_ops \<Rightarrow>
     (nat \<Rightarrow> 'a world_scheme \<Rightarrow> (task list \<times> go_error option) \<times> 'a world_scheme) \<Rightarrow>
     'a world_scheme live \<Rightarrow> live_label list \<Rightarrow> 'a world_scheme live \<Rightarrow> bool" for hook TM read s0 where
  start: "live_run hook TM read s0 [] s0"
| step: "live_run hook TM read s0 ls s \<Longrightarrow> live_step hook TM read s l s' \<Longrightarrow> live_run hook TM read s0 (ls @ [l]) s'"

section \<open>Where tasks are\<close>

fun delivering :: "worker_pc \<Rightarrow> task multiset" where
  "delivering (Delivering ts) = mset ts"
| "delivering _ = {#}"

fun fetching :: "worker_pc \<Rightarrow> nat multiset" where
  "fetching (Fetching i) = {#i#}"
| "fetching _ = {#}"

text \<open>The tasks that the workers of a pass have read, and the collections that they have still to read.\<close>

definition deliveries :: "nat \<Rightarrow> 'w bunch \<Rightarrow> task multiset" where
  "deliveries n b = (\<Sum>k<n. delivering (worker b k))"

definition unread :: "nat \<Rightarrow> 'w bunch \<Rightarrow> nat multiset" where
  "unread n b = mset (remaining b) + (\<Sum>k<n. fetching (worker b k))"

text \<open>The calls that a run makes on the handles, and the handles the consumers hold after it.\<close>

definition handle_calls :: "live_label list \<Rightarrow> sender_label list" where
  "handle_calls ls = concat (map (\<lambda>l. case l of Uses c \<Rightarrow> [c] | _ \<Rightarrow> []) ls)"

definition waiting_tasks :: "task_list waiting \<Rightarrow> task multiset" where
  "waiting_tasks s = tasks_in (tasksWaitingList s) + mset (preloadedTasks s) + image_mset snd (mset (readyToSend s))"

text \<open>All tasks in the instance, from the reading of their collection to their deletion.\<close>

definition in_flight :: "'x triggerHook \<Rightarrow> nat multiset \<Rightarrow> 'w live \<Rightarrow> task multiset" where
  "in_flight hook H s =
     deliveries (nat (workersCount (hook_preloadingService hook))) (live_bunch s) +
     live_adding s + waiting_tasks (live_waiting s) + service_tasks H (live_senders s) +
     on_the_way (nat (confirmationWorkersCount (hook_senderService hook))) (live_pipeline s)"

definition unread_collections :: "'x triggerHook \<Rightarrow> 'w live \<Rightarrow> nat multiset" where
  "unread_collections hook s = unread (nat (workersCount (hook_preloadingService hook))) (live_bunch s)"

definition confirmed :: "'w live \<Rightarrow> task multiset" where
  "confirmed s = finished_tasks (live_pipeline s)"

text \<open>
  Careful use: the handles are used as the sender service asks for, no id is created again after a
  deletion of it or its execution, and no task is created into a collection that a pass of the
  preloader has taken and not yet read.
\<close>

definition deleted_ids :: "live_label list \<Rightarrow> string set" where
  "deleted_ids ls = {tid. \<exists>err. Deletes tid err \<in> set ls}"

definition failed_ids :: "live_label list \<Rightarrow> string set" where
  "failed_ids ls = {task_id t |t. Creates (Some TmErrorCreatingTasks) t \<in> set ls}"

definition careful ::
    "'x triggerHook \<Rightarrow> ('w \<Rightarrow> string \<rightharpoonup> coll_row) \<Rightarrow> live_label list \<Rightarrow> 'w live \<Rightarrow> live_label \<Rightarrow> 'w live \<Rightarrow> bool" where
  "careful hook place ls s l s' \<longleftrightarrow>
     (case l of
        Uses c \<Rightarrow> proper_call (held (handle_calls ls)) c
      | Creates err t \<Rightarrow> task_id t \<notin> deleted_ids ls \<and> task_id t \<notin> ids (confirmed s) \<and>
          (\<forall>c. place (live_world s') (task_id t) = Some c \<longrightarrow> coll_id c \<notin># unread_collections hook s)
      | _ \<Rightarrow> True)"

inductive careful_run ::
    "'x triggerHook \<Rightarrow> 'a world_scheme task_manager_ops \<Rightarrow>
     (nat \<Rightarrow> 'a world_scheme \<Rightarrow> (task list \<times> go_error option) \<times> 'a world_scheme) \<Rightarrow>
     ('a world_scheme \<Rightarrow> string \<rightharpoonup> coll_row) \<Rightarrow>
     'a world_scheme live \<Rightarrow> live_label list \<Rightarrow> 'a world_scheme live \<Rightarrow> bool" for hook TM read place s0 where
  careful_start: "careful_run hook TM read place s0 [] s0"
| careful_step: "careful_run hook TM read place s0 ls s \<Longrightarrow> live_step hook TM read s l s' \<Longrightarrow>
    careful hook place ls s l s' \<Longrightarrow> careful_run hook TM read place s0 (ls @ [l]) s'"

text \<open>
  The failures after which the code reports \<open>LevelFatal\<close>: a search, the reading of a collection, or a
  confirmation that the database did not carry out.
\<close>

definition fatal :: "live_label list \<Rightarrow> 'w live \<Rightarrow> bool" where
  "fatal ls s \<longleftrightarrow> SearchFails \<in> set ls \<or> (\<exists>i ks. Loads (i # ks) \<in> set ls) \<or>
     (\<exists>res \<in> set (results (live_pipeline s)). snd res \<noteq> None)"

lemma careful_is_run: "careful_run hook TM read place s0 ls s \<Longrightarrow> live_run hook TM read s0 ls s"
  by (induction rule: careful_run.induct) (auto intro: live_run.intros)

end
