(* ===== verification/Live_Invariants.thy ===== *)
theory Live_Invariants
  imports Live_System
begin

text \<open>
  What every careful run of an instance keeps, over any task manager and any collections with the
  contract \<open>placing_manager\<close>: the parts stay in order, and the account of theory Task_Accounts holds
  until a fatal failure is reported.
\<close>

section \<open>The operations on the places\<close>

context placing_manager
begin

lemma place_env:
  shows "place (eh_New l m w) = place w" "place (publish_or_log topic v w) = place w"
    "place (w\<lparr>clock_reads := k\<rparr>) = place w"
proof -
  have "eh_New l m w = w\<lparr>events := events w @ [(l, m)], monitor := monitor w, clock_reads := clock_reads w\<rparr>"
    by (simp add: eh_New_def)
  then show "place (eh_New l m w) = place w" by (simp only: env_place)
  obtain es mo where "publish_or_log topic v w = w\<lparr>events := es, monitor := mo, clock_reads := clock_reads w\<rparr>"
    using publish_or_log_world [of topic v w] by blast
  then show "place (publish_or_log topic v w) = place w" by (simp only: env_place)
  have "w\<lparr>clock_reads := k\<rparr> = w\<lparr>events := events w, monitor := monitor w, clock_reads := k\<rparr>" by simp
  then show "place (w\<lparr>clock_reads := k\<rparr>) = place w" by (metis env_place)
qed

lemma dom_stored: "u \<in> dom (stored_in w) \<longleftrightarrow> u \<in> dom (place w)"
  by (auto simp: stored_place)

lemma same_place: "place w' \<subseteq>\<^sub>m place w \<Longrightarrow> stored_in w' u = stored_in w u \<Longrightarrow> place w' u = place w u"
  unfolding stored_place map_le_def by (cases "place w u"; cases "place w' u") (auto dest: bspec [of _ _ u])

lemma creating:
  assumes s: "sound w" and c: "CreateCtx hook TM new_id t w = Some ((err, t', out), w')"
  shows "sound w'" "task_id t' \<in> dom (place w) \<Longrightarrow> place w' = place w"
    "\<forall>u. u \<noteq> task_id t' \<longrightarrow> place w' u = place w u"
    "err = None \<Longrightarrow> place w (task_id t') = None \<and> (\<exists>c. place w' (task_id t') = Some c \<and> coll_exec c = exec_time t' \<and>
       out = (if coll_taken c = me then [t'] else []))"
    "err \<noteq> None \<Longrightarrow> out = []" "err \<notin> {None, Some TmErrorCreatingTasks} \<Longrightarrow> place w' = place w"
    "stored_in w' = stored_in w \<or> stored_in w' = (stored_in w)(task_id t' \<mapsto> exec_time t')" "set out \<subseteq> {t'}"
proof -
  define w1 where "w1 = w\<lparr>clock_reads := Suc (clock_reads w)\<rparr>"
  define taken where "taken = is_taken_at (hook_preloadingService hook) (Unix (clock w (clock_reads w))) t"
  have e: "w1 = w\<lparr>events := events w, monitor := monitor w, clock_reads := Suc (clock_reads w)\<rparr>" by (simp add: w1_def)
  have w1: "sound w1" "stored_in w1 = stored_in w" "place w1 = place w"
    using env_irrelevant [OF s] place_env(3) unfolding e by (blast, blast, simp add: env_place)
  obtain err1 t1 w2 where r: "tm_Create TM new_id t taken w1 = Some ((err1, t1), w2)" "sound w2"
    "creation_outcome valid_id t t1 (stored_in w1) err1 (stored_in w2)" using create [OF w1(1)] by blast
  note p = create_place [OF w1(1) r(1), unfolded w1(3)]
  have "CreateCtx hook TM new_id t w = (case err1 of
      Some e \<Rightarrow> Some ((Some e, t1, []), w2)
    | None \<Rightarrow> Some ((None, t1, if taken then [t1] else []), publish_or_log CreatingRate 1 w2))"
    unfolding CreateCtx_def AddNewTask_def time_Now_def Let_def prod.case using r(1)
    by (simp add: w1_def [symmetric] taken_def [symmetric])
  with c have res: "err1 = err" "t1 = t'" "out = (if err = None \<and> taken then [t'] else [])"
    "w' = (if err = None then publish_or_log CreatingRate 1 w2 else w2)" by (auto split: option.splits)
  have w': "place w' = place w2" by (simp add: res(4) place_env)
  show "sound w'" using r(2) publishing_keeps by (simp add: res(4))
  show "task_id t' \<in> dom (place w) \<Longrightarrow> place w' = place w" "\<forall>u. u \<noteq> task_id t' \<longrightarrow> place w' u = place w u"
    using p res(2) w' by simp_all
  show "err \<noteq> None \<Longrightarrow> out = []" "set out \<subseteq> {t'}" by (auto simp: res(3))
  have o: "creation_outcome valid_id t t' (stored_in w) err (stored_in w')"
    using r(3) res(1,2) w1(2) publishing_keeps(2) [OF r(2)] by (cases err) (simp_all add: res(4))
  then show "stored_in w' = stored_in w \<or> stored_in w' = (stored_in w)(task_id t' \<mapsto> exec_time t')"
    by (auto simp: creation_outcome_def Let_def split: option.splits if_splits)
  show "place w (task_id t') = None \<and> (\<exists>c. place w' (task_id t') = Some c \<and> coll_exec c = exec_time t' \<and>
       out = (if coll_taken c = me then [t'] else []))" if "err = None"
  proof -
    from p res(1,2) \<open>err = None\<close> obtain c where "place w2 (task_id t') = Some c" "coll_taken c = me \<longleftrightarrow> taken" by blast
    then have "place w' (task_id t') = Some c" "coll_taken c = me \<longleftrightarrow> taken" by (simp_all add: w')
    moreover have new: "stored_in w' = (stored_in w)(task_id t' \<mapsto> exec_time t')" "task_id t' \<notin> dom (stored_in w)"
      using o that by (simp_all add: creation_outcome_def Let_def)
    moreover have "map_option coll_exec (place w' (task_id t')) = Some (exec_time t')"
      using fun_cong [OF new(1), of "task_id t'"] by (simp add: stored_place)
    ultimately show ?thesis using that by (auto simp: res(3) dom_stored)
  qed
  show "place w' = place w" if "err \<notin> {None, Some TmErrorCreatingTasks}"
  proof (rule ext)
    fix u
    have "stored_in w' = stored_in w" using o that by (auto simp: creation_outcome_def Let_def split: if_splits)
    then have d: "u \<in> dom (place w') \<longleftrightarrow> u \<in> dom (place w)" by (simp add: dom_stored [symmetric])
    have pl: "task_id t' \<in> dom (place w) \<longrightarrow> place w' = place w" "u \<noteq> task_id t' \<longrightarrow> place w' u = place w u"
      using p res(2) w' by simp_all
    show "place w' u = place w u"
    proof (cases "u = task_id t' \<and> u \<notin> dom (place w)")
      case True
      then have "u \<notin> dom (place w')" "u \<notin> dom (place w)" using d by blast+
      then show ?thesis by (simp only: domIff not_not)
    next
      case False
      with pl show ?thesis by (cases "u = task_id t'") simp_all
    qed
  qed
qed

lemma deleting:
  assumes s: "sound w" and c: "DeleteCtx TM tid w = Some ((err, out), w')"
  shows "sound w'" "place w' \<subseteq>\<^sub>m place w" "\<forall>u. u \<noteq> tid \<longrightarrow> place w' u = place w u"
    "out = [] \<or> out = [tid] \<and> place w' tid = None"
proof -
  obtain err1 w1 where d: "tm_Delete TM tid w = Some (err1, w1)" "sound w1"
    "deletion_outcome tid (stored_in w) err1 (stored_in w1)" using delete [OF s] by blast
  have res: "err = err1" "out = (if err1 = None then [tid] else [])"
    "w' = (if err1 = None then publish_or_log DeletingRate 1 w1 else w1)"
    using c d(1) by (auto simp: DeleteCtx_def CancelIfExist_def split: option.splits)
  have w': "sound w'" "place w' = place w1" "stored_in w' = stored_in w1"
    using d(2) publishing_keeps by (simp_all add: res(3) place_env)
  then show "sound w'" by simp
  show le: "place w' \<subseteq>\<^sub>m place w" using delete_place [OF s d(1)] by (simp add: w')
  show "\<forall>u. u \<noteq> tid \<longrightarrow> place w' u = place w u"
    using same_place [OF le] d(3) by (auto simp: deletion_outcome_def w'(3) split: option.splits if_splits)
  show "out = [] \<or> out = [tid] \<and> place w' tid = None"
    using d(3) dom_stored [of tid w'] by (auto simp: res(2) deletion_outcome_def w'(3) split: option.splits)
qed

lemma searching:
  assumes s: "sound w" and c: "preloader_Run_pass p TM w = Some (pass, w')"
  shows "sound w'" "place w u = None \<Longrightarrow> place w' u = None" "pass = PassSleeps d \<Longrightarrow> place w' = place w"
    "pass = PassWorks (Some ks) \<Longrightarrow> distinct ks \<and> place w' = map_option (taken_by me ks) \<circ> place w \<and>
       (\<forall>u q. place w u = Some q \<longrightarrow> coll_id q \<in> set ks \<longrightarrow> coll_taken q \<noteq> me)" "stored_in w' = stored_in w"
proof -
  obtain c1 err w1 where g: "tm_Get TM (timePreload p) w = Some ((c1, err), w1)" "sound w1" "stored_in w1 = stored_in w"
    using get [OF s] by force
  note l = logging_keeps [OF g(2)]
  have r: "pass = (case err of None \<Rightarrow> PassWorks c1 | Some e \<Rightarrow> if e = TmErrorCollectionsNotFound then PassSleeps (timePreload p) else PassReturns)"
    "sound w' \<and> place w' = place w1"
    using c g l by (auto simp: preloader_Run_pass_def place_env split: option.splits if_splits)
  show "sound w'" "stored_in w' = stored_in w" using r g(3) stored_place [of w'] stored_place [of w1] by simp_all
  show "place w u = None \<Longrightarrow> place w' u = None"
    using r g(3) dom_stored [of u w] dom_stored [of u w1] by (auto simp: domIff)
  show "pass = PassSleeps d \<Longrightarrow> place w' = place w"
    using get_place [OF s g(1)] r by (auto split: option.splits if_splits)
  show "pass = PassWorks (Some ks) \<Longrightarrow> distinct ks \<and> place w' = map_option (taken_by me ks) \<circ> place w \<and>
       (\<forall>u q. place w u = Some q \<longrightarrow> coll_id q \<in> set ks \<longrightarrow> coll_taken q \<noteq> me)"
    using get_place [OF s g(1)] r by (auto split: option.splits if_splits)
qed

lemma confirming:
  assumes s: "sound w" and c: "confirm_batch TM batch w = Some (err, w')"
  shows "sound w'" "place w' \<subseteq>\<^sub>m place w" "err = None \<Longrightarrow> dom (place w') = dom (place w) - ids (mset batch)"
    "u \<notin> ids (mset batch) \<Longrightarrow> stored_in w' u = stored_in w u"
proof -
  obtain err1 w1 where d: "tm_Confirm TM batch w = Some (err1, w1)" "sound w1"
    "confirmation_outcome (task_id ` set batch) (stored_in w) err1 (stored_in w1)" using confirm [OF s] by blast
  have r: "err1 = err" "sound w' \<and> place w' = place w1 \<and> stored_in w' = stored_in w1"
  proof -
    define w2 where "w2 = (case err1 of Some e \<Rightarrow> eh_New LevelFatal (error_text e) w1 | None \<Rightarrow> w1)"
    have "sound w2" "stored_in w2 = stored_in w1" "place w2 = place w1"
      using d(2) by (auto simp: w2_def logging_keeps place_env split: option.split)
    with c d show "err1 = err" "sound w' \<and> place w' = place w1 \<and> stored_in w' = stored_in w1"
      by (auto simp: confirm_batch_def w2_def [symmetric] logging_keeps publishing_keeps place_env)
  qed
  then show "sound w'" "place w' \<subseteq>\<^sub>m place w" using confirm_place [OF s d(1)] by simp_all
  show "u \<notin> ids (mset batch) \<Longrightarrow> stored_in w' u = stored_in w u"
    using r d(3) by (auto simp: confirmation_outcome_def ids_def restrict_map_def split: option.splits)
  assume n: "err = None"
  have "dom (stored_in w1) = dom (stored_in w) - task_id ` set batch"
    using d(3) r(1) n by (auto simp: confirmation_outcome_def restrict_map_def split: if_splits)
  moreover have "dom (stored_in v) = dom (place v)" for v using dom_stored by blast
  ultimately show "dom (place w') = dom (place w) - ids (mset batch)"
    using r by (simp add: ids_def)
qed

end

section \<open>What the steps move\<close>

lemma labels_snoc [simp]:
  "handle_calls (ls @ [l]) = handle_calls ls @ (case l of Uses c \<Rightarrow> [c] | _ \<Rightarrow> [])"
  "deleted_ids (ls @ [l]) = deleted_ids ls \<union> {tid. \<exists>err. l = Deletes tid err}"
  "failed_ids (ls @ [l]) = failed_ids ls \<union> {task_id t |t. l = Creates (Some TmErrorCreatingTasks) t}"
  by (auto simp: handle_calls_def deleted_ids_def failed_ids_def)

lemma fatal_grows: "fatal ls s \<Longrightarrow> live_step hook TM read s l s' \<Longrightarrow> fatal (ls @ [l]) s'"
proof -
  assume f: "fatal ls s" and step: "live_step hook TM read s l s'"
  have r: "set (results p) \<subseteq> set (results p')" if "pipeline_step TM m p k p'" for m p k p'
    using that by cases auto
  from step have "set (results (live_pipeline s)) \<subseteq> set (results (live_pipeline s'))"
    using r [of _ "live_pipeline s\<lparr>pipeline_world := live_world s\<rparr>" Works]
    by cases (auto dest: r)
  with f show "fatal (ls @ [l]) s'" unfolding fatal_def by auto
qed

lemma service_world_irrelevant [simp]:
  "objects_ok H (at_service 0 (\<lambda>v. v\<lparr>service_world := w\<rparr>) st) = objects_ok H st"
  "service_tasks H (at_service 0 (\<lambda>v. v\<lparr>service_world := w\<rparr>) st) = service_tasks H st"
  by (simp_all add: objects_ok_def service_tasks_def at_service_def)

lemma pipeline_world_irrelevant [simp]:
  "on_the_way n (p\<lparr>pipeline_world := w\<rparr>) = on_the_way n p" "finished_tasks (p\<lparr>pipeline_world := w\<rparr>) = finished_tasks p"
  by (simp_all add: on_the_way_def finished_tasks_def)

text \<open>The parts of an instance are in order: an id that is to be cancelled was deleted, and is not stored again.\<close>

definition cancels_ok :: "('w \<Rightarrow> string \<rightharpoonup> coll_row) \<Rightarrow> live_label list \<Rightarrow> 'w live \<Rightarrow> bool" where
  "cancels_ok place ls s \<longleftrightarrow> (\<forall>u \<in> set (canceledTasks (live_waiting s)) \<union> set_mset (live_cancelling s).
     place (live_world s) u = None \<and> u \<in> deleted_ids ls)"

definition parts_ok ::
    "'x triggerHook \<Rightarrow> ('w \<Rightarrow> bool) \<Rightarrow> ('w \<Rightarrow> string \<rightharpoonup> coll_row) \<Rightarrow> live_label list \<Rightarrow> 'w live \<Rightarrow> bool" where
  "parts_ok hook sound place ls s \<longleftrightarrow> sound (live_world s) \<and> wf_list (tasksWaitingList (live_waiting s)) \<and>
     cancels_ok place ls s \<and> objects_ok (held (handle_calls ls)) (live_senders s) \<and>
     (\<forall>k\<ge>nat (confirmationWorkersCount (hook_senderService hook)). confirmer (live_pipeline s) k = ConfirmerReturned) \<and>
     well_run (nat (workersCount (hook_preloadingService hook))) (live_bunch s) \<and> (lost (live_bunch s) = [] \<or> fatal ls s)"

definition account_ok ::
    "'x triggerHook \<Rightarrow> ('w \<Rightarrow> string \<rightharpoonup> coll_row) \<Rightarrow> string \<Rightarrow> live_label list \<Rightarrow> 'w live \<Rightarrow> bool" where
  "account_ok hook place me ls s \<longleftrightarrow> tasks_ok me (place (live_world s)) (unread_collections hook s)
     (in_flight hook (held (handle_calls ls)) s) (confirmed s) (deleted_ids ls) (failed_ids ls)"

lemma waiting_arrivals:
  "waiting_step L limit s (Arrives t) s' \<Longrightarrow> s' = s\<lparr>preloadedTasks := preloadedTasks s @ [t]\<rparr>"
  "waiting_step L limit s (CancelArrives tid) s' \<Longrightarrow> s' = s\<lparr>canceledTasks := canceledTasks s @ [tid]\<rparr>"
  by (auto elim: waiting_step.cases)

text \<open>Tasks that go from one part to the next: nothing else changes.\<close>

lemma step_moves:
  assumes ok: "parts_ok hook sound place ls s" and step: "live_step hook TM read s l s'"
    and l: "\<exists>t. l = Offers t \<or> l = Hands t \<or> l = Forwards t \<or> (\<exists>tid. l = Cancels tid) \<or> (\<exists>c. l = Uses c \<and> proper_call (held (handle_calls ls)) c)"
  shows "in_flight hook (held (handle_calls (ls @ [l]))) s' = in_flight hook (held (handle_calls ls)) s \<and>
    unread_collections hook s' = unread_collections hook s \<and> confirmed s' = confirmed s"
proof -
  let ?H = "held (handle_calls ls)" and ?n = "nat (confirmationWorkersCount (hook_senderService hook))"
  have objs: "objects_ok ?H (live_senders s)" and conf: "\<forall>k\<ge>?n. confirmer (live_pipeline s) k = ConfirmerReturned"
    using ok by (simp_all add: parts_ok_def)
  from step show ?thesis
  proof cases
    case (offers t ws)
    then obtain M where "live_adding s = add_mset t M" by (auto dest: multi_member_split)
    with offers show ?thesis
      by (auto dest!: waiting_arrivals(1) simp: in_flight_def unread_collections_def confirmed_def waiting_tasks_def)
  next
    case (cancels tid ws)
    then show ?thesis
      by (auto dest!: waiting_arrivals(2) simp: in_flight_def unread_collections_def confirmed_def waiting_tasks_def)
  next
    case (hands at t rest st)
    from step_objects_ok [OF hands(4) objs] have "service_tasks ?H st = add_mset t (service_tasks ?H (live_senders s))"
      by (simp add: delivered_def)
    with hands show ?thesis by (simp add: in_flight_def unread_collections_def confirmed_def waiting_tasks_def)
  next
    case (uses c st)
    then have "proper_call ?H c" using l by auto
    from step_objects_ok [OF uses(3) _ this] objs
    have "service_tasks (held_after c ?H) st = service_tasks ?H (live_senders s)"
      using uses(4) by (cases c) (simp_all add: delivered_def)
    with uses show ?thesis by (simp add: in_flight_def unread_collections_def confirmed_def)
  next
    case (forwards t rest p)
    have "on_the_way ?n p + finished_tasks p = on_the_way ?n (live_pipeline s) + finished_tasks (live_pipeline s) + {#t#}"
      using step_on_the_way [OF forwards(4) conf] by (simp add: sent_tasks_def)
    moreover have f: "finished_tasks p = finished_tasks (live_pipeline s)"
      using forwards(4) by cases (simp add: finished_tasks_def)
    ultimately have "on_the_way ?n p = add_mset t (on_the_way ?n (live_pipeline s))" by simp
    with forwards f show ?thesis
      by (simp add: in_flight_def unread_collections_def confirmed_def service_tasks_def at_service_def)
  qed (use l in auto)
qed

section \<open>The parts stay in order\<close>

lemma sender_world:
  "sender_step st k st' \<Longrightarrow> service_world (services st' 0) = service_world (services st 0) \<or>
    service_world (services st' 0) = publish_or_log SendingRate 1 (service_world (services st 0))"
  by (erule sender_step.cases)
    (auto simp: at_service_def consume_start_def consume_end_def tts_Confirm_def tts_Rollback_def put_processed_def)

context placing_manager
begin

lemma reading:
  assumes s: "sound (bunch_world b)" and step: "bunch_step read b b'"
  shows "sound (bunch_world b') \<and> place (bunch_world b') = place (bunch_world b)"
  using step
proof cases
  case (fetched k i ts w)
  with read_place [OF s fetched(3)] show ?thesis by (simp add: place_env logging_keeps publishing_keeps)
next
  case (not_fetched k i ts e w)
  with read_place [OF s not_fetched(3)] show ?thesis by (simp add: place_env logging_keeps)
qed (use s in \<open>simp_all add: place_env logging_keeps\<close>)

lemma pipeline_world_step:
  assumes s: "sound (pipeline_world p)" and step: "pipeline_step TM m p k p'"
  shows "sound (pipeline_world p')" "place (pipeline_world p') \<subseteq>\<^sub>m place (pipeline_world p)"
    "place (pipeline_world p') = place (pipeline_world p) \<and> finished_tasks p' = finished_tasks p \<or>
     (\<exists>j b err w. k = Works \<and> confirmer p j = Confirming b \<and> confirm_batch TM b (pipeline_world p) = Some (err, w) \<and>
       p' = p\<lparr>pipeline_world := w, confirmer := (confirmer p)(j := AwaitingBatch), results := results p @ [(b, err)]\<rparr>)"
proof -
  show "sound (pipeline_world p')" "place (pipeline_world p') \<subseteq>\<^sub>m place (pipeline_world p)"
    using step by (cases; use s confirming [OF s] in \<open>simp add: place_env publishing_keeps\<close>)+
  show "place (pipeline_world p') = place (pipeline_world p) \<and> finished_tasks p' = finished_tasks p \<or>
     (\<exists>j b err w. k = Works \<and> confirmer p j = Confirming b \<and> confirm_batch TM b (pipeline_world p) = Some (err, w) \<and>
       p' = p\<lparr>pipeline_world := w, confirmer := (confirmer p)(j := AwaitingBatch), results := results p @ [(b, err)]\<rparr>)"
    using step by cases (auto simp: place_env finished_tasks_def)
qed

lemma world_step:
  assumes s: "sound (live_world s)" and step: "live_step hook TM read s l s'"
  shows "sound (live_world s')" "place (live_world s) u = None \<Longrightarrow>
    place (live_world s') u = None \<or> (\<exists>err t. l = Creates err t \<and> task_id t = u)"
proof -
  have "sound (live_world s') \<and> (place (live_world s) u = None \<longrightarrow>
    place (live_world s') u = None \<or> (\<exists>err t. l = Creates err t \<and> task_id t = u))"
    using step
  proof cases
    case (creates new_id t err t' out w)
    with creating [OF s creates(3)] show ?thesis by auto
  next
    case (deletes tid err out w)
    with deleting [OF s deletes(3)] show ?thesis by (auto simp: map_le_def dom_def)
  next
    case (loads b)
    then show ?thesis using reading [OF _ loads(3)] s by simp
  next
    case (uses c st)
    with sender_world [OF uses(3)] s show ?thesis by (auto simp: at_service_def place_env publishing_keeps)
  next
    case (confirms p)
    with pipeline_world_step(1,2) [OF _ confirms(3)] s show ?thesis by (auto simp: map_le_def dom_def)
  qed (use s searching [OF s] in auto)
  then show "sound (live_world s')" "place (live_world s) u = None \<Longrightarrow>
    place (live_world s') u = None \<or> (\<exists>err t. l = Creates err t \<and> task_id t = u)" by simp_all
qed

end

lemma run_goes_well: "bunch_step read b b' \<Longrightarrow> well_run n b \<Longrightarrow> well_run n b'"
  by (erule bunch_step.cases) (auto simp: well_run_def dest: spec)

lemma bunch_world_irrelevant [simp]:
  "well_run n (b\<lparr>bunch_world := w\<rparr>) = well_run n b" "unread n (b\<lparr>bunch_world := w\<rparr>) = unread n b"
  by (simp_all add: well_run_def unread_def)

lemma step_goes_well:
  "live_step hook TM read s l s' \<Longrightarrow> well_run (nat (workersCount (hook_preloadingService hook))) (live_bunch s) \<Longrightarrow>
    well_run (nat (workersCount (hook_preloadingService hook))) (live_bunch s')"
  by (erule live_step.cases) (auto dest: run_goes_well intro: bunch_start_facts(1))

lemma newly_lost: "bunch_step read b b' \<Longrightarrow> lost b' = lost b \<or> (\<exists>i. lost b' = i # lost b)"
  by (erule bunch_step.cases) auto

lemma waiting_iterates:
  assumes wf: "wf_list (tasksWaitingList s)" and C: "set (canceledTasks s) \<subseteq> C"
    and step: "waiting_step heap_ops limit s (Iterates now choice) s'"
  shows "wf_list (tasksWaitingList s')" "set (canceledTasks s') \<subseteq> C"
    "waiting_tasks s' \<subseteq># waiting_tasks s" "unless C (waiting_tasks s') = unless C (waiting_tasks s)"
  using step by (rule iterates_cases;
    use heap_list.iteration_facts [OF wf C] in \<open>auto simp: waiting_tasks_def heap_list.everything_def\<close>)+

context placing_manager
begin

lemma cancels_kept:
  assumes ok: "cancels_ok place ls s" and s: "sound (live_world s)" and wf: "wf_list (tasksWaitingList (live_waiting s))"
    and step: "live_step hook TM read s l s'" and careful: "careful hook place ls s l s'"
  shows "cancels_ok place (ls @ [l]) s'"
proof -
  have old: "place (live_world s') u = None \<and> u \<in> deleted_ids (ls @ [l])"
    if "u \<in> set (canceledTasks (live_waiting s)) \<union> set_mset (live_cancelling s)" for u
  proof -
    have u: "place (live_world s) u = None" "u \<in> deleted_ids ls" using ok that by (auto simp: cancels_ok_def)
    with world_step(2) [OF s step u(1)] careful show ?thesis by (auto simp: careful_def)
  qed
  have "u \<in> set (canceledTasks (live_waiting s)) \<union> set_mset (live_cancelling s) \<or>
      place (live_world s') u = None \<and> u \<in> deleted_ids (ls @ [l])"
    if "u \<in> set (canceledTasks (live_waiting s')) \<union> set_mset (live_cancelling s')" for u
    using step
  proof cases
    case (deletes tid err out w)
    with that deleting(4) [OF s deletes(3)] show ?thesis by auto
  next
    case (waits now choice ws)
    with that waiting_iterates(2) [OF wf subset_refl waits(3)] show ?thesis by auto
  qed (use that in \<open>auto dest!: waiting_arrivals in_diffD\<close>)
  with old show ?thesis unfolding cancels_ok_def by blast
qed

lemma parts_kept:
  assumes ok: "parts_ok hook sound place ls s" and step: "live_step hook TM read s l s'"
    and careful: "careful hook place ls s l s'"
  shows "parts_ok hook sound place (ls @ [l]) s'"
proof -
  let ?n = "nat (confirmationWorkersCount (hook_senderService hook))"
  let ?m = "nat (workersCount (hook_preloadingService hook))"
  have ok': "sound (live_world s)" "wf_list (tasksWaitingList (live_waiting s))" "cancels_ok place ls s"
    "objects_ok (held (handle_calls ls)) (live_senders s)" "\<forall>k\<ge>?n. confirmer (live_pipeline s) k = ConfirmerReturned"
    "well_run ?m (live_bunch s)" "lost (live_bunch s) = [] \<or> fatal ls s"
    using ok by (auto simp: parts_ok_def)
  have "wf_list (tasksWaitingList (live_waiting s'))"
    using step by cases (use ok'(2) waiting_iterates(1) [OF ok'(2) subset_refl] in \<open>auto dest!: waiting_arrivals\<close>)
  moreover have "objects_ok (held (handle_calls (ls @ [l]))) (live_senders s')"
    using step
  proof cases
    case (hands at t rest st)
    with step_objects_ok [OF hands(4) ok'(4)] show ?thesis by simp
  next
    case (uses c st)
    with step_objects_ok [OF uses(3)] ok'(4) careful show ?thesis by (simp add: careful_def)
  qed (use ok'(4) in \<open>auto simp: objects_ok_def at_service_def\<close>)
  moreover have "\<forall>k\<ge>?n. confirmer (live_pipeline s') k = ConfirmerReturned"
    using step by cases (use ok'(5) step_workers [of _ _ "live_pipeline s\<lparr>pipeline_world := live_world s\<rparr>" Works _ ?n]
      in \<open>auto dest: step_workers\<close>)
  moreover have "well_run ?m (live_bunch s')"
    using step
  proof cases
    case (loads b)
    with run_goes_well [OF loads(3)] ok'(6) show ?thesis by simp
  qed (use ok'(6) bunch_start_facts(1) in auto)
  moreover have "lost (live_bunch s') = [] \<or> fatal (ls @ [l]) s'"
    using step
  proof cases
    case (loads b)
    from newly_lost [OF loads(3)] fatal_grows [OF _ step, of ls] ok'(7) show ?thesis
      using loads by (auto simp: fatal_def)
  qed (use ok'(7) fatal_grows [OF _ step, of ls] in \<open>auto simp: bunch_start_def\<close>)
  ultimately show ?thesis
    using world_step(1) [OF ok'(1) step] cancels_kept [OF ok'(3,1,2) step careful] by (simp add: parts_ok_def)
qed

end

section \<open>The account is kept\<close>

text \<open>A worker that reads a collection, that fails to, and the other steps of the workers.\<close>

lemma bunch_moves:
  assumes step: "bunch_step read b b'" and run: "well_run n b"
  obtains (read) i ts w where "read i (bunch_world b) = ((ts, None), w)" "unread n b = add_mset i (unread n b')"
      "deliveries n b' = deliveries n b + mset ts" "sent b' = sent b"
    | (fails) i where "lost b' = i # lost b" "deliveries n b' = deliveries n b" "sent b' = sent b"
    | (moves) ts where "unread n b' = unread n b" "sent b' = sent b @ ts" "deliveries n b' + mset ts = deliveries n b"
proof -
  note upd = sum_fun_upd [where f = fetching and g = "worker b" and n = n]
    sum_fun_upd [where f = delivering and g = "worker b" and n = n]
  note d = unread_def deliveries_def
  note below = running_below [OF run]
  from step show thesis
  proof cases
    case (take_id k i rest)
    then have k: "k < n" by (simp add: below)
    show thesis
      by (rule moves [of "[]"]) (use take_id upd [OF k, of "Fetching i"] in \<open>simp_all add: d\<close>)
  next
    case (no_id k)
    then have k: "k < n" by (simp add: below)
    show thesis
      by (rule moves [of "[]"]) (use no_id upd [OF k, of Ended] in \<open>simp_all add: d\<close>)
  next
    case (fetched k i ts w)
    then have k: "k < n" by (simp add: below)
    show thesis
      by (rule read [of i ts w]) (use fetched upd [OF k, of "Delivering ts"] in \<open>simp_all add: d\<close>)
  next
    case (not_fetched k i ts e w)
    then have k: "k < n" by (simp add: below)
    show thesis
      by (rule fails [of i]) (use not_fetched upd(2) [OF k, of Ended] in \<open>simp_all add: d\<close>)
  next
    case (send_task k t ts)
    then have k: "k < n" by (simp add: below)
    show thesis
      by (rule moves [of "[t]"]) (use send_task upd [OF k, of "Delivering ts"] in \<open>simp_all add: d\<close>)
  next
    case (all_sent k)
    then have k: "k < n" by (simp add: below)
    show thesis
      by (rule moves [of "[]"]) (use all_sent upd [OF k, of Asking] in \<open>simp_all add: d\<close>)
  qed
qed

lemma bunch_start_moves:
  "unread (nat workers) (bunch_start workers ks w) = mset ks" "deliveries n (bunch_start workers ks w) = {#}"
  by (simp_all add: unread_def deliveries_def bunch_start_def sum.neutral)

lemma bunch_over_moves:
  assumes "bunch_over b" "well_run n b" "lost b = []" "0 < n"
  shows "unread n b = {#}" "deliveries n b = {#}"
  using assms by (auto simp: unread_def deliveries_def bunch_over_def well_run_def)

context placing_manager
begin

lemma creates_kept:
  assumes ok: "account_ok hook place me ls s" and s: "sound (live_world s)"
    and step: "live_step hook TM read s (Creates err t) s'" and careful: "careful hook place ls s (Creates err t) s'"
  shows "account_ok hook place me (ls @ [Creates err t]) s'"
proof -
  from step obtain new_id t0 out w where c: "CreateCtx hook TM new_id t0 (live_world s) = Some ((err, t, out), w)"
    "s' = s\<lparr>live_world := w, live_adding := live_adding s + mset out\<rparr>" by cases blast
  note f = creating [OF s c(1)]
  have new: "task_id t \<notin> deleted_ids ls" "task_id t \<notin> ids (confirmed s)"
    "\<And>c. place w (task_id t) = Some c \<Longrightarrow> coll_id c \<notin># unread_collections hook s"
    using careful c(2) by (auto simp: careful_def)
  have moved: "in_flight hook H s' = in_flight hook H s + mset out" "unread_collections hook s' = unread_collections hook s"
    "confirmed s' = confirmed s" for H
    by (simp_all add: c(2) in_flight_def unread_collections_def confirmed_def)
  note acc = ok [unfolded account_ok_def]
  show ?thesis
  proof (cases err)
    case None
    then obtain p where p: "place (live_world s) (task_id t) = None" "place w (task_id t) = Some p" "coll_exec p = exec_time t"
      "out = (if coll_taken p = me then [t] else [])" using f(4) by blast
    have "place w = (place (live_world s))(task_id t \<mapsto> p)" using f(3) p(2) by auto
    with account_create [OF acc new(1,2) p(1,3) new(3) [OF p(2)], of "mset out"] show ?thesis
      using p(4) None by (cases "coll_taken p = me") (simp_all add: account_ok_def moved, simp_all add: c(2))
  next
    case (Some e)
    then have out: "out = []" using f(5) by simp
    show ?thesis
    proof (cases "e = TmErrorCreatingTasks")
      case True
      have "tasks_ok me (place w) (unread_collections hook s) (in_flight hook (held (handle_calls ls)) s) (confirmed s)
          (deleted_ids ls) (insert (task_id t) (failed_ids ls))"
        by (rule account_create_failed [OF acc new(1,2) f(3)]) (use f(2) new(3) in auto)
      with out Some True show ?thesis by (simp add: account_ok_def moved) (simp add: c(2))
    next
      case False
      with f(6) Some have "place w = place (live_world s)" by simp
      with acc out Some False show ?thesis by (simp add: account_ok_def moved) (simp add: c(2))
    qed
  qed
qed

lemma loads_kept:
  assumes ok: "account_ok hook place me ls s" and parts: "parts_ok hook sound place ls s"
    and step: "live_step hook TM read s (Loads ks) s'" and ks: "ks = []"
  shows "account_ok hook place me (ls @ [Loads ks]) s'"
proof -
  let ?n = "nat (workersCount (hook_preloadingService hook))"
  let ?b = "(live_bunch s)\<lparr>bunch_world := live_world s\<rparr>"
  from step obtain b where b: "bunch_step read ?b b" "ks = take (length (lost b) - length (lost (live_bunch s))) (lost b)"
    "s' = s\<lparr>live_world := bunch_world b, live_bunch := b,
         live_waiting := (live_waiting s)\<lparr>preloadedTasks :=
           preloadedTasks (live_waiting s) @ drop (length (sent (live_bunch s))) (sent b)\<rparr>\<rparr>" by cases blast
  have s: "sound (live_world s)" and run: "well_run ?n ?b" using parts by (simp_all add: parts_ok_def)
  have place: "place (bunch_world b) = place (live_world s)" using reading [OF _ b(1)] s by simp
  note acc = ok [unfolded account_ok_def unread_collections_def]
  have eq: "deliveries ?n ?b = deliveries ?n (live_bunch s)" by (simp add: deliveries_def)
  show ?thesis
  proof (cases rule: bunch_moves [OF b(1) run])
    case (1 i ts w)
    from read_place [OF _ 1(1)] s have "distinct (map task_id ts)"
      "set ts = {t. \<exists>c. place (live_world s) (task_id t) = Some c \<and> exec_time t = coll_exec c \<and> coll_id c = i}" by simp_all
    from account_read [OF acc [unfolded 1(2) [simplified]] this] 1 show ?thesis
      by (simp add: account_ok_def b(3) place in_flight_def unread_collections_def confirmed_def waiting_tasks_def eq ac_simps)
  next
    case (2 i)
    with b(2) ks show ?thesis by simp
  next
    case (3 ts)
    then have "deliveries ?n (live_bunch s) = deliveries ?n b + mset ts" by (simp add: eq)
    with acc 3 show ?thesis
      by (simp add: account_ok_def b(3) place in_flight_def unread_collections_def confirmed_def waiting_tasks_def ac_simps)
  qed
qed

lemma confirms_kept:
  assumes ok: "account_ok hook place me ls s" and parts: "parts_ok hook sound place ls s"
    and step: "live_step hook TM read s Confirms s'" and good: "\<not> fatal (ls @ [Confirms]) s'"
  shows "account_ok hook place me (ls @ [Confirms]) s'"
proof -
  let ?n = "nat (confirmationWorkersCount (hook_senderService hook))"
  let ?p = "(live_pipeline s)\<lparr>pipeline_world := live_world s\<rparr>"
  from step obtain p where p: "pipeline_step TM (batchMaxItems (hook_senderService hook)) ?p Works p"
    "s' = s\<lparr>live_world := pipeline_world p, live_pipeline := p\<rparr>" by cases blast
  have s: "sound (pipeline_world ?p)" and conf: "\<forall>k\<ge>?n. confirmer ?p k = ConfirmerReturned"
    using parts by (simp_all add: parts_ok_def)
  have moved: "on_the_way ?n p + finished_tasks p = on_the_way ?n (live_pipeline s) + finished_tasks (live_pipeline s)"
    using step_on_the_way [OF p(1) conf] by (simp add: sent_tasks_def)
  note acc = ok [unfolded account_ok_def]
  from pipeline_world_step(3) [OF s p(1)] show ?thesis
  proof (elim disjE exE conjE)
    fix j b err w assume c: "confirm_batch TM b (pipeline_world ?p) = Some (err, w)"
      and p': "p = ?p\<lparr>pipeline_world := w, confirmer := (confirmer ?p)(j := AwaitingBatch), results := results ?p @ [(b, err)]\<rparr>"
    have "err = None" using good by (auto simp: fatal_def p(2) p')
    note f = confirming(2) [OF s c] confirming(3) [OF s c this]
    have fin: "finished_tasks p = finished_tasks (live_pipeline s) + mset b" by (simp add: p' finished_tasks_def)
    with moved have way: "on_the_way ?n (live_pipeline s) = on_the_way ?n p + mset b" by simp
    let ?F = "in_flight hook (held (handle_calls ls)) s'"
    have "in_flight hook (held (handle_calls ls)) s = ?F + mset b" by (simp add: in_flight_def p(2) way ac_simps)
    from account_confirm [OF acc [unfolded this]] f fin show ?thesis
      by (simp add: account_ok_def confirmed_def) (simp add: p(2) p' unread_collections_def)
  next
    assume w: "place (pipeline_world p) = place (pipeline_world ?p)" and f: "finished_tasks p = finished_tasks ?p"
    with moved have way: "on_the_way ?n p = on_the_way ?n (live_pipeline s)" by simp
    with acc w f show ?thesis
      by (simp add: account_ok_def p(2) in_flight_def unread_collections_def confirmed_def)
  qed
qed

end

context placing_manager
begin

lemma finds_kept:
  assumes ok: "account_ok hook place me ls s" and parts: "parts_ok hook sound place ls s" and good: "\<not> fatal ls s"
    and workers: "1 \<le> workersCount (hook_preloadingService hook)"
    and step: "live_step hook TM read s (Finds ks) s'"
  shows "account_ok hook place me (ls @ [Finds ks]) s'"
proof -
  let ?n = "nat (workersCount (hook_preloadingService hook))"
  from step obtain w where w: "bunch_over (live_bunch s)"
    "preloader_Run_pass (hook_preloadingService hook) TM (live_world s) = Some (PassWorks (Some ks), w)"
    "s' = s\<lparr>live_world := w, live_bunch := bunch_start (workersCount (hook_preloadingService hook)) ks w\<rparr>" by cases blast
  have s: "sound (live_world s)" and run: "well_run ?n (live_bunch s)" "lost (live_bunch s) = []"
    using parts good by (auto simp: parts_ok_def)
  note over = bunch_over_moves [OF w(1) run]
  have n: "0 < ?n" using workers by simp
  note f = searching(4) [OF s w(2) refl]
  have "tasks_ok me (place (live_world s)) {#} (in_flight hook (held (handle_calls ls)) s) (confirmed s)
      (deleted_ids ls) (failed_ids ls)"
    using ok over(1) [OF n] by (simp add: account_ok_def unread_collections_def)
  from account_find [OF this, of ks] f show ?thesis
    using over(2) [OF n] by (simp add: account_ok_def w(3) in_flight_def unread_collections_def confirmed_def bunch_start_moves)
qed

lemma waits_kept:
  assumes ok: "account_ok hook place me ls s" and parts: "parts_ok hook sound place ls s"
    and step: "live_step hook TM read s (Waits now choice) s'"
  shows "account_ok hook place me (ls @ [Waits now choice]) s'"
proof -
  let ?C = "set (canceledTasks (live_waiting s))" and ?H = "held (handle_calls ls)"
  from step obtain ws where ws: "s' = s\<lparr>live_waiting := ws\<rparr>"
    "waiting_step heap_ops (fst (hook_waitingService hook)) (live_waiting s) (Iterates now choice) ws" by cases blast
  have wf: "wf_list (tasksWaitingList (live_waiting s))" and C: "?C \<inter> dom (place (live_world s)) = {}"
    using parts by (auto simp: parts_ok_def cancels_ok_def)
  note f = waiting_iterates(3,4) [OF wf subset_refl ws(2)]
  have "in_flight hook ?H s' \<subseteq># in_flight hook ?H s" "unless ?C (in_flight hook ?H s') = unless ?C (in_flight hook ?H s)"
    using f by (simp_all add: ws(1) in_flight_def)
  from account_cancel [OF ok [unfolded account_ok_def] this C] show ?thesis
    by (simp add: account_ok_def) (simp add: ws(1) unread_collections_def confirmed_def)
qed

lemma account_kept:
  assumes ok: "account_ok hook place me ls s" and parts: "parts_ok hook sound place ls s" and good: "\<not> fatal (ls @ [l]) s'"
    and workers: "1 \<le> workersCount (hook_preloadingService hook)"
    and step: "live_step hook TM read s l s'" and careful: "careful hook place ls s l s'"
  shows "account_ok hook place me (ls @ [l]) s'"
proof -
  have s: "sound (live_world s)" using parts by (simp add: parts_ok_def)
  note acc = ok [unfolded account_ok_def]
  have moved: "account_ok hook place me (ls @ [l]) s'"
    if "place (live_world s') = place (live_world s)"
      "\<exists>t. l = Offers t \<or> l = Hands t \<or> l = Forwards t \<or> (\<exists>tid. l = Cancels tid) \<or> (\<exists>c. l = Uses c \<and> proper_call (held (handle_calls ls)) c)"
  proof -
    have "deleted_ids (ls @ [l]) = deleted_ids ls" "failed_ids (ls @ [l]) = failed_ids ls" using that(2) by auto
    with step_moves [OF parts step that(2)] acc that(1) show ?thesis by (simp add: account_ok_def)
  qed
  from step show ?thesis
  proof cases
    case (creates new_id t err t' out w)
    with creates_kept [OF ok s] step careful show ?thesis by simp
  next
    case (offers t ws)
    then show ?thesis by (intro moved) auto
  next
    case (deletes tid err out w)
    from account_delete [OF acc deleting(2,3) [OF s deletes(3)]] show ?thesis
      by (simp add: deletes(1,2) account_ok_def in_flight_def unread_collections_def confirmed_def)
  next
    case (cancels tid ws)
    then show ?thesis by (intro moved) auto
  next
    case (sleeps d w)
    with acc searching(3) [OF s sleeps(5) refl] show ?thesis
      by (simp add: account_ok_def in_flight_def unread_collections_def confirmed_def)
  next
    case (finds ks w)
    then show ?thesis using finds_kept [OF ok parts _ workers] step good fatal_grows by blast
  next
    case (search_fails w)
    with good show ?thesis by (simp add: fatal_def)
  next
    case (loads b)
    define ks where "ks = take (length (lost b) - length (lost (live_bunch s))) (lost b)"
    have "ks = []" using good loads(1) unfolding ks_def [symmetric] fatal_def by (cases ks) auto
    with loads_kept [OF ok parts, of ks s'] step loads(1) show ?thesis by (simp add: ks_def)
  next
    case (waits now choice ws)
    with waits_kept [OF ok parts] step show ?thesis by simp
  next
    case (hands at t rest st)
    then show ?thesis by (intro moved) auto
  next
    case (uses c st)
    with sender_world [OF uses(3)] careful show ?thesis
      by (intro moved) (auto simp: at_service_def place_env careful_def)
  next
    case (forwards t rest p)
    then show ?thesis by (intro moved) auto
  next
    case (confirms p)
    with confirms_kept [OF ok parts] step good show ?thesis by simp
  qed
qed

text \<open>A started instance, on a database where no collection is its own.\<close>

lemma instance_starts:
  assumes w: "sound (live_world s0)" "\<And>u c. place (live_world s0) u = Some c \<Longrightarrow> coll_taken c \<noteq> me"
    and waiting: "live_waiting s0 = waiting_start (NewPrioritizedTask [])"
    and senders: "objects_ok {#} (live_senders s0)" "service_tasks {#} (live_senders s0) = {#}"
    and s0: "s0 = live_start hook st"
  shows "parts_ok hook sound place [] s0" "account_ok hook place me [] s0"
proof -
  have s: "live_adding s0 = {#}" "live_cancelling s0 = {#}"
    "live_bunch s0 = bunch_start 0 [] (live_world s0)"
    "live_pipeline s0 = pipeline_start (confirmationWorkersCount (hook_senderService hook)) (live_world s0)"
    by (simp_all add: s0 live_start_def Let_def)
  have wf: "wf_list (NewPrioritizedTask [])" "tasks_in (NewPrioritizedTask []) = {#}" by (simp_all add: NewPrioritizedTask_facts)
  show "parts_ok hook sound place [] s0"
    using w(1) wf senders(1)
    by (simp add: start_facts(1) parts_ok_def s waiting waiting_start_def cancels_ok_def handle_calls_def well_run_def bunch_start_def)
  show "account_ok hook place me [] s0"
  proof -
    have "in_flight hook {#} s0 = {#}" "unread_collections hook s0 = {#}" "confirmed s0 = {#}"
      using wf senders(2) by (simp_all add: in_flight_def unread_collections_def confirmed_def s waiting waiting_start_def
        waiting_tasks_def bunch_start_moves start_facts(2,3) unread_def) (simp add: bunch_start_def sum.neutral)
    with w(2) show ?thesis by (auto simp: account_ok_def tasks_ok_def handle_calls_def distinct_ids_def)
  qed
qed

theorem careful_runs:
  assumes run: "careful_run hook TM read place s0 ls s" and s0: "parts_ok hook sound place [] s0" "account_ok hook place me [] s0"
    and workers: "1 \<le> workersCount (hook_preloadingService hook)"
  shows "parts_ok hook sound place ls s \<and> (fatal ls s \<or> account_ok hook place me ls s)"
  using run
proof induction
  case careful_start
  with s0 show ?case by simp
next
  case (careful_step ls s l s')
  then show ?case
    using parts_kept [of hook ls s l s'] account_kept [OF _ _ _ workers, of ls s l s'] fatal_grows [OF _ careful_step(2)] by blast
qed

end

section \<open>What stays in the database\<close>

lemma confirmed_grows: "live_step hook TM read s l s' \<Longrightarrow> confirmed s \<subseteq># confirmed s'"
proof -
  assume step: "live_step hook TM read s l s'"
  have f: "finished_tasks p \<subseteq># finished_tasks p'" if "pipeline_step TM m p k p'" for m p k p'
    using that by cases (simp_all add: finished_tasks_def)
  from step show ?thesis
    using f [of _ "live_pipeline s\<lparr>pipeline_world := live_world s\<rparr>" Works]
    by cases (auto dest: f simp: confirmed_def)
qed

lemma ids_mono: "M \<subseteq># N \<Longrightarrow> ids M \<subseteq> ids N"
  unfolding ids_def by (intro image_mono set_mset_mono)

context placing_manager
begin

lemma step_keeps_stored:
  assumes s: "sound (live_world s)" and step: "live_step hook TM read s l s'" and u: "stored_in (live_world s) u = Some e"
  shows "stored_in (live_world s') u = Some e \<or> u \<in> deleted_ids [l] \<or> u \<in> ids (confirmed s')"
proof -
  have same: "stored_in w' u = Some e" if "place w' u = place (live_world s) u" for w'
    using that u by (simp add: stored_place)
  have pos: "u \<in> dom (place (live_world s))" using u dom_stored [of u "live_world s"] by auto
  from step show ?thesis
  proof cases
    case (creates new_id t err t' out w)
    have "place w u = place (live_world s) u"
      using creating(2,3) [OF s creates(3)] pos by (cases "u = task_id t'") auto
    with creates show ?thesis by (simp add: same)
  next
    case (deletes tid err out w)
    with deleting(3) [OF s deletes(3)] show ?thesis by (cases "u = tid") (auto simp: deleted_ids_def same)
  next
    case (loads b)
    with reading [OF _ loads(3)] s show ?thesis by (simp add: same)
  next
    case (uses c st)
    with sender_world [OF uses(3)] show ?thesis by (intro disjI1 same) (auto simp: at_service_def place_env)
  next
    case (confirms p)
    let ?p = "(live_pipeline s)\<lparr>pipeline_world := live_world s\<rparr>"
    have sp: "sound (pipeline_world ?p)" using s by simp
    from pipeline_world_step(3) [OF sp confirms(3)] show ?thesis
    proof (elim disjE exE conjE)
      fix j b err w assume c: "confirm_batch TM b (pipeline_world ?p) = Some (err, w)"
        and p': "p = ?p\<lparr>pipeline_world := w, confirmer := (confirmer ?p)(j := AwaitingBatch), results := results ?p @ [(b, err)]\<rparr>"
      have "ids (mset b) \<subseteq> ids (confirmed s')" unfolding confirms(2) confirmed_def p'
        by (intro ids_mono) (simp add: finished_tasks_def)
      moreover have "stored_in w u = Some e" if "u \<notin> ids (mset b)" using confirming(4) [OF sp c that] u by simp
      ultimately show ?thesis using confirms p' by auto
    qed (use confirms same in simp)
  qed (use u searching(5) [OF s] in auto)
qed

theorem stored_until_deleted_or_confirmed:
  assumes run: "live_run hook TM read s0 ls s" and s0: "sound (live_world s0)"
  shows "sound (live_world s) \<and> (\<forall>u e. stored_in (live_world s0) u = Some e \<or>
      (\<exists>t. Creates None t \<in> set ls \<and> task_id t = u \<and> exec_time t = e) \<longrightarrow>
    stored_in (live_world s) u = Some e \<or> u \<in> deleted_ids ls \<or> u \<in> ids (confirmed s))"
  using run
proof induction
  case start
  with s0 show ?case by simp
next
  case (step ls s l s')
  then have s: "sound (live_world s)" by simp
  note keeps = step_keeps_stored [OF s step(2)]
  have new: "stored_in (live_world s') (task_id t) = Some (exec_time t)" if "l = Creates None t" for t
    using step(2) that
  proof cases
    case (creates new_id t0 err t' out w)
    with creating(4) [OF s creates(3)] that show ?thesis by (auto simp: stored_place)
  qed auto
  have "stored_in (live_world s') u = Some e \<or> u \<in> deleted_ids (ls @ [l]) \<or> u \<in> ids (confirmed s')"
    if u: "stored_in (live_world s0) u = Some e \<or> (\<exists>t. Creates None t \<in> set (ls @ [l]) \<and> task_id t = u \<and> exec_time t = e)" for u e
  proof (cases "\<exists>t. l = Creates None t \<and> task_id t = u \<and> exec_time t = e")
    case True
    with new show ?thesis by auto
  next
    case False
    with u step(3) have "stored_in (live_world s) u = Some e \<or> u \<in> deleted_ids ls \<or> u \<in> ids (confirmed s)" by auto
    with keeps [of u e] ids_mono [OF confirmed_grows [OF step(2)]] show ?thesis by (auto simp: deleted_ids_def)
  qed
  with world_step(1) [OF s step(2)] show ?case by blast
qed

end

end
