(* ===== verification/Live_Schedules.thy ===== *)
theory Live_Schedules
  imports Live_Invariants
begin

text \<open>
  Schedules: an executable choice of the steps of a running instance, for sample runs. A schedule says
  which goroutine takes the next step and what its \<open>select\<close> chooses; \<open>play\<close> computes the run.
\<close>

section \<open>The steps of the parts, computed\<close>

definition load_now ::
    "(nat \<Rightarrow> 'a world_scheme \<Rightarrow> (task list \<times> go_error option) \<times> 'a world_scheme) \<Rightarrow> nat \<Rightarrow>
     'a world_scheme bunch \<Rightarrow> 'a world_scheme bunch option" where
  "load_now read k b = (case worker b k of
      Asking \<Rightarrow> (case remaining b of
          i # rest \<Rightarrow> Some (b\<lparr>remaining := rest, worker := (worker b)(k := Fetching i)\<rparr>)
        | [] \<Rightarrow> Some (b\<lparr>bunch_world := eh_New LevelDebug ''end'' (bunch_world b), worker := (worker b)(k := Ended)\<rparr>))
    | Fetching i \<Rightarrow> (case read i (bunch_world b) of
          ((tasks, None), w) \<Rightarrow> Some (b\<lparr>bunch_world := publish_or_log PreloadingRate (int (length tasks))
              (eh_New LevelDebug ''preloaded tasks'' w), worker := (worker b)(k := Delivering tasks)\<rparr>)
        | ((tasks, Some err), w) \<Rightarrow> Some (b\<lparr>bunch_world := eh_New LevelFatal ''cannot get tasks for doing'' w,
              worker := (worker b)(k := Ended), lost := i # lost b\<rparr>))
    | Delivering (t # ts) \<Rightarrow> Some (b\<lparr>worker := (worker b)(k := Delivering ts), sent := sent b @ [t]\<rparr>)
    | Delivering [] \<Rightarrow> Some (b\<lparr>worker := (worker b)(k := Asking)\<rparr>)
    | Ended \<Rightarrow> None)"

lemma load_now: "load_now read k b = Some b' \<Longrightarrow> bunch_step read b b'"
  by (auto simp: load_now_def intro: bunch_step.intros split: worker_pc.splits list.splits prod.splits option.splits)

fun sender_now :: "sender_label \<Rightarrow> 'a world_scheme senders \<Rightarrow> 'a world_scheme senders option" where
  "sender_now (Delivers s t) st = Some (at_service s (\<lambda>v. v\<lparr>tasksReadyToSend := tasksReadyToSend v @ [t]\<rparr>) st)"
| "sender_now (ConsumeStarts s a) st = (case objects st a of
      None \<Rightarrow> Some (consume_start s a \<lparr>isProcessed = False, tts_service = pool_New st, tts_task = zero_task\<rparr> st)
    | Some tts \<Rightarrow> if a \<in># pooled st then Some (consume_start s a tts (st\<lparr>pooled := pooled st - {#a#}\<rparr>)) else None)"
| "sender_now (Consumes s a t) st = (case (objects st a, tasksReadyToSend (services st s)) of
      (Some tts, u # ts) \<Rightarrow> if (a, s) \<in># consuming st \<and> u = t
        then Some (consume_end s a tts t (at_service s (\<lambda>v. v\<lparr>tasksReadyToSend := ts\<rparr>) st)) else None
    | _ \<Rightarrow> None)"
| "sender_now (CallsConfirm a) st = (case objects st a of
      None \<Rightarrow> None | Some tts \<Rightarrow> Some (if isProcessed tts then st else tts_Confirm a tts st))"
| "sender_now _ st = None"

lemma sender_now: "sender_now l st = Some st' \<Longrightarrow> sender_step st l st'"
  by (cases "(l, st)" rule: sender_now.cases)
    (auto intro: sender_step.intros split: option.splits list.splits if_splits)

datatype pipeline_cmd = Gathers | Expires | Pushes | Checks | Counts | Pops | HandsBatch | TakesBatch nat | ConfirmsBatch nat

fun pipeline_now ::
    "'a world_scheme task_manager_ops \<Rightarrow> int \<Rightarrow> pipeline_cmd \<Rightarrow> 'a world_scheme pipeline \<Rightarrow> 'a world_scheme pipeline option" where
  "pipeline_now TM m Gathers p = (case (gatherer p, chan_queue (tasksToConfirm p)) of
      (Gathering batch, t # ts) \<Rightarrow> Some (p\<lparr>tasksToConfirm := (tasksToConfirm p)\<lparr>chan_queue := ts\<rparr>,
         gatherer := (if int (length (batch @ [t])) = m then Gathered (batch @ [t]) else Gathering (batch @ [t]))\<rparr>)
    | _ \<Rightarrow> None)"
| "pipeline_now TM m Expires p = (case gatherer p of Gathering batch \<Rightarrow> Some (p\<lparr>gatherer := Gathered batch\<rparr>) | _ \<Rightarrow> None)"
| "pipeline_now TM m Pushes p = (case gatherer p of
      Gathered batch \<Rightarrow> if batch = [] then Some (p\<lparr>gatherer := Gathering []\<rparr>)
        else Some (p\<lparr>batchQueue := batch_Push batch (batchQueue p), gatherer := Queued (length batch)\<rparr>)
    | _ \<Rightarrow> None)"
| "pipeline_now TM m Checks p = (case gatherer p of
      Queued n \<Rightarrow> Some (p\<lparr>gatherer := (if updateQueue_tokens p = 0 then Signalling n else Counting n)\<rparr>)
    | Signalling n \<Rightarrow> if updateQueue_tokens p < 1
        then Some (p\<lparr>updateQueue_tokens := Suc (updateQueue_tokens p), gatherer := Counting n\<rparr>) else None
    | _ \<Rightarrow> None)"
| "pipeline_now TM m Counts p = (case gatherer p of
      Counting n \<Rightarrow> Some (p\<lparr>pipeline_world := publish_or_log WaitingForConfirmation (int n) (pipeline_world p), gatherer := Gathering []\<rparr>)
    | _ \<Rightarrow> None)"
| "pipeline_now TM m Pops p = (case forwarder p of
      PoppingBatch \<Rightarrow> (case batch_Pop (batchQueue p) of
          (batch, None, q) \<Rightarrow> Some (p\<lparr>batchQueue := q, forwarder := Handing batch\<rparr>)
        | _ \<Rightarrow> None)
    | _ \<Rightarrow> None)"
| "pipeline_now TM m HandsBatch p = (case forwarder p of
      Handing batch \<Rightarrow> if length (chan_queue (batches p)) < chan_cap
        then Some (p\<lparr>batches := (batches p)\<lparr>chan_queue := chan_queue (batches p) @ [batch]\<rparr>, forwarder := PoppingBatch\<rparr>) else None
    | _ \<Rightarrow> None)"
| "pipeline_now TM m (TakesBatch k) p = (case (confirmer p k, chan_queue (batches p)) of
      (AwaitingBatch, batch # rest) \<Rightarrow>
        Some (p\<lparr>batches := (batches p)\<lparr>chan_queue := rest\<rparr>, confirmer := (confirmer p)(k := Confirming batch)\<rparr>)
    | _ \<Rightarrow> None)"
| "pipeline_now TM m (ConfirmsBatch k) p = (case confirmer p k of
      Confirming batch \<Rightarrow> (case confirm_batch TM batch (pipeline_world p) of
          Some (err, w) \<Rightarrow> Some (p\<lparr>pipeline_world := w, confirmer := (confirmer p)(k := AwaitingBatch), results := results p @ [(batch, err)]\<rparr>)
        | None \<Rightarrow> None)
    | _ \<Rightarrow> None)"

lemma pipeline_now: "pipeline_now TM m c p = Some p' \<Longrightarrow> pipeline_step TM m p Works p'"
proof (cases "c = Gathers")
  case True
  then show "pipeline_now TM m c p = Some p' \<Longrightarrow> pipeline_step TM m p Works p'"
    by (auto simp del: length_append intro: pipeline_step.gather split: gatherer_pc.splits list.splits)
next
  case False
  then show "pipeline_now TM m c p = Some p' \<Longrightarrow> pipeline_step TM m p Works p'"
    using pipeline_step.signal [of p _ TM m]
    by (cases "(TM, m, c, p)" rule: pipeline_now.cases)
      (auto intro: pipeline_step.intros split: gatherer_pc.splits forwarder_pc.splits confirmer_pc.splits list.splits
        prod.splits option.splits if_splits)
qed

section \<open>Schedules\<close>

datatype live_cmd =
    Create string task
  | Offer task
  | Delete string
  | Cancel string
  | Search
  | Load nat
  | Wait int wait_choice
  | Hand
  | Use sender_label
  | Forward
  | Confirmation pipeline_cmd

text \<open>A waiting task of the preloader, and an iteration of the waiting service.\<close>

definition wait_now :: "int \<Rightarrow> int \<Rightarrow> wait_choice \<Rightarrow> task_list waiting \<Rightarrow> task_list waiting option" where
  "wait_now limit now choice s = (case op_Take heap_ops (tasksWaitingList s) of
      Some (task, h) \<Rightarrow> if 0 < task_sleep now task \<longrightarrow> choice_ready (task_sleep now task) now choice s
        then waiting_iteration heap_ops limit now choice s else None
    | None \<Rightarrow> None)"

lemma wait_now: "wait_now limit now choice s = Some s' \<Longrightarrow> waiting_step heap_ops limit s (Iterates now choice) s'"
  by (auto simp: wait_now_def intro: waiting_step.iterates split: option.splits if_splits)

definition search_now ::
    "'x triggerHook \<Rightarrow> 'a world_scheme task_manager_ops \<Rightarrow> 'a world_scheme live \<Rightarrow> (live_label \<times> 'a world_scheme live) option" where
  "search_now hook TM s =
     (if live_returned s \<or> \<not> list_all (\<lambda>k. worker (live_bunch s) k = Ended) [0..<nat (workersCount (hook_preloadingService hook))]
      then None
      else (case preloader_Run_pass (hook_preloadingService hook) TM (live_world s) of
          Some (PassSleeps d, w) \<Rightarrow> Some (Sleeps, s\<lparr>live_world := w\<rparr>)
        | Some (PassWorks (Some ks), w) \<Rightarrow> Some (Finds ks,
            s\<lparr>live_world := w, live_bunch := bunch_start (workersCount (hook_preloadingService hook)) ks w\<rparr>)
        | Some (PassReturns, w) \<Rightarrow> Some (SearchFails, s\<lparr>live_world := w, live_returned := True\<rparr>)
        | _ \<Rightarrow> None))"

lemma search_now:
  assumes "search_now hook TM s = Some (l, s')" "well_run (nat (workersCount (hook_preloadingService hook))) (live_bunch s)"
  shows "live_step hook TM read s l s'"
proof -
  let ?n = "nat (workersCount (hook_preloadingService hook))"
  have "\<not> live_returned s" "list_all (\<lambda>k. worker (live_bunch s) k = Ended) [0..<?n]"
    using assms(1) by (auto simp: search_now_def split: if_splits)
  moreover from this assms(2) have "bunch_over (live_bunch s)"
    unfolding bunch_over_def well_run_def list_all_iff by (metis atLeastLessThan_iff le0 not_le set_upt)
  ultimately show ?thesis using assms(1)
    by (auto simp: search_now_def intro: live_step.intros split: option.splits prod.splits if_splits preloader_pass.splits)
qed

fun do_now ::
    "'x triggerHook \<Rightarrow> 'a world_scheme task_manager_ops \<Rightarrow>
     (nat \<Rightarrow> 'a world_scheme \<Rightarrow> (task list \<times> go_error option) \<times> 'a world_scheme) \<Rightarrow>
     live_cmd \<Rightarrow> 'a world_scheme live \<Rightarrow> (live_label \<times> 'a world_scheme live) option" where
  "do_now hook TM read (Create new_id t) s = (case CreateCtx hook TM new_id t (live_world s) of
      Some ((err, t', out), w) \<Rightarrow> Some (Creates err t', s\<lparr>live_world := w, live_adding := live_adding s + mset out\<rparr>)
    | None \<Rightarrow> None)"
| "do_now hook TM read (Offer t) s = (if t \<in># live_adding s
      then Some (Offers t, s\<lparr>live_adding := live_adding s - {#t#},
        live_waiting := (live_waiting s)\<lparr>preloadedTasks := preloadedTasks (live_waiting s) @ [t]\<rparr>\<rparr>) else None)"
| "do_now hook TM read (Delete tid) s = (case DeleteCtx TM tid (live_world s) of
      Some ((err, out), w) \<Rightarrow> Some (Deletes tid err, s\<lparr>live_world := w, live_cancelling := live_cancelling s + mset out\<rparr>)
    | None \<Rightarrow> None)"
| "do_now hook TM read (Cancel tid) s = (if tid \<in># live_cancelling s
      then Some (Cancels tid, s\<lparr>live_cancelling := live_cancelling s - {#tid#},
        live_waiting := (live_waiting s)\<lparr>canceledTasks := canceledTasks (live_waiting s) @ [tid]\<rparr>\<rparr>) else None)"
| "do_now hook TM read Search s = search_now hook TM s"
| "do_now hook TM read (Load k) s = (case load_now read k ((live_bunch s)\<lparr>bunch_world := live_world s\<rparr>) of
      Some b \<Rightarrow> Some (Loads (take (length (lost b) - length (lost (live_bunch s))) (lost b)),
        s\<lparr>live_world := bunch_world b, live_bunch := b,
         live_waiting := (live_waiting s)\<lparr>preloadedTasks :=
           preloadedTasks (live_waiting s) @ drop (length (sent (live_bunch s))) (sent b)\<rparr>\<rparr>)
    | None \<Rightarrow> None)"
| "do_now hook TM read (Wait now choice) s = (case wait_now (fst (hook_waitingService hook)) now choice (live_waiting s) of
      Some ws \<Rightarrow> Some (Waits now choice, s\<lparr>live_waiting := ws\<rparr>)
    | None \<Rightarrow> None)"
| "do_now hook TM read Hand s = (case readyToSend (live_waiting s) of
      (at, t) # rest \<Rightarrow> map_option (\<lambda>st. (Hands t, s\<lparr>live_waiting := (live_waiting s)\<lparr>readyToSend := rest\<rparr>, live_senders := st\<rparr>))
        (sender_now (Delivers 0 t) (live_senders s))
    | [] \<Rightarrow> None)"
| "do_now hook TM read (Use l) s = (if is_delivery l then None
      else map_option (\<lambda>st. (Uses l, s\<lparr>live_senders := st, live_world := service_world (services st 0)\<rparr>))
        (sender_now l (at_service 0 (\<lambda>v. v\<lparr>service_world := live_world s\<rparr>) (live_senders s))))"
| "do_now hook TM read Forward s = (case toConfirm (services (live_senders s) 0) of
      t # rest \<Rightarrow> if \<not> chan_closed (tasksToConfirm (live_pipeline s)) \<and>
          int (length (chan_queue (tasksToConfirm (live_pipeline s)))) < batchMaxItems (hook_senderService hook)
        then Some (Forwards t, s\<lparr>live_senders := at_service 0 (\<lambda>v. v\<lparr>toConfirm := rest\<rparr>) (live_senders s),
          live_pipeline := (live_pipeline s)\<lparr>tasksToConfirm := (tasksToConfirm (live_pipeline s))\<lparr>chan_queue :=
            chan_queue (tasksToConfirm (live_pipeline s)) @ [t]\<rparr>\<rparr>\<rparr>) else None
    | [] \<Rightarrow> None)"
| "do_now hook TM read (Confirmation c) s = map_option
      (\<lambda>p. (Confirms, s\<lparr>live_world := pipeline_world p, live_pipeline := p\<rparr>))
      (pipeline_now TM (batchMaxItems (hook_senderService hook)) c ((live_pipeline s)\<lparr>pipeline_world := live_world s\<rparr>))"

lemma do_now:
  assumes "do_now hook TM read c s = Some (l, s')" "well_run (nat (workersCount (hook_preloadingService hook))) (live_bunch s)"
  shows "live_step hook TM read s l s'"
proof (cases c)
  case (Create new_id t)
  with assms(1) show ?thesis by (auto intro: live_step.creates split: option.splits)
next
  case (Offer t)
  with assms(1) show ?thesis by (auto intro!: live_step.offers waiting_step.arrives split: if_splits)
next
  case (Delete tid)
  with assms(1) show ?thesis by (auto intro: live_step.deletes split: option.splits)
next
  case (Cancel tid)
  with assms(1) show ?thesis by (auto intro!: live_step.cancels waiting_step.cancel_arrives split: if_splits)
next
  case Search
  with search_now [of hook TM s l s' read] assms show ?thesis by simp
next
  case (Load k)
  with assms(1) show ?thesis by (auto intro!: live_step.loads load_now split: option.splits)
next
  case (Wait now choice)
  with assms(1) show ?thesis by (auto intro!: live_step.waits wait_now split: option.splits)
next
  case Hand
  with assms(1) show ?thesis
    by (auto intro!: live_step.hands sender_step.delivers split: list.splits)
next
  case (Use l)
  with assms(1) show ?thesis by (auto intro!: live_step.uses sender_now split: if_splits)
next
  case Forward
  with assms(1) show ?thesis by (auto intro!: live_step.forwards pipeline_step.sends split: list.splits if_splits)
next
  case (Confirmation c)
  with assms(1) show ?thesis by (auto intro!: live_step.confirms pipeline_now)
qed

text \<open>\<open>play ok cs ls s\<close>: the run that the schedule \<open>cs\<close> adds to \<open>ls\<close>, as long as the steps are \<open>ok\<close>.\<close>

fun play ::
    "'x triggerHook \<Rightarrow> 'a world_scheme task_manager_ops \<Rightarrow>
     (nat \<Rightarrow> 'a world_scheme \<Rightarrow> (task list \<times> go_error option) \<times> 'a world_scheme) \<Rightarrow>
     (live_label list \<Rightarrow> 'a world_scheme live \<Rightarrow> live_label \<Rightarrow> 'a world_scheme live \<Rightarrow> bool) \<Rightarrow>
     live_cmd list \<Rightarrow> live_label list \<Rightarrow> 'a world_scheme live \<Rightarrow> (live_label list \<times> 'a world_scheme live) option" where
  "play hook TM read ok [] ls s = Some (ls, s)"
| "play hook TM read ok (c # cs) ls s = (case do_now hook TM read c s of
      Some (l, s') \<Rightarrow> if ok ls s l s' then play hook TM read ok cs (ls @ [l]) s' else None
    | None \<Rightarrow> None)"

definition careful_now ::
    "'x triggerHook \<Rightarrow> ('w \<Rightarrow> string \<rightharpoonup> coll_row) \<Rightarrow> live_label list \<Rightarrow> 'w live \<Rightarrow> live_label \<Rightarrow> 'w live \<Rightarrow> bool" where
  "careful_now hook place ls s l s' = (case l of
      Uses c \<Rightarrow> proper_call (held (handle_calls ls)) c
    | Creates err t \<Rightarrow> list_all (\<lambda>l. case l of Deletes u e \<Rightarrow> u \<noteq> task_id t | _ \<Rightarrow> True) ls \<and>
        list_all (\<lambda>u. task_id u \<noteq> task_id t) (concat (map fst (results (live_pipeline s)))) \<and>
        (case place (live_world s') (task_id t) of None \<Rightarrow> True | Some c \<Rightarrow> coll_id c \<notin># unread_collections hook s)
    | _ \<Rightarrow> True)"

lemma careful_now: "careful_now hook place ls s l s' \<Longrightarrow> careful hook place ls s l s'"
  by (cases l) (fastforce simp: careful_now_def careful_def deleted_ids_def ids_def confirmed_def finished_tasks_def list_all_iff
      split: live_label.splits option.splits)+

lemma play_run:
  assumes "play hook TM read ok cs ls s = Some (ls', s')" "live_run hook TM read s0 ls s"
    "well_run (nat (workersCount (hook_preloadingService hook))) (live_bunch s)"
  shows "live_run hook TM read s0 ls' s'"
  using assms
proof (induction cs arbitrary: ls s)
  case (Cons c cs)
  then obtain l s1 where d: "do_now hook TM read c s = Some (l, s1)" "play hook TM read ok cs (ls @ [l]) s1 = Some (ls', s')"
    by (auto split: option.splits if_splits)
  have "live_step hook TM read s l s1" using d(1) Cons.prems(3) by (rule do_now)
  with Cons.IH [OF d(2)] Cons.prems(2,3) show ?case by (blast intro: live_run.step step_goes_well)
qed simp

lemma play_careful_run:
  assumes "play hook TM read (careful_now hook place) cs ls s = Some (ls', s')" "careful_run hook TM read place s0 ls s"
    "well_run (nat (workersCount (hook_preloadingService hook))) (live_bunch s)"
  shows "careful_run hook TM read place s0 ls' s'"
  using assms
proof (induction cs arbitrary: ls s)
  case (Cons c cs)
  then obtain l s1 where d: "do_now hook TM read c s = Some (l, s1)" "careful_now hook place ls s l s1"
    "play hook TM read (careful_now hook place) cs (ls @ [l]) s1 = Some (ls', s')" by (auto split: option.splits if_splits)
  have "live_step hook TM read s l s1" using d(1) Cons.prems(3) by (rule do_now)
  with Cons.IH [OF d(3)] careful_now [OF d(2)] Cons.prems(2,3) show ?case
    by (blast intro: careful_run.careful_step step_goes_well)
qed simp

lemma start_goes_well: "well_run n (live_bunch (live_start hook st))"
  by (simp add: live_start_def Let_def well_run_def bunch_start_def)

lemma well_run_of:
  "careful_run hook TM read place s0 ls s \<Longrightarrow> well_run (nat (workersCount (hook_preloadingService hook))) (live_bunch s0) \<Longrightarrow>
    well_run (nat (workersCount (hook_preloadingService hook))) (live_bunch s)"
  by (induction rule: careful_run.induct) (auto intro: step_goes_well)

end
