(* ===== verification/Live_Punctuality.thy ===== *)
theory Live_Punctuality
  imports Live_Invariants
begin

text \<open>
  In every run of an instance with proper use of the handles, a consumer gets a task only after the waiting
  service has read a clock at which the task is due.
\<close>

section \<open>Times in range\<close>

text \<open>
  \<open>due_by ls t\<close>: an iteration of the waiting service in \<open>ls\<close> has read a time, at its start or when its
  timer fired, at which \<open>t\<close> is due. \<open>punctual_clock\<close>: the readings are 64-bit nanoseconds. \<open>time_sane\<close>: the
  times of tasks are in the seconds of that range.
\<close>

definition due_by :: "live_label list \<Rightarrow> task \<Rightarrow> bool" where
  "due_by ls t \<longleftrightarrow> (\<exists>now choice at. Waits now choice \<in> set ls \<and> (at = now \<or> choice = TimerFires at) \<and> exec_time t \<le> Unix at)"

definition punctual_clock :: "live_label list \<Rightarrow> bool" where
  "punctual_clock ls \<longleftrightarrow> (\<forall>now choice. Waits now choice \<in> set ls \<longrightarrow> 0 < now \<and> now < 2 ^ 63)"

definition time_sane :: "unix_time \<Rightarrow> bool" where
  "time_sane e \<longleftrightarrow> 0 \<le> e \<and> e \<le> 9223372036"

definition created_sane :: "live_label list \<Rightarrow> bool" where
  "created_sane ls \<longleftrightarrow> (\<forall>err t. Creates err t \<in> set ls \<longrightarrow> time_sane (exec_time t))"

lemma due_by_more: "due_by ls t \<Longrightarrow> due_by (ls @ ls') t"
  by (fastforce simp: due_by_def)

section \<open>The invariant\<close>

text \<open>The tasks that have not been sent yet.\<close>

definition early :: "'x triggerHook \<Rightarrow> 'w live \<Rightarrow> task multiset" where
  "early hook s = deliveries (nat (workersCount (hook_preloadingService hook))) (live_bunch s) + live_adding s +
     tasks_in (tasksWaitingList (live_waiting s)) + mset (preloadedTasks (live_waiting s))"

definition punctual ::
    "'x triggerHook \<Rightarrow> ('w \<Rightarrow> bool) \<Rightarrow> ('w \<Rightarrow> string \<rightharpoonup> int64) \<Rightarrow> live_label list \<Rightarrow> 'w live \<Rightarrow> bool" where
  "punctual hook sound stored_in ls s \<longleftrightarrow> sound (live_world s) \<and> wf_list (tasksWaitingList (live_waiting s)) \<and>
     well_run (nat (workersCount (hook_preloadingService hook))) (live_bunch s) \<and>
     objects_ok (held (handle_calls ls)) (live_senders s) \<and>
     (\<forall>u e. stored_in (live_world s) u = Some e \<longrightarrow> time_sane e) \<and>
     (\<forall>t \<in># early hook s. time_sane (exec_time t)) \<and>
     (\<forall>(at, t) \<in> set (readyToSend (live_waiting s)). due_by ls t) \<and>
     (\<forall>t \<in># service_tasks (held (handle_calls ls)) (live_senders s). due_by ls t)"

lemma iteration_reading:
  assumes "waiting_iteration L limit now choice s = Some s'" "readyToSend s' = readyToSend s @ [(at, t)]"
  shows "at = now \<or> choice = TimerFires at"
proof -
  obtain task h where t: "op_Take L (tasksWaitingList s) = Some (task, h)"
    using assms(1) by (auto simp: waiting_iteration_def bind_eq_Some_conv)
  have sent: "b = at" if "send_ready b task (s\<lparr>tasksWaitingList := h\<rparr>) = Some s'" for b
    using that assms(2) by (auto simp: send_ready_def)
  show ?thesis
  proof (cases "0 < task_sleep now task")
    case False
    with assms(1) t sent [of now] show ?thesis by (simp add: waiting_iteration_def)
  next
    case sleeps: True
    show ?thesis
    proof (cases choice)
      case (TimerFires b)
      with assms(1) t sleeps sent [of b] show ?thesis by (simp add: waiting_iteration_def)
    qed (use assms t sleeps in \<open>auto simp: waiting_iteration_def Let_def bind_eq_Some_conv split: prod.splits\<close>)
  qed
qed

lemma sent_when_due:
  assumes wf: "wf_list (tasksWaitingList s)" and step: "waiting_step heap_ops limit s (Iterates now choice) s'"
    and now: "0 < now" "now < 2 ^ 63" and sane: "\<forall>t \<in># tasks_in (tasksWaitingList s). time_sane (exec_time t)"
    and sent: "(at, t) \<in> set (readyToSend s')" "(at, t) \<notin> set (readyToSend s)"
  shows "(at = now \<or> choice = TimerFires at) \<and> exec_time t \<le> Unix at"
proof -
  obtain task h where it: "op_Take heap_ops (tasksWaitingList s) = Some (task, h)"
    "0 < task_sleep now task \<longrightarrow> choice_ready (task_sleep now task) now choice s"
    "waiting_iteration heap_ops limit now choice s = Some s'" using step by (rule iterates_cases)
  from heap_list.iteration_sends [OF it] sent have t: "task = Some t" "readyToSend s' = readyToSend s @ [(at, t)]"
    "task_sleep now (Some t) \<le> 0 \<and> at = now \<or> 0 < task_sleep now (Some t) \<and> now + task_sleep now (Some t) \<le> at" by auto
  have "t \<in># tasks_in (tasksWaitingList s)" using heap_list.take_result(2) [OF wf it(1)] t(1) by simp
  then have s: "task_sleep now (Some t) = (exec_time t - Unix now) * second"
    using sane now by (intro sleep_exact) (auto simp: time_sane_def)
  from t(3) have "exec_time t \<le> Unix at"
  proof (elim disjE conjE)
    assume "task_sleep now (Some t) \<le> 0" "at = now"
    with s show ?thesis by (simp add: second_def mult_le_0_iff)
  next
    assume "now + task_sleep now (Some t) \<le> at"
    with s Unix_le [of now] have "exec_time t * second \<le> at" by (simp add: algebra_simps)
    then show ?thesis by (simp add: Unix_def second_def)
  qed
  with iteration_reading [OF it(3) t(2)] show ?thesis by simp
qed

lemma waited_tasks:
  assumes "wf_list (tasksWaitingList s)" "waiting_step heap_ops limit s (Iterates now choice) s'"
  shows "tasks_in (tasksWaitingList s') + mset (preloadedTasks s') \<subseteq># tasks_in (tasksWaitingList s) + mset (preloadedTasks s)"
proof -
  obtain task h where it: "op_Take heap_ops (tasksWaitingList s) = Some (task, h)"
    "0 < task_sleep now task \<longrightarrow> choice_ready (task_sleep now task) now choice s"
    "waiting_iteration heap_ops limit now choice s = Some s'" using assms(2) by (rule iterates_cases)
  have e: "heap_list.everything s' \<subseteq># heap_list.everything s"
    using heap_list.iteration_facts [OF assms(1) subset_UNIV it] by blast
  from heap_list.iteration_sends [OF it] obtain ys where "readyToSend s' = readyToSend s @ ys" by (metis append_Nil2)
  with e show ?thesis unfolding heap_list.everything_def
    by (simp add: ac_simps) (metis mset_subset_eq_add_left subset_mset.add_le_cancel_left subset_mset.order_trans union_assoc union_commute)
qed

section \<open>Every step keeps it\<close>

context placing_manager
begin

lemma stored_step:
  assumes s: "sound (live_world s)" and step: "live_step hook TM read s l s'" and u: "stored_in (live_world s') u = Some e"
  shows "stored_in (live_world s) u = Some e \<or> (\<exists>err t. l = Creates err t \<and> exec_time t = e)"
proof -
  have sub: "stored_in (live_world s) u = Some e" if "place (live_world s') \<subseteq>\<^sub>m place (live_world s)"
  proof -
    obtain c where c: "place (live_world s') u = Some c" "coll_exec c = e" using u by (auto simp: stored_place)
    with that have "place (live_world s) u = Some c" unfolding map_le_def by (metis domI)
    with c(2) show ?thesis by (simp add: stored_place)
  qed
  from step show ?thesis
  proof cases
    case (creates new_id t err t' out w)
    with creating(7) [OF s creates(3)] u show ?thesis by (auto split: if_splits)
  next
    case (deletes tid err out w)
    with deleting(2) [OF s deletes(3)] show ?thesis by (simp add: sub)
  next
    case (loads b)
    with reading [OF _ loads(3)] s show ?thesis by (simp add: sub)
  next
    case (uses c st)
    with sender_world [OF uses(3)] show ?thesis by (intro disjI1 sub) (auto simp: at_service_def place_env)
  next
    case (confirms p)
    with pipeline_world_step(2) [OF _ confirms(3)] s show ?thesis by (intro disjI1 sub) simp
  qed (use u searching(5) [OF s] in auto)
qed

lemma early_step:
  assumes s: "sound (live_world s)" and wf: "wf_list (tasksWaitingList (live_waiting s))"
    and run: "well_run (nat (workersCount (hook_preloadingService hook))) (live_bunch s)"
    and step: "live_step hook TM read s l s'" and t: "t \<in># early hook s'"
  shows "t \<in># early hook s \<or> (\<exists>err. l = Creates err t) \<or> (\<exists>u. stored_in (live_world s) u = Some (exec_time t))"
  using step
proof cases
  case (creates new_id t0 err t' out w)
  with creating(8) [OF s creates(3)] t show ?thesis by (auto simp: early_def)
next
  case (offers t0 ws)
  with t show ?thesis by (auto dest!: waiting_arrivals(1) in_diffD simp: early_def)
next
  case (cancels tid ws)
  with t show ?thesis by (auto dest!: waiting_arrivals(2) simp: early_def)
next
  case (finds ks w)
  with t show ?thesis by (auto simp: early_def bunch_start_moves)
next
  case (loads b)
  let ?n = "nat (workersCount (hook_preloadingService hook))" and ?b = "(live_bunch s)\<lparr>bunch_world := live_world s\<rparr>"
  have eq: "deliveries ?n ?b = deliveries ?n (live_bunch s)" by (simp add: deliveries_def)
  have run': "well_run ?n ?b" using run by simp
  show ?thesis
  proof (cases rule: bunch_moves [OF loads(3) run'])
    case (1 i ts w)
    from read_place [OF _ 1(1)] s have ts: "set ts = {t. \<exists>c. place (live_world s) (task_id t) = Some c \<and> exec_time t = coll_exec c \<and> coll_id c = i}"
      by simp
    have "t \<in># early hook s \<or> t \<in> set ts" using t loads(1,2) 1 eq by (auto simp: early_def)
    then show ?thesis
    proof
      assume "t \<in> set ts"
      then obtain c where "place (live_world s) (task_id t) = Some c" "exec_time t = coll_exec c" by (auto simp: ts)
      then have "stored_in (live_world s) (task_id t) = Some (exec_time t)" by (simp add: stored_place)
      then show ?thesis by blast
    qed simp
  next
    case (2 i)
    with t loads(1,2) eq show ?thesis by (auto simp: early_def)
  next
    case (3 ts)
    then have d: "deliveries ?n (live_bunch s) = deliveries ?n b + mset ts" by (simp add: eq)
    from t loads(1,2) 3(2) show ?thesis by (auto simp: early_def d)
  qed
next
  case (waits now choice ws)
  from waited_tasks [OF wf waits(3)] t waits(2) show ?thesis by (auto simp: early_def dest: mset_subset_eqD)
qed (use t in \<open>auto simp: early_def\<close>)

lemma punctual_kept:
  assumes ok: "punctual hook sound stored_in ls s" and step: "live_step hook TM read s l s'"
    and proper: "\<And>c. l = Uses c \<Longrightarrow> proper_call (held (handle_calls ls)) c"
    and sane: "punctual_clock (ls @ [l])" "created_sane (ls @ [l])"
  shows "punctual hook sound stored_in (ls @ [l]) s'"
proof -
  let ?H = "held (handle_calls ls)" and ?H' = "held (handle_calls (ls @ [l]))"
  have ok': "sound (live_world s)" "wf_list (tasksWaitingList (live_waiting s))"
    "well_run (nat (workersCount (hook_preloadingService hook))) (live_bunch s)" "objects_ok ?H (live_senders s)"
    "\<And>u e. stored_in (live_world s) u = Some e \<Longrightarrow> time_sane e" "\<And>t. t \<in># early hook s \<Longrightarrow> time_sane (exec_time t)"
    "\<And>at t. (at, t) \<in> set (readyToSend (live_waiting s)) \<Longrightarrow> due_by ls t" "\<And>t. t \<in># service_tasks ?H (live_senders s) \<Longrightarrow> due_by ls t"
    using ok by (auto simp: punctual_def)
  have "wf_list (tasksWaitingList (live_waiting s'))"
    using step by cases (use ok'(2) waiting_iterates(1) [OF ok'(2) subset_refl] in \<open>auto dest!: waiting_arrivals\<close>)
  moreover have "well_run (nat (workersCount (hook_preloadingService hook))) (live_bunch s')"
    using step ok'(3) by (rule step_goes_well)
  moreover have "objects_ok ?H' (live_senders s') \<and> (\<forall>t \<in># service_tasks ?H' (live_senders s'). due_by (ls @ [l]) t)"
    using step
  proof cases
    case (hands at t rest st)
    with step_objects_ok [OF hands(4) ok'(4)] ok'(7) [of at t] ok'(8) show ?thesis by (auto simp: delivered_def intro: due_by_more)
  next
    case (uses c st)
    from step_objects_ok [OF uses(3) _ proper [OF uses(1)]] ok'(4)
    have "objects_ok (held_after c ?H) st \<and> service_tasks (held_after c ?H) st = service_tasks ?H (live_senders s)"
      using uses(4) by (cases c) (simp_all add: delivered_def)
    with uses ok'(8) show ?thesis by (auto intro: due_by_more)
  next
    case (forwards t rest p)
    with ok'(4,8) show ?thesis by (auto simp: objects_ok_def at_service_def service_tasks_def intro: due_by_more)
  qed (use ok'(4,8) in \<open>auto intro: due_by_more\<close>)
  moreover have "time_sane e" if "stored_in (live_world s') u = Some e" for u e
    using stored_step [OF ok'(1) step that] ok'(5) sane(2) by (auto simp: created_sane_def)
  moreover have "time_sane (exec_time t)" if "t \<in># early hook s'" for t
    using early_step [OF ok'(1-3) step that] ok'(5,6) sane(2) by (auto simp: created_sane_def)
  moreover have "due_by (ls @ [l]) t" if t: "(at, t) \<in> set (readyToSend (live_waiting s'))" for at t
  proof (cases "(at, t) \<in> set (readyToSend (live_waiting s))")
    case True
    with ok'(7) show ?thesis by (blast intro: due_by_more)
  next
    case new: False
    from step show ?thesis
    proof cases
      case (waits now choice ws)
      have "0 < now" "now < 2 ^ 63" using sane(1) waits(1) by (auto simp: punctual_clock_def)
      moreover have "\<forall>t \<in># tasks_in (tasksWaitingList (live_waiting s)). time_sane (exec_time t)"
        using ok'(6) by (auto simp: early_def)
      ultimately have "(at = now \<or> choice = TimerFires at) \<and> exec_time t \<le> Unix at"
        using sent_when_due [OF ok'(2) waits(3) _ _ _ _ new] t waits(2) by simp
      with waits(1) show ?thesis by (auto simp: due_by_def)
    qed (use t new in \<open>auto dest!: waiting_arrivals\<close>)
  qed
  ultimately show ?thesis using world_step(1) [OF ok'(1) step] by (auto simp: punctual_def)
qed

end

section \<open>What is consumed\<close>

text \<open>The handles are used as the sender service asks for.\<close>

definition proper_handles :: "live_label list \<Rightarrow> bool" where
  "proper_handles ls \<longleftrightarrow> (\<forall>pre c post. ls = pre @ Uses c # post \<longrightarrow> proper_call (held (handle_calls pre)) c)"

lemma run_prefix: "live_run hook TM read s0 (ls @ ls') s \<Longrightarrow> \<exists>s1. live_run hook TM read s0 ls s1"
proof (induction ls' arbitrary: s rule: rev_induct)
  case (snoc l ls')
  from snoc.prems obtain s2 where "live_run hook TM read s0 (ls @ ls') s2" by (cases rule: live_run.cases) auto
  with snoc.IH show ?case by blast
qed auto

lemma run_step:
  assumes "live_run hook TM read s0 (pre @ l # post) s"
  obtains s1 s2 where "live_run hook TM read s0 pre s1" "live_step hook TM read s1 l s2"
proof -
  obtain s2 where "live_run hook TM read s0 (pre @ [l]) s2" using run_prefix [of hook TM read s0 "pre @ [l]" post s] assms by auto
  then show thesis using that by (cases rule: live_run.cases) auto
qed

lemma consumed_task:
  assumes "sender_step st (Consumes k a t) st'" "objects_ok H st" "proper_call H (Consumes k a t)"
  shows "t \<in># service_tasks H st"
proof -
  have "service_tasks (add_mset a H) st' = service_tasks H st"
    using step_objects_ok [OF assms] by (simp add: delivered_def)
  moreover have "task_of (objects st') a = t" using assms(1) by cases (simp_all add: consume_end_def at_service_def)
  ultimately show ?thesis by (metis service_tasks_def image_mset_add_mset union_iff union_single_eq_member)
qed

context placing_manager
begin

lemma punctual_runs:
  assumes "live_run hook TM read s0 ls s" "punctual hook sound stored_in [] s0"
    and "proper_handles ls" "punctual_clock ls" "created_sane ls"
  shows "punctual hook sound stored_in ls s"
  using assms
proof (induction rule: live_run.induct)
  case (step ls s l s')
  have "proper_handles ls" "punctual_clock ls" "created_sane ls"
    using step.prems(2-4) by (auto simp: proper_handles_def punctual_clock_def created_sane_def)
  moreover have "proper_call (held (handle_calls ls)) c" if "l = Uses c" for c
    using step.prems(2) that by (auto simp: proper_handles_def)
  ultimately show ?case using punctual_kept [OF _ step.hyps(2)] step.IH step.prems(1,3,4) by blast
qed simp

theorem consumed_when_due:
  assumes run: "live_run hook TM read s0 (pre @ Uses (Consumes k a t) # post) s" and s0: "punctual hook sound stored_in [] s0"
    and "proper_handles (pre @ Uses (Consumes k a t) # post)" "punctual_clock (pre @ Uses (Consumes k a t) # post)"
      "created_sane (pre @ Uses (Consumes k a t) # post)"
  shows "due_by pre t"
proof -
  obtain s1 s2 where s: "live_run hook TM read s0 pre s1" "live_step hook TM read s1 (Uses (Consumes k a t)) s2"
    by (rule run_step [OF run])
  have "proper_handles pre" "punctual_clock pre" "created_sane pre"
    using assms(3-5) by (auto simp: proper_handles_def punctual_clock_def created_sane_def)
  note p = punctual_runs [OF s(1) s0 this, unfolded punctual_def]
  have call: "proper_call (held (handle_calls pre)) (Consumes k a t)" using assms(3) unfolding proper_handles_def by blast
  from s(2) obtain st where "sender_step (at_service 0 (\<lambda>v. v\<lparr>service_world := live_world s1\<rparr>) (live_senders s1)) (Consumes k a t) st"
    by cases blast
  from consumed_task [OF this _ call] p show ?thesis by simp
qed

end

lemma careful_is_proper: "careful_run hook TM read place s0 ls s \<Longrightarrow> proper_handles ls"
proof (induction rule: careful_run.induct)
  case careful_start
  then show ?case by (simp add: proper_handles_def)
next
  case (careful_step ls s l s')
  show ?case unfolding proper_handles_def
  proof (intro allI impI)
    fix pre c post assume split: "ls @ [l] = pre @ Uses c # post"
    show "proper_call (held (handle_calls pre)) c"
    proof (cases post rule: rev_cases)
      case Nil
      with split careful_step.hyps(3) show ?thesis by (simp add: careful_def)
    next
      case (snoc post' x)
      with split have "ls = pre @ Uses c # post'" by simp
      with careful_step.IH show ?thesis by (auto simp: proper_handles_def)
    qed
  qed
qed

end
