(* ===== verification/Live_Properties.thy ===== *)
theory Live_Properties
  imports Live_Schedules Live_Punctuality
begin

text \<open>
  What a running instance promises to its users, in every interleaving of its goroutines and of their
  calls and whatever calls of the database fail; and a sequence of calls that it does not survive. The
  theorems are those of theory Live_Invariants for the instance that \<open>Build\<close> returns on MySQL.
\<close>

section \<open>A built instance\<close>

lemma built_id: "Build G sql_Open ping my newId n config w st = Some (hook, st') \<Longrightarrow> appInstanceId (hook_repository hook) = newId"
  by (erule Build_parts)
    (auto simp: repository_New_def bind_eq_Some_conv Let_def dest!: arg_cong [where f = appInstanceId] split: option.splits)

lemma built_start:
  assumes b: "Build G sql_Open ping my newId 0 config w (no_senders v) = Some (hook, st)"
  shows "live_waiting (live_start hook st) = waiting_start (NewPrioritizedTask [])" "live_senders (live_start hook st) = st"
    "objects_ok {#} st" "service_tasks {#} st = {#}"
proof -
  obtain mo w1 w2 w3 where p: "waiting_New (merge_waiting G) (Some (WaitingServiceOptions config)) w2 = Some (hook_waitingService hook, w3)"
    "sender_New (merge_sender G) (Some (SenderServiceOptions config)) 0 w3 (no_senders v) = Some (hook_senderService hook, st)"
    by (rule Build_parts [OF b]) blast
  have "snd (hook_waitingService hook) = waiting_start (NewPrioritizedTask [])"
    using p(1) by (auto simp: waiting_New_def bind_eq_Some_conv Let_def dest!: arg_cong [where f = snd])
  then show "live_waiting (live_start hook st) = waiting_start (NewPrioritizedTask [])" "live_senders (live_start hook st) = st"
    by (simp_all add: live_start_def Let_def)
  show "objects_ok {#} st" "service_tasks {#} st = {#}" using start_objects_ok [OF p(2)] by simp_all
qed

lemma built_instance:
  fixes hook :: "'x triggerHook" and w v :: "'a repo_world_scheme"
  assumes b: "Build G sql_Open ping my newId 0 config w (no_senders v) = Some (hook, st)"
    and w: "repo_sound (hook_repository hook) my (live_world (live_start hook st))" "newId \<noteq> []"
      "\<forall>u c. task_places (live_world (live_start hook st)) u = Some c \<longrightarrow> coll_taken c \<noteq> newId"
    and opts: "1 \<le> maxRetry (hook_taskManager hook)" "1 \<le> workersCount (hook_preloadingService hook)"
    and run: "careful_run hook (hook_TM hook my uuid_ok) (getTasksByCollection my) task_places (live_start hook st) ls s"
  shows "parts_ok hook (\<lambda>w. repo_sound (hook_repository hook) my w) task_places ls s"
    "fatal ls s \<or> account_ok hook task_places newId ls s"
proof -
  have me: "appInstanceId (hook_repository hook) = newId" by (rule built_id [OF b])
  let ?sound = "\<lambda>w. repo_sound (hook_repository hook) my w \<and> 1 \<le> maxRetry (hook_taskManager hook) \<and> appInstanceId (hook_repository hook) \<noteq> []"
  have s0: "?sound (live_world (live_start hook st))" using w(1,2) opts(1) me by simp
  note start = built_start [OF b]
  note i = mysql_places.instance_starts [OF s0 _ start(1) _ _ refl, unfolded me start(2), OF w(3) [rule_format] start(3,4)]
  note r = mysql_places.careful_runs [OF run [unfolded hook_TM_def] i [unfolded me [symmetric]] opts(2)]
  from r show "parts_ok hook (\<lambda>w. repo_sound (hook_repository hook) my w) task_places ls s"
    by (simp add: parts_ok_def)
  from r show "fatal ls s \<or> account_ok hook task_places newId ls s" by (simp add: me)
qed

section \<open>Properties\<close>

text \<open>
  C2: A running instance loses, repeats and makes up no task. In every run with careful use (the
  handles used properly, no id created again after a deletion or a confirmation of it, no task created
  into a collection that a pass has taken and not yet read), until a search, the reading of a
  collection or a confirmation fails: every id is at most once among the tasks in flight and
  confirmed, all parts of the instance taken together; a task in flight is in the database with the
  same time, unless a call has tried to delete it; a confirmed task is not in the database; and a task
  in a collection of the instance is still to be read with its collection, or is in flight, or its
  creation has reported a failure.
\<close>

theorem instance_executes_once:
  fixes hook :: "'x triggerHook" and w v :: "'a repo_world_scheme"
  assumes "Build G sql_Open ping my newId 0 config w (no_senders v) = Some (hook, st)"
    and "repo_sound (hook_repository hook) my (live_world (live_start hook st))" "newId \<noteq> []"
      "\<forall>u c. task_places (live_world (live_start hook st)) u = Some c \<longrightarrow> coll_taken c \<noteq> newId"
    and "1 \<le> maxRetry (hook_taskManager hook)" "1 \<le> workersCount (hook_preloadingService hook)"
    and "careful_run hook (hook_TM hook my uuid_ok) (getTasksByCollection my) task_places (live_start hook st) ls s"
    and "\<not> fatal ls s"
  defines "F \<equiv> in_flight hook (held (handle_calls ls)) s"
  shows "(\<forall>u. count (image_mset task_id (F + confirmed s)) u \<le> 1) \<and>
    (\<forall>t \<in># F. case stored_tasks (live_world s) (task_id t) of
        None \<Rightarrow> task_id t \<in> deleted_ids ls | Some e \<Rightarrow> e = exec_time t) \<and>
    (\<forall>t \<in># confirmed s. stored_tasks (live_world s) (task_id t) = None) \<and>
    (\<forall>u c. task_places (live_world s) u = Some c \<and> coll_taken c = newId \<longrightarrow>
        coll_id c \<in># unread_collections hook s \<or> u \<in> ids F \<or> u \<in> failed_ids ls)"
proof -
  have "account_ok hook task_places newId ls s" using built_instance(2) [OF assms(1-7)] assms(8) by blast
  note ok = this [unfolded account_ok_def, folded F_def]
  have stored: "stored_tasks (live_world s) u = map_option coll_exec (task_places (live_world s) u)" for u
    using mysql_places.stored_place by metis
  have "case stored_tasks (live_world s) (task_id t) of None \<Rightarrow> task_id t \<in> deleted_ids ls | Some e \<Rightarrow> e = exec_time t"
    if "t \<in># F" for t
    using tasks_okD(3,4) [OF ok that] by (auto simp: stored split: option.split)
  moreover have "stored_tasks (live_world s) (task_id t) = None" if "t \<in># confirmed s" for t
    using tasks_okD(5) [OF ok in_ids [OF that]] by (simp add: stored)
  ultimately show ?thesis
    using tasks_okD(1) [OF ok, unfolded distinct_ids_count] tasks_okD(6) [OF ok] by blast
qed

lemma idle_missed_nothing:
  fixes hook :: "'x triggerHook" and w v :: "'a repo_world_scheme"
  assumes "Build G sql_Open ping my newId 0 config w (no_senders v) = Some (hook, st)"
    and "repo_sound (hook_repository hook) my (live_world (live_start hook st))" "newId \<noteq> []"
      "\<forall>u c. task_places (live_world (live_start hook st)) u = Some c \<longrightarrow> coll_taken c \<noteq> newId"
    and "1 \<le> maxRetry (hook_taskManager hook)" "1 \<le> workersCount (hook_preloadingService hook)"
    and "careful_run hook (hook_TM hook my uuid_ok) (getTasksByCollection my) task_places (live_start hook st) ls s"
    and "\<not> fatal ls s" "failed_ids ls = {}" "in_flight hook (held (handle_calls ls)) s = {#}"
    and "outcomes (live_world s) = []" "live_step hook (hook_TM hook my uuid_ok) (getTasksByCollection my) s Sleeps s'"
  shows "stored_tasks (live_world s) u = Some e \<Longrightarrow>
    Unix (clock (live_world s) (clock_reads (live_world s)) + timePreload (hook_preloadingService hook)) < e"
proof (rule ccontr)
  let ?w = "live_world s" and ?r = "hook_repository hook" and ?p = "hook_preloadingService hook"
  let ?T = "Unix (clock ?w (clock_reads ?w) + timePreload ?p)"
  assume u: "stored_tasks ?w u = Some e" and "\<not> ?T < e"
  note parts = built_instance(1) [OF assms(1-7)]
  then have s: "repo_sound ?r my ?w" by (simp add: parts_ok_def)
  have ok: "account_ok hook task_places newId ls s" using built_instance(2) [OF assms(1-7)] assms(8) by blast
  obtain c where c: "task_places ?w u = Some c" "coll_exec c = e"
    using u mysql_places.stored_place by (metis map_option_eq_Some)
  have "bunch_over (live_bunch s)" using assms(12) by cases auto
  then have "unread_collections hook s = {#}" unfolding unread_collections_def
    by (rule bunch_over_moves) (use parts assms(6,8) in \<open>auto simp: parts_ok_def\<close>)
  then have "coll_taken c \<noteq> newId"
    using tasks_okD(6) [OF ok [unfolded account_ok_def assms(9,10)] c(1)] by (auto simp: ids_def)
  moreover have "appInstanceId ?r = newId" using built_id [OF assms(1)] .
  moreover have "c \<in> set (coll_rows (database ?w))"
    using c(1) s by (auto simp: task_places_def home_def repo_sound_def coll_map_Some bind_eq_Some_conv)
  ultimately have "c \<in> set (due (database ?w) ?T newId)" using \<open>\<not> ?T < e\<close> c(2) by (simp add: due_def)
  moreover have "found_by ?r my (timePreload ?p) ?w = []"
    using assms(12) quiet_Run_pass [OF assms(11,5), of ?p ?r my uuid_ok] 
    by cases (auto simp: hook_TM_def split: if_splits)
  ultimately show False
    using sql_find_collections_ok(1) [of "database ?w" my ?T newId] s \<open>appInstanceId ?r = newId\<close>
    by (auto simp: found_by_def repo_sound_def)
qed

text \<open>
  C3: An idle instance has missed nothing: when the instance of the last theorem has no task in flight,
  no creation has failed, and its next search, with a database that answers, finds
  nothing and lets the preloader sleep, then no task at all in the database is due within the
  preloading time, whatever instance had taken it.
\<close>

theorem idle_instance_missed_nothing:
  fixes hook :: "'x triggerHook" and w v :: "'a repo_world_scheme"
  assumes "Build G sql_Open ping my newId 0 config w (no_senders v) = Some (hook, st)"
    and "repo_sound (hook_repository hook) my (live_world (live_start hook st))" "newId \<noteq> []"
      "\<forall>u c. task_places (live_world (live_start hook st)) u = Some c \<longrightarrow> coll_taken c \<noteq> newId"
    and "1 \<le> maxRetry (hook_taskManager hook)" "1 \<le> workersCount (hook_preloadingService hook)"
    and "careful_run hook (hook_TM hook my uuid_ok) (getTasksByCollection my) task_places (live_start hook st) ls s"
    and "\<not> fatal ls s" "failed_ids ls = {}" "in_flight hook (held (handle_calls ls)) s = {#}"
    and "outcomes (live_world s) = []" "live_step hook (hook_TM hook my uuid_ok) (getTasksByCollection my) s Sleeps s'"
  shows "stored_tasks (live_world s) u = Some e \<Longrightarrow>
    Unix (clock (live_world s) (clock_reads (live_world s)) + timePreload (hook_preloadingService hook)) < e"
  using assms by (rule idle_missed_nothing)

lemma stays_stored:
  fixes s0 :: "'a repo_world_scheme live"
  assumes "live_run hook (hook_TM hook my uuid_ok) (getTasksByCollection my) s0 ls s"
    and "repo_sound (hook_repository hook) my (live_world s0)" "1 \<le> maxRetry (hook_taskManager hook)"
      "appInstanceId (hook_repository hook) \<noteq> []"
    and "stored_tasks (live_world s0) u = Some e \<or> (\<exists>t. Creates None t \<in> set ls \<and> task_id t = u \<and> exec_time t = e)"
  shows "stored_tasks (live_world s) u = Some e \<or> u \<in> deleted_ids ls \<or> u \<in> ids (confirmed s)"
  using mysql_places.stored_until_deleted_or_confirmed [OF assms(1) [unfolded hook_TM_def]] assms(2-5) by blast

text \<open>
  C4: The system is durable to failures. An instance may run in any way, with any failures and any use
  of its handles, and stop at any moment; another one is built on the database that it leaves, and is
  used with care until it is idle and its search finds nothing, with no fatal failure. Then every task
  that was stored at the start, or whose creation in the first run was successful, and that is due by
  then and nobody has tried to delete, has been confirmed by a consumer of one of the two.
\<close>

theorem restart_loses_no_task:
  fixes hook1 :: "'x triggerHook" and hook2 :: "'y triggerHook" and w v :: "'a repo_world_scheme"
    and s0 s1 :: "'b repo_world_scheme live"
  assumes "live_run hook1 (hook_TM hook1 my uuid_ok) (getTasksByCollection my) s0 ls1 s1"
      "repo_sound (hook_repository hook1) my (live_world s0)" "1 \<le> maxRetry (hook_taskManager hook1)"
      "appInstanceId (hook_repository hook1) \<noteq> []"
    and built: "Build G sql_Open ping my newId 0 config w (no_senders v) = Some (hook2, st)"
      "database (live_world (live_start hook2 st)) = database (live_world s1)"
      "repo_sound (hook_repository hook2) my (live_world (live_start hook2 st))" "newId \<noteq> []"
      "\<forall>u c. task_places (live_world s1) u = Some c \<longrightarrow> coll_taken c \<noteq> newId"
      "1 \<le> maxRetry (hook_taskManager hook2)" "1 \<le> workersCount (hook_preloadingService hook2)"
    and run: "careful_run hook2 (hook_TM hook2 my uuid_ok) (getTasksByCollection my) task_places (live_start hook2 st) ls2 s2"
      "\<not> fatal ls2 s2" "failed_ids ls2 = {}" "in_flight hook2 (held (handle_calls ls2)) s2 = {#}"
      "outcomes (live_world s2) = []" "live_step hook2 (hook_TM hook2 my uuid_ok) (getTasksByCollection my) s2 Sleeps s'"
    and "stored_tasks (live_world s0) u = Some e \<or> (\<exists>t. Creates None t \<in> set ls1 \<and> task_id t = u \<and> exec_time t = e)"
      "u \<notin> deleted_ids ls1 \<union> deleted_ids ls2"
      "e \<le> Unix (clock (live_world s2) (clock_reads (live_world s2)) + timePreload (hook_preloadingService hook2))"
  shows "u \<in> ids (confirmed s1 + confirmed s2)"
proof (rule ccontr)
  assume not: "u \<notin> ids (confirmed s1 + confirmed s2)"
  then have "stored_tasks (live_world s1) u = Some e"
    using stays_stored [OF assms(1-4,18)] assms(19) by auto
  then have "stored_tasks (live_world (live_start hook2 st)) u = Some e" using built(2) by (simp add: stored_tasks_def)
  moreover have "appInstanceId (hook_repository hook2) \<noteq> []" using built_id [OF built(1)] built(4) by simp
  ultimately have "stored_tasks (live_world s2) u = Some e"
    using stays_stored [OF careful_is_run [OF run(1)] built(3,6), of u e] not assms(19) by auto
  moreover have "\<forall>u c. task_places (live_world (live_start hook2 st)) u = Some c \<longrightarrow> coll_taken c \<noteq> newId"
    using built(2,5) by (simp add: task_places_def)
  ultimately show False
    using idle_missed_nothing [OF built(1,3,4) _ built(6,7) run, of u e] assms(20) by simp
qed

text \<open>
  C5: No consumer gets a task early. In every run of the instance in which the handles are used
  properly, whatever else is done and whatever fails, a task that \<open>Consume\<close> returns is one for which the
  waiting service has before read a time, at the start of an iteration or when its timer fired, at
  which the task was due; provided that the readings are positive 64-bit nanoseconds and all times of
  tasks are in the range of these.
\<close>

theorem no_task_is_consumed_early:
  fixes hook :: "'x triggerHook" and w v :: "'a repo_world_scheme"
  assumes "Build G sql_Open ping my newId 0 config w (no_senders v) = Some (hook, st)"
    and "repo_sound (hook_repository hook) my (live_world (live_start hook st))" "newId \<noteq> []" "1 \<le> maxRetry (hook_taskManager hook)"
      "\<forall>u e. stored_tasks (live_world (live_start hook st)) u = Some e \<longrightarrow> time_sane e"
    and "live_run hook (hook_TM hook my uuid_ok) (getTasksByCollection my) (live_start hook st)
       (pre @ Uses (Consumes k a t) # post) s"
    and "proper_handles (pre @ Uses (Consumes k a t) # post)" "punctual_clock (pre @ Uses (Consumes k a t) # post)"
      "created_sane (pre @ Uses (Consumes k a t) # post)"
  shows "\<exists>now choice at. Waits now choice \<in> set pre \<and> (at = now \<or> choice = TimerFires at) \<and> exec_time t \<le> Unix at"
proof -
  let ?sound = "\<lambda>w. repo_sound (hook_repository hook) my w \<and> 1 \<le> maxRetry (hook_taskManager hook) \<and> appInstanceId (hook_repository hook) \<noteq> []"
  note start = built_start [OF assms(1)]
  have "early hook (live_start hook st) = {#}" "readyToSend (live_waiting (live_start hook st)) = []"
    by (simp_all add: early_def start(1)) (simp_all add: live_start_def Let_def bunch_start_moves waiting_start_def NewPrioritizedTask_facts)
  then have "punctual hook ?sound stored_tasks [] (live_start hook st)"
    using assms(2-5) built_id [OF assms(1)] start start_goes_well
    by (simp add: punctual_def handle_calls_def waiting_start_def NewPrioritizedTask_facts)
  from mysql_places.consumed_when_due [OF assms(6) [unfolded hook_TM_def] this assms(7-9)]
  show ?thesis by (simp add: due_by_def)
qed

section \<open>Witnesses\<close>

text \<open>The sample database at \<open>T\<close> seconds, and the instance \<open>me\<close> with the default options on it.\<close>

definition timed_world :: "unix_time \<Rightarrow> repo_world" where
  "timed_world T = (sample_world [])\<lparr>clock := \<lambda>_. T * second\<rparr>"

definition sample_build :: "unix_time \<Rightarrow> (unit triggerHook \<times> repo_world senders) option" where
  "sample_build T = Build standard_mergo Some (\<lambda>_. True) example_mysql ''me'' 0 zero_config (timed_world T) (no_senders (timed_world T))"

abbreviation sample_TM :: "unit triggerHook \<Rightarrow> repo_world task_manager_ops" where
  "sample_TM hook \<equiv> hook_TM hook example_mysql (\<lambda>_. True)"

definition starts_well :: "unit triggerHook \<Rightarrow> repo_world senders \<Rightarrow> bool" where
  "starts_well hook st \<longleftrightarrow> maxRetry (hook_taskManager hook) = 3 \<and> workersCount (hook_preloadingService hook) = 10 \<and>
     timePreload (hook_preloadingService hook) = 5 * second \<and> CleaningFrequency (hook_repository hook) = 10 \<and>
     database (service_world (services st 0)) = sample_database \<and> outcomes (service_world (services st 0)) = []"

definition no_failures :: "live_label list \<Rightarrow> bool" where
  "no_failures ls \<longleftrightarrow> list_all (\<lambda>l. case l of SearchFails \<Rightarrow> False | Loads gone \<Rightarrow> gone = [] | _ \<Rightarrow> True) ls"

definition sane_times :: "live_label list \<Rightarrow> bool" where
  "sane_times ls \<longleftrightarrow> ls \<noteq> [] \<and> list_all (\<lambda>l. case l of Waits now choice \<Rightarrow> 0 < now \<and> now < 2 ^ 63
     | Creates err t \<Rightarrow> 0 \<le> exec_time t \<and> exec_time t \<le> 9223372036 | _ \<Rightarrow> True) ls"

lemma sane_times: "sane_times ls \<Longrightarrow> punctual_clock ls \<and> created_sane ls"
  by (fastforce simp: sane_times_def punctual_clock_def created_sane_def time_sane_def list_all_iff)

lemma no_failures: "no_failures ls \<Longrightarrow> results (live_pipeline s) = [] \<Longrightarrow> \<not> fatal ls s"
  by (auto simp: no_failures_def fatal_def list_all_iff split: live_label.splits)

lemma started_sound:
  assumes "starts_well hook st"
  shows "repo_sound (hook_repository hook) example_mysql (live_world (live_start hook st))"
    "\<forall>u c. task_places (live_world (live_start hook st)) u = Some c \<longrightarrow> coll_taken c \<noteq> ''me''"
    "1 \<le> maxRetry (hook_taskManager hook)" "1 \<le> workersCount (hook_preloadingService hook)"
proof -
  have "coll_taken c \<noteq> ''me''" if "home sample_database u = Some c" for u c
    using that by (auto simp: home_def bind_eq_Some_conv coll_map_Some) (auto simp: sample_database_def)
  then show "\<forall>u c. task_places (live_world (live_start hook st)) u = Some c \<longrightarrow> coll_taken c \<noteq> ''me''"
    using assms by (simp add: starts_well_def live_start_def Let_def task_places_def)
qed (use assms in \<open>simp_all add: starts_well_def live_start_def Let_def repo_sound_def wrap32_def\<close>)

text \<open>The task of the database from the search to the consumer, and another one that is created meanwhile.\<close>

definition delivery_schedule :: "live_cmd list" where
  "delivery_schedule = [Search, Load 0, Load 1, Load 0, Load 1, Load 1, Load 1, Load 0,
     Wait (49 * second) (GetsTask sample_task 0), Wait (49 * second) (TimerFires (50 * second)), Hand,
     Create ''n'' \<lparr>task_id = [], exec_time = 51\<rparr>, Use (ConsumeStarts 0 1), Use (Consumes 0 1 sample_task)]"

lemma sample_delivery:
  "case sample_build 48 of None \<Rightarrow> False | Some (hook, st) \<Rightarrow> starts_well hook st \<and>
    (case play hook (sample_TM hook) (getTasksByCollection example_mysql) (careful_now hook task_places)
       delivery_schedule [] (live_start hook st) of None \<Rightarrow> False
     | Some (ls, s) \<Rightarrow> no_failures ls \<and> results (live_pipeline s) = [] \<and> last ls = Uses (Consumes 0 1 sample_task) \<and>
         sane_times ls)"
  by code_simp

definition idle_schedule :: "live_cmd list" where
  "idle_schedule = [Create ''n'' \<lparr>task_id = [], exec_time = 1000\<rparr>]"

definition idle_end :: "unit triggerHook \<Rightarrow> live_label list \<Rightarrow> repo_world live \<Rightarrow> bool" where
  "idle_end hook ls s \<longleftrightarrow> no_failures ls \<and> results (live_pipeline s) = [] \<and> ls = [Creates None \<lparr>task_id = ''n'', exec_time = 1000\<rparr>] \<and>
     outcomes (live_world s) = [] \<and> in_flight hook {#} s = {#} \<and> stored_tasks (live_world s) ''n'' = Some 1000 \<and>
     clock (live_world s) (clock_reads (live_world s)) = 0 \<and>
     map_option fst (do_now hook (sample_TM hook) (getTasksByCollection example_mysql) Search s) = Some Sleeps"

lemma sample_idle:
  "case sample_build 0 of None \<Rightarrow> False | Some (hook, st) \<Rightarrow> starts_well hook st \<and>
    (case play hook (sample_TM hook) (getTasksByCollection example_mysql) (careful_now hook task_places)
       idle_schedule [] (live_start hook st) of None \<Rightarrow> False
     | Some (ls, s) \<Rightarrow> idle_end hook ls s)"
  by code_simp

lemma play_from_start:
  assumes "play hook TM read (careful_now hook place) cs [] (live_start hook st) = Some (ls, s)"
  shows "careful_run hook TM read place (live_start hook st) ls s"
  using assms careful_run.careful_start start_goes_well by (rule play_careful_run)

theorem instance_executes_once_witness:
  "\<exists>hook st ls s. sample_build 48 = Some (hook, st) \<and>
     careful_run hook (sample_TM hook) (getTasksByCollection example_mysql) task_places (live_start hook st) ls s \<and>
     last ls = Uses (Consumes 0 1 sample_task) \<and>
     (\<forall>u. count (image_mset task_id (in_flight hook (held (handle_calls ls)) s + confirmed s)) u \<le> 1)"
proof -
  obtain hook st ls s where b: "sample_build 48 = Some (hook, st)" "starts_well hook st"
    "play hook (sample_TM hook) (getTasksByCollection example_mysql) (careful_now hook task_places)
       delivery_schedule [] (live_start hook st) = Some (ls, s)"
    and ls: "no_failures ls" "results (live_pipeline s) = []" "last ls = Uses (Consumes 0 1 sample_task)" "sane_times ls"
    using some_pair [OF sample_delivery] some_pair by blast
  note run = play_from_start [OF b(3)] and w = started_sound [OF b(2)] and f = no_failures [OF ls(1,2)]
  from instance_executes_once [OF b(1) [unfolded sample_build_def] w(1) _ w(2-4) run f] b(1) run ls(3)
  show ?thesis by blast
qed

theorem idle_instance_missed_nothing_witness:
  "\<exists>hook st s. sample_build 0 = Some (hook, st) \<and>
     careful_run hook (sample_TM hook) (getTasksByCollection example_mysql) task_places (live_start hook st)
       [Creates None \<lparr>task_id = ''n'', exec_time = 1000\<rparr>] s \<and>
     stored_tasks (live_world s) ''n'' = Some 1000 \<and> Unix (0 + 5 * second) < 1000"
proof -
  obtain hook st ls s where b: "sample_build 0 = Some (hook, st)" "starts_well hook st"
    "play hook (sample_TM hook) (getTasksByCollection example_mysql) (careful_now hook task_places)
       idle_schedule [] (live_start hook st) = Some (ls, s)"
    and e: "idle_end hook ls s"
    using some_pair [OF sample_idle] by (elim exE conjE) (drule some_pair, elim exE conjE, rule that)
  have ls: "no_failures ls" "results (live_pipeline s) = []" "ls = [Creates None \<lparr>task_id = ''n'', exec_time = 1000\<rparr>]"
      "outcomes (live_world s) = []" "in_flight hook {#} s = {#}" "stored_tasks (live_world s) ''n'' = Some 1000"
      "clock (live_world s) (clock_reads (live_world s)) = 0"
    and "map_option fst (do_now hook (sample_TM hook) (getTasksByCollection example_mysql) Search s) = Some Sleeps"
    using e unfolding idle_end_def by blast+
  then obtain s' where s': "do_now hook (sample_TM hook) (getTasksByCollection example_mysql) Search s = Some (Sleeps, s')"
    unfolding map_option_eq_Some by force
  note run = play_from_start [OF b(3)] and w = started_sound [OF b(2)] and f = no_failures [OF ls(1,2)]

  have "well_run (nat (workersCount (hook_preloadingService hook))) (live_bunch s)"
    by (rule well_run_of [OF run start_goes_well])
  from do_now [OF s' this] have sleeps: "live_step hook (sample_TM hook) (getTasksByCollection example_mysql) s Sleeps s'" .
  have "failed_ids ls = {}" "in_flight hook (held (handle_calls ls)) s = {#}"
    using ls(5) by (simp_all add: ls(3) failed_ids_def handle_calls_def)
  from idle_instance_missed_nothing [OF b(1) [unfolded sample_build_def] w(1) _ w(2-4) run f this ls(4) sleeps ls(6)]
  show ?thesis using b(1,2) run ls by (auto simp: starts_well_def)
qed

section \<open>Why careful use is asked for\<close>

definition racing_schedule :: "live_cmd list" where
  "racing_schedule = [Search, Create ''n'' \<lparr>task_id = [], exec_time = 50\<rparr>, Load 0, Load 1, Load 1, Load 1, Load 1,
     Offer \<lparr>task_id = ''n'', exec_time = 50\<rparr>]"

definition racing_end :: "live_label list \<Rightarrow> repo_world live \<Rightarrow> bool" where
  "racing_end ls s \<longleftrightarrow> no_failures ls \<and> results (live_pipeline s) = [] \<and>
     ls = [Finds [2, 1], Creates None \<lparr>task_id = ''n'', exec_time = 50\<rparr>] @ replicate 5 (Loads []) @ [Offers \<lparr>task_id = ''n'', exec_time = 50\<rparr>] \<and>
     preloadedTasks (live_waiting s) = [\<lparr>task_id = ''n'', exec_time = 50\<rparr>, sample_task, \<lparr>task_id = ''n'', exec_time = 50\<rparr>]"

lemma sample_race:
  "case sample_build 48 of None \<Rightarrow> False | Some (hook, st) \<Rightarrow> starts_well hook st \<and>
    (case play hook (sample_TM hook) (getTasksByCollection example_mysql) (\<lambda>_ _ _ _. True)
       racing_schedule [] (live_start hook st) of None \<Rightarrow> False | Some (ls, s) \<Rightarrow> racing_end ls s)"
  by code_simp

text \<open>
  C35: A task can be sent to the waiting service twice, although every call succeeds: when it is created
  with the execution time of a collection that the preloader has just taken for the instance and not
  yet read, \<open>Create\<close> puts it into that collection and sends it at once, and the preloader then reads it
  from the collection and sends it again. Nobody who calls \<open>Create\<close> can see that this is the case.
\<close>

theorem created_task_is_sent_twice:
  "\<exists>hook st ls s. sample_build 48 = Some (hook, st) \<and>
     live_run hook (sample_TM hook) (getTasksByCollection example_mysql) (live_start hook st) ls s \<and> \<not> fatal ls s \<and>
     filter (\<lambda>l. case l of Creates err t \<Rightarrow> True | _ \<Rightarrow> False) ls = [Creates None \<lparr>task_id = ''n'', exec_time = 50\<rparr>] \<and>
     count (in_flight hook {#} s) \<lparr>task_id = ''n'', exec_time = 50\<rparr> \<ge> 2"
proof -
  let ?n = "\<lparr>task_id = ''n'', exec_time = 50\<rparr> :: task"
  obtain hook st ls s where b: "sample_build 48 = Some (hook, st)" "starts_well hook st"
    "play hook (sample_TM hook) (getTasksByCollection example_mysql) (\<lambda>_ _ _ _. True)
       racing_schedule [] (live_start hook st) = Some (ls, s)"
    and e: "racing_end ls s"
    using some_pair [OF sample_race] by (elim exE conjE) (drule some_pair, elim exE conjE, rule that)
  have run: "live_run hook (sample_TM hook) (getTasksByCollection example_mysql) (live_start hook st) ls s"
    using b(3) live_run.start start_goes_well by (rule play_run)
  have "\<not> fatal ls s" by (rule no_failures) (use e in \<open>unfold racing_end_def, blast+\<close>)
  moreover have "filter (\<lambda>l. case l of Creates err t \<Rightarrow> True | _ \<Rightarrow> False) ls = [Creates None ?n]"
    using e by (simp add: racing_end_def)
  moreover have "2 \<le> count (in_flight hook {#} s) ?n"
    using e by (simp add: racing_end_def in_flight_def waiting_tasks_def sample_task_def)
  ultimately show ?thesis using b(1) run by blast
qed

text \<open>
  A user creates a task, deletes it, and creates one for an earlier time with the same id; all calls have
  returned. The waiting service receives the new task before the id of the deletion, which has been in
  \<open>canceledTasks\<close> for longer: both channels are ready, and \<open>select\<close> may choose either.
\<close>

definition recreating_labels :: "task \<Rightarrow> task \<Rightarrow> int \<Rightarrow> int \<Rightarrow> live_label list" where
  "recreating_labels t u now at = [Creates None t, Offers t, Waits now (GetsTask t 0), Deletes (task_id t) None, Cancels (task_id t),
     Creates None u, Offers u, Waits now (GetsTask u 0), Waits now (GetsCancel (task_id t) 0), Waits now (TimerFires at)]"

lemma recreating_run:
  fixes s0 :: "'a world_scheme live"
  assumes s0: "live_waiting s0 = sample_waiting (NewPrioritizedTask []) [] [] []" "live_adding s0 = {#}" "live_cancelling s0 = {#}"
    and calls: "CreateCtx hook TM i t0 (live_world s0) = Some ((None, t, [t]), w1)"
      "DeleteCtx TM (task_id t) w1 = Some ((None, [task_id t]), w2)" "CreateCtx hook TM j u0 w2 = Some ((None, u, [u]), w3)"
    and id: "task_id u = task_id t" "exec_time u < exec_time t"
    and now: "0 < task_sleep now (Some t)" "0 < task_sleep now (Some u)" "now + task_sleep now (Some t) \<le> at"
  obtains h where "live_run hook TM read s0 (recreating_labels t u now at)
      (s0\<lparr>live_world := w3, live_waiting := sample_waiting h [] [] [(at, t)]\<rparr>)" "tasks_in h = {#}"
proof -
  let ?run = "live_run hook TM read s0" and ?at = "\<lambda>w A C ws. \<lparr>live_world = w, live_bunch = live_bunch s0, live_adding = A,
    live_cancelling = C, live_waiting = ws, live_senders = live_senders s0, live_pipeline = live_pipeline s0,
    live_returned = live_returned s0\<rparr>"
  let ?limit = "fst (hook_waitingService hook)" and ?h0 = "NewPrioritizedTask []"
  obtain h1 h2 h3 h4 where w: "waiting_step heap_ops ?limit (sample_waiting ?h0 [t] [] []) (Iterates now (GetsTask t 0)) (sample_waiting h1 [] [] [])"
    "waiting_step heap_ops ?limit (sample_waiting h1 [u] [task_id t] []) (Iterates now (GetsTask u 0)) (sample_waiting h2 [] [task_id t] [])"
    "waiting_step heap_ops ?limit (sample_waiting h2 [] [task_id t] []) (Iterates now (GetsCancel (task_id t) 0)) (sample_waiting h3 [] [] [])"
    "waiting_step heap_ops ?limit (sample_waiting h3 [] [] []) (Iterates now (TimerFires at)) (sample_waiting h4 [] [] [(at, t)])"
    "tasks_in h4 = {#}" by (rule recreated_steps [OF id now])
  have start: "s0 = ?at (live_world s0) {#} {#} (sample_waiting ?h0 [] [] [])" using s0 by simp
  have arrive: "waiting_step heap_ops ?limit (sample_waiting h [] c []) (Arrives v) (sample_waiting h [v] c [])" for h c v
    using waiting_step.arrives [of heap_ops ?limit "sample_waiting h [] c []" v] by simp
  have cancel: "waiting_step heap_ops ?limit (sample_waiting h [] [] []) (CancelArrives v) (sample_waiting h [] [v] [])" for h v
    using waiting_step.cancel_arrives [of heap_ops ?limit "sample_waiting h [] [] []" v] by simp
  have creates: "?run (ls @ [Creates None v]) (?at w' {#v#} C ws)"
    if "?run ls (?at w {#} C ws)" "CreateCtx hook TM k v0 w = Some ((None, v, [v]), w')" for ls w C ws k v0 v w'
    using live_run.step [OF that(1) live_step.creates [of hook TM k v0 _ None v "[v]" w']] that(2) by simp
  have offers: "?run (ls @ [Offers v]) (?at w {#} C ws')"
    if "?run ls (?at w {#v#} C ws)" "waiting_step heap_ops ?limit ws (Arrives v) ws'" for ls w C ws v ws'
    using live_run.step [OF that(1) live_step.offers [of v _ hook ws']] that(2) by simp
  have waits: "?run (ls @ [Waits now choice]) (?at w A C ws')"
    if "?run ls (?at w A C ws)" "waiting_step heap_ops ?limit ws (Iterates now choice) ws'" for ls w A C ws choice ws'
    using live_run.step [OF that(1) live_step.waits [of hook _ now choice ws']] that(2) by simp
  have deletes: "?run (ls @ [Deletes d None]) (?at w' A {#d#} ws)"
    if "?run ls (?at w A {#} ws)" "DeleteCtx TM d w = Some ((None, [d]), w')" for ls w A ws d w'
    using live_run.step [OF that(1) live_step.deletes [of TM d _ None "[d]" w']] that(2) by simp
  have cancels: "?run (ls @ [Cancels d]) (?at w A {#} ws')"
    if "?run ls (?at w A {#d#} ws)" "waiting_step heap_ops ?limit ws (CancelArrives d) ws'" for ls w A ws d ws'
    using live_run.step [OF that(1) live_step.cancels [of d _ hook ws']] that(2) by simp
  have "?run [] (?at (live_world s0) {#} {#} (sample_waiting ?h0 [] [] []))"
    using live_run.start [of hook TM read s0] by (simp flip: start)
  note r = creates [OF this calls(1)]
  note r = offers [OF r arrive]
  note r = waits [OF r w(1)]
  note r = deletes [OF r calls(2)]
  note r = cancels [OF r cancel]
  note r = creates [OF r calls(3)]
  note r = offers [OF r arrive]
  note r = waits [OF r w(2)]
  note r = waits [OF r w(3)]
  note r = waits [OF r w(4)]
  have end_state: "s0\<lparr>live_world := w3, live_waiting := sample_waiting h4 [] [] [(at, t)]\<rparr> = ?at w3 {#} {#} (sample_waiting h4 [] [] [(at, t)])"
    using s0 by simp
  show thesis by (rule that [OF _ w(5)], unfold end_state) (use r in \<open>simp add: recreating_labels_def\<close>)
qed

lemma do_now_list: 
  "do_now hook TM read c s = Some (l, s') \<Longrightarrow> (\<And>now choice. c \<noteq> Wait now choice) \<Longrightarrow>
    tasksWaitingList (live_waiting s') = tasksWaitingList (live_waiting s)"
  by (cases c) (auto simp: search_now_def split: option.splits if_splits list.splits preloader_pass.splits)

lemma play_list:
  "play hook TM read ok cs ls s = Some (ls', s') \<Longrightarrow> list_all (\<lambda>c. case c of Wait now choice \<Rightarrow> False | _ \<Rightarrow> True) cs \<Longrightarrow>
    tasksWaitingList (live_waiting s') = tasksWaitingList (live_waiting s)"
proof (induction cs arbitrary: ls s)
  case (Cons c cs)
  then obtain l s1 where d: "do_now hook TM read c s = Some (l, s1)" "play hook TM read ok cs (ls @ [l]) s1 = Some (ls', s')"
    by (auto split: option.splits if_splits)
  with Cons do_now_list [OF d(1)] show ?case by (auto split: live_cmd.splits)
qed simp

text \<open>A consumer takes the task and confirms it.\<close>

definition consuming_schedule :: "live_cmd list" where
  "consuming_schedule = [Hand, Use (ConsumeStarts 0 1), Use (Consumes 0 1 \<lparr>task_id = ''n'', exec_time = 55\<rparr>)]"

definition confirming_schedule :: "live_cmd list" where
  "confirming_schedule = [Use (CallsConfirm 1), Forward, Confirmation Gathers, Confirmation Expires, Confirmation Pushes,
     Confirmation Checks, Confirmation Checks, Confirmation Counts, Confirmation Pops, Confirmation HandsBatch,
     Confirmation (TakesBatch 0), Confirmation (ConfirmsBatch 0)]"

text \<open>Everything in flight but for the waiting list.\<close>

definition elsewhere :: "'x triggerHook \<Rightarrow> nat multiset \<Rightarrow> 'w live \<Rightarrow> task multiset" where
  "elsewhere hook H s = deliveries (nat (workersCount (hook_preloadingService hook))) (live_bunch s) + live_adding s +
     mset (preloadedTasks (live_waiting s)) + image_mset snd (mset (readyToSend (live_waiting s))) +
     service_tasks H (live_senders s) + on_the_way (nat (confirmationWorkersCount (hook_senderService hook))) (live_pipeline s)"

lemma in_flight_elsewhere: "in_flight hook H s = tasks_in (tasksWaitingList (live_waiting s)) + elsewhere hook H s"
  by (simp add: in_flight_def elsewhere_def waiting_tasks_def)

abbreviation old_task :: task where "old_task \<equiv> \<lparr>task_id = ''n'', exec_time = 55\<rparr>"
abbreviation new_task :: task where "new_task \<equiv> \<lparr>task_id = ''n'', exec_time = 52\<rparr>"

definition consumed_old :: "unit triggerHook \<Rightarrow> live_label list \<Rightarrow> repo_world live \<Rightarrow> bool" where
  "consumed_old hook ls s \<longleftrightarrow> ls = [Hands old_task, Uses (ConsumeStarts 0 1), Uses (Consumes 0 1 old_task)] \<and>
     stored_tasks (live_world s) ''n'' = Some 52 \<and> elsewhere hook {#1#} s = {#old_task#}"

definition confirmed_old :: "unit triggerHook \<Rightarrow> live_label list \<Rightarrow> repo_world live \<Rightarrow> bool" where
  "confirmed_old hook ls s \<longleftrightarrow> ls = [Uses (CallsConfirm 1), Forwards old_task] @ replicate 10 Confirms \<and>
     results (live_pipeline s) = [([old_task], None)] \<and> stored_tasks (live_world s) ''n'' = None \<and> elsewhere hook {#} s = {#}"

lemma sample_recreation:
  "case sample_build 48 of None \<Rightarrow> False | Some (hook, st) \<Rightarrow>
    (case CreateCtx hook (sample_TM hook) ''n'' \<lparr>task_id = [], exec_time = 55\<rparr> (live_world (live_start hook st)) of None \<Rightarrow> False
     | Some (x1, w1) \<Rightarrow> x1 = (None, old_task, [old_task]) \<and>
    (case DeleteCtx (sample_TM hook) ''n'' w1 of None \<Rightarrow> False | Some (x2, w2) \<Rightarrow> x2 = (None, [''n'']) \<and>
    (case CreateCtx hook (sample_TM hook) [] new_task w2 of None \<Rightarrow> False | Some (x3, w3) \<Rightarrow> x3 = (None, new_task, [new_task]) \<and>
    (case play hook (sample_TM hook) (getTasksByCollection example_mysql) (\<lambda>_ _ _ _. True) consuming_schedule []
       ((live_start hook st)\<lparr>live_world := w3, live_waiting := sample_waiting h [] [] [(55 * second, old_task)]\<rparr>) of None \<Rightarrow> False
     | Some (ls1, s1) \<Rightarrow> consumed_old hook ls1 s1 \<and>
    (case play hook (sample_TM hook) (getTasksByCollection example_mysql) (\<lambda>_ _ _ _. True) confirming_schedule [] s1 of None \<Rightarrow> False
     | Some (ls2, s2) \<Rightarrow> confirmed_old hook ls2 s2)))))"
  by code_simp

lemma live_run_append:
  "live_run hook TM read s1 ls' s2 \<Longrightarrow> live_run hook TM read s0 ls s1 \<Longrightarrow> live_run hook TM read s0 (ls @ ls') s2"
proof (induction rule: live_run.induct)
  case (step ls' s l s')
  from live_run.step [OF step.IH [OF step.prems] step.hyps(2)] show ?case by simp
qed simp

lemma live_run_goes_well:
  "live_run hook TM read s0 ls s \<Longrightarrow> well_run (nat (workersCount (hook_preloadingService hook))) (live_bunch s0) \<Longrightarrow>
    well_run (nat (workersCount (hook_preloadingService hook))) (live_bunch s)"
  by (induction rule: live_run.induct) (auto intro: step_goes_well)

definition users_calls :: "live_label list \<Rightarrow> live_label list" where
  "users_calls ls = filter (\<lambda>l. case l of Creates err t \<Rightarrow> True | Deletes tid err \<Rightarrow> True | Cancels tid \<Rightarrow> True | Uses c \<Rightarrow> True | _ \<Rightarrow> False) ls"

text \<open>
  C36: A task can be lost although every call succeeds and each is made after the last one has returned: a
  task is created for 55, deleted, and created again with the same id for 52. The waiting service still
  has the old task; it receives the new one before the cancellation, which waits in its channel, and the
  cancellation then removes the new task, because it is the next one, and not the old one. At 55 a
  consumer gets the old task, while the database has the new one; when it confirms the task, the
  database loses the new task, which is nowhere in the instance and has never been executed.
\<close>

theorem recreated_task_is_lost:
  "\<exists>hook st ls1 s1 ls2 s2. sample_build 48 = Some (hook, st) \<and>
     live_run hook (sample_TM hook) (getTasksByCollection example_mysql) (live_start hook st) ls1 s1 \<and>
     users_calls ls1 = [Creates None \<lparr>task_id = ''n'', exec_time = 55\<rparr>, Deletes ''n'' None, Cancels ''n'',
       Creates None \<lparr>task_id = ''n'', exec_time = 52\<rparr>, Uses (ConsumeStarts 0 1), Uses (Consumes 0 1 \<lparr>task_id = ''n'', exec_time = 55\<rparr>)] \<and>
     Waits (48 * second) (TimerFires (55 * second)) \<in> set ls1 \<and>
     stored_tasks (live_world s1) ''n'' = Some 52 \<and>
     in_flight hook (held (handle_calls ls1)) s1 = {#\<lparr>task_id = ''n'', exec_time = 55\<rparr>#} \<and>
     live_run hook (sample_TM hook) (getTasksByCollection example_mysql) (live_start hook st) (ls1 @ ls2) s2 \<and>
     users_calls ls2 = [Uses (CallsConfirm 1)] \<and> \<not> fatal (ls1 @ ls2) s2 \<and>
     confirmed s2 = {#\<lparr>task_id = ''n'', exec_time = 55\<rparr>#} \<and> stored_tasks (live_world s2) ''n'' = None \<and>
     in_flight hook (held (handle_calls (ls1 @ ls2))) s2 = {#}"
proof -
  let ?play = "\<lambda>hook. play hook (sample_TM hook) (getTasksByCollection example_mysql) (\<lambda>_ _ _ _. True)"
  let ?from = "\<lambda>hook st w h. (live_start hook st)\<lparr>live_world := w, live_waiting := sample_waiting h [] [] [(55 * second, old_task)]\<rparr>"
  obtain hook st w1 w2 w3 where b: "sample_build 48 = Some (hook, st)"
    and calls: "CreateCtx hook (sample_TM hook) ''n'' \<lparr>task_id = [], exec_time = 55\<rparr> (live_world (live_start hook st)) = Some ((None, old_task, [old_task]), w1)"
      "DeleteCtx (sample_TM hook) ''n'' w1 = Some ((None, [''n'']), w2)"
      "CreateCtx hook (sample_TM hook) [] new_task w2 = Some ((None, new_task, [new_task]), w3)"
    using some_pair [OF sample_recreation [of "NewPrioritizedTask []"]]
    by (elim exE conjE) (drule some_pair, elim exE conjE, drule some_pair, elim exE conjE, drule some_pair, elim exE conjE, rule that, simp_all only:)
  have start: "live_waiting (live_start hook st) = sample_waiting (NewPrioritizedTask []) [] [] []"
    "live_adding (live_start hook st) = {#}" "live_cancelling (live_start hook st) = {#}"
    using built_start(1) [OF b [unfolded sample_build_def]] by (simp_all add: waiting_start_def live_start_def Let_def)
  have sleep: "0 < task_sleep (48 * second) (Some old_task)" "0 < task_sleep (48 * second) (Some new_task)"
    "48 * second + task_sleep (48 * second) (Some old_task) \<le> 55 * second"
    by (simp_all add: task_sleep_def wrap64_def Unix_def second_def)
  obtain h where pre: "live_run hook (sample_TM hook) (getTasksByCollection example_mysql) (live_start hook st)
      (recreating_labels old_task new_task (48 * second) (55 * second)) (?from hook st w3 h)" and h: "tasks_in h = {#}"
    by (rule recreating_run [OF start calls(1) _ calls(3) _ _ sleep]) (use calls(2) in simp_all)
  obtain ls1 s1 ls2 s2 where p1: "?play hook consuming_schedule [] (?from hook st w3 h) = Some (ls1, s1)" and c1: "consumed_old hook ls1 s1"
    and p2: "?play hook confirming_schedule [] s1 = Some (ls2, s2)" and c2: "confirmed_old hook ls2 s2"
    using sample_recreation [of h] unfolding b calls option.case prod.case
    by (elim conjE) (drule some_pair, elim exE conjE, drule some_pair, elim exE conjE, rule that)
  let ?ls1 = "recreating_labels old_task new_task (48 * second) (55 * second) @ ls1"
  have well: "well_run (nat (workersCount (hook_preloadingService hook))) (live_bunch (?from hook st w3 h))"
    using start_goes_well [of _ hook st] by simp
  have r1: "live_run hook (sample_TM hook) (getTasksByCollection example_mysql) (live_start hook st) ?ls1 s1"
    by (rule live_run_append [OF play_run [OF p1 live_run.start well] pre])
  have "live_run hook (sample_TM hook) (getTasksByCollection example_mysql) (live_start hook st) (?ls1 @ ls2) s2"
    by (rule live_run_append [OF play_run [OF p2 live_run.start live_run_goes_well [OF r1 start_goes_well]] r1])
  moreover have list: "tasks_in (tasksWaitingList (live_waiting s1)) = {#}" "tasks_in (tasksWaitingList (live_waiting s2)) = {#}"
    using play_list [OF p1] play_list [OF p2] h by (simp_all add: consuming_schedule_def confirming_schedule_def)
  moreover have ls: "ls1 = [Hands old_task, Uses (ConsumeStarts 0 1), Uses (Consumes 0 1 old_task)]"
    "ls2 = [Uses (CallsConfirm 1), Forwards old_task] @ replicate 10 Confirms" using c1 c2 by (simp_all add: consumed_old_def confirmed_old_def)
  have "held (handle_calls ?ls1) = {#1#}" "held (handle_calls (?ls1 @ ls2)) = {#}"
    by (simp_all add: ls recreating_labels_def handle_calls_def held_def)
  moreover have "users_calls ls2 = [Uses (CallsConfirm 1)]"
    "users_calls ?ls1 = [Creates None old_task, Deletes ''n'' None, Cancels ''n'', Creates None new_task, Uses (ConsumeStarts 0 1), Uses (Consumes 0 1 old_task)]"
    by (simp_all add: ls recreating_labels_def users_calls_def)
  moreover have "Waits (48 * second) (TimerFires (55 * second)) \<in> set ?ls1" by (simp add: recreating_labels_def)
  moreover have "\<not> fatal (?ls1 @ ls2) s2" using c2 by (simp add: fatal_def ls recreating_labels_def confirmed_old_def)
  moreover have "confirmed s2 = {#old_task#}" using c2 by (simp add: confirmed_def finished_tasks_def confirmed_old_def)
  ultimately show ?thesis using b r1 c1 c2 unfolding consumed_old_def confirmed_old_def in_flight_elsewhere
    by (intro exI [of _ hook] exI [of _ st] exI [of _ ?ls1] exI [of _ s1] exI [of _ ls2] exI [of _ s2]) simp
qed

text \<open>
  An instance whose last act is the confirmation of the task \<open>a\<close>, and its successor \<open>you\<close>, which takes the
  two collections that are due and finds them empty.
\<close>

definition confirming_state :: "unit triggerHook \<Rightarrow> repo_world senders \<Rightarrow> repo_world live" where
  "confirming_state hook st = (live_start hook st)\<lparr>live_pipeline :=
     (live_pipeline (live_start hook st))\<lparr>confirmer := (\<lambda>_. ConfirmerReturned)(0 := Confirming [sample_task])\<rparr>\<rparr>"

definition next_build :: "repo_world live \<Rightarrow> (unit triggerHook \<times> repo_world senders) option" where
  "next_build s = Build standard_mergo Some (\<lambda>_. True) example_mysql ''you'' 0 zero_config (live_world s) (no_senders (live_world s))"

definition emptying_schedule :: "live_cmd list" where
  "emptying_schedule = Search # replicate 6 (Load 0) @ map Load [0..<10]"

definition restart_end :: "unit triggerHook \<Rightarrow> live_label list \<Rightarrow> repo_world live \<Rightarrow> bool" where
  "restart_end hook ls s \<longleftrightarrow> no_failures ls \<and> results (live_pipeline s) = [] \<and>
     list_all (\<lambda>l. case l of Deletes tid err \<Rightarrow> False | Creates err t \<Rightarrow> False | Uses c \<Rightarrow> False | _ \<Rightarrow> True) ls \<and>
     outcomes (live_world s) = [] \<and> in_flight hook {#} s = {#} \<and> clock (live_world s) (clock_reads (live_world s)) = 48 * second \<and>
     map_option fst (do_now hook (sample_TM hook) (getTasksByCollection example_mysql) Search s) = Some Sleeps"

definition successor_starts :: "repo_world live \<Rightarrow> unit triggerHook \<Rightarrow> repo_world senders \<Rightarrow> bool" where
  "successor_starts s hook st \<longleftrightarrow> maxRetry (hook_taskManager hook) = 3 \<and> workersCount (hook_preloadingService hook) = 10 \<and>
     timePreload (hook_preloadingService hook) = 5 * second \<and> CleaningFrequency (hook_repository hook) = 10 \<and>
     database (service_world (services st 0)) = database (live_world s) \<and> outcomes (service_world (services st 0)) = []"

lemma sample_restart:
  "case sample_build 48 of None \<Rightarrow> False | Some (hook1, st1) \<Rightarrow> starts_well hook1 st1 \<and>
    (case play hook1 (sample_TM hook1) (getTasksByCollection example_mysql) (\<lambda>_ _ _ _. True)
       [Confirmation (ConfirmsBatch 0)] [] (confirming_state hook1 st1) of None \<Rightarrow> False
     | Some (ls1, s1) \<Rightarrow> ls1 = [Confirms] \<and> database (live_world s1) = sample_database\<lparr>task_rows := []\<rparr> \<and>
    (case next_build s1 of None \<Rightarrow> False | Some (hook2, st2) \<Rightarrow> successor_starts s1 hook2 st2 \<and>
    (case play hook2 (sample_TM hook2) (getTasksByCollection example_mysql) (careful_now hook2 task_places)
       emptying_schedule [] (live_start hook2 st2) of None \<Rightarrow> False
     | Some (ls2, s2) \<Rightarrow> restart_end hook2 ls2 s2)))"
  by code_simp

theorem restart_loses_no_task_witness:
  "\<exists>hook1 st1 s1 hook2 st2 ls2 s2. sample_build 48 = Some (hook1, st1) \<and>
     live_run hook1 (sample_TM hook1) (getTasksByCollection example_mysql) (confirming_state hook1 st1) [Confirms] s1 \<and>
     next_build s1 = Some (hook2, st2) \<and>
     careful_run hook2 (sample_TM hook2) (getTasksByCollection example_mysql) task_places (live_start hook2 st2) ls2 s2 \<and>
     stored_tasks (live_world (confirming_state hook1 st1)) ''a'' = Some 50 \<and> ''a'' \<in> ids (confirmed s1 + confirmed s2)"
proof -
  obtain hook1 st1 ls1 s1 hook2 st2 ls2 s2 where b1: "sample_build 48 = Some (hook1, st1)" "starts_well hook1 st1"
    "play hook1 (sample_TM hook1) (getTasksByCollection example_mysql) (\<lambda>_ _ _ _. True)
       [Confirmation (ConfirmsBatch 0)] [] (confirming_state hook1 st1) = Some (ls1, s1)"
    and s1: "ls1 = [Confirms]" "database (live_world s1) = sample_database\<lparr>task_rows := []\<rparr>"
    and b2: "next_build s1 = Some (hook2, st2)" "successor_starts s1 hook2 st2"
    "play hook2 (sample_TM hook2) (getTasksByCollection example_mysql) (careful_now hook2 task_places)
       emptying_schedule [] (live_start hook2 st2) = Some (ls2, s2)"
    and e: "restart_end hook2 ls2 s2"
    using some_pair [OF sample_restart]
    by (elim exE conjE) (drule some_pair, elim exE conjE, drule some_pair, elim exE conjE, drule some_pair, elim exE conjE, rule that)
  have "well_run (nat (workersCount (hook_preloadingService hook1))) (live_bunch (confirming_state hook1 st1))"
    using start_goes_well by (simp add: confirming_state_def)
  from play_run [OF b1(3) live_run.start this] have run1:
    "live_run hook1 (sample_TM hook1) (getTasksByCollection example_mysql) (confirming_state hook1 st1) [Confirms] s1"
    by (simp add: s1(1))
  have w1: "live_world (confirming_state hook1 st1) = live_world (live_start hook1 st1)" by (simp add: confirming_state_def)
  note start1 = started_sound [OF b1(2)]
  have id1: "appInstanceId (hook_repository hook1) \<noteq> []" using built_id [OF b1(1) [unfolded sample_build_def]] by simp
  note run2 = play_from_start [OF b2(3)]
  have db2: "database (live_world (live_start hook2 st2)) = database (live_world s1)"
    using b2(2) by (simp add: successor_starts_def live_start_def Let_def)
  have sound2: "repo_sound (hook_repository hook2) example_mysql (live_world (live_start hook2 st2))"
    "1 \<le> maxRetry (hook_taskManager hook2)" "1 \<le> workersCount (hook_preloadingService hook2)"
    using b2(2) db2 s1(2) by (simp_all add: successor_starts_def repo_sound_def wrap32_def)
      (simp_all add: live_start_def Let_def db_ok_def sample_database_def)
  have fresh: "\<forall>u c. task_places (live_world s1) u = Some c \<longrightarrow> coll_taken c \<noteq> ''you''"
    by (simp add: task_places_def s1(2) home_def task_map_def)
  have ls2: "no_failures ls2" "results (live_pipeline s2) = []" "outcomes (live_world s2) = []" "in_flight hook2 {#} s2 = {#}"
      "clock (live_world s2) (clock_reads (live_world s2)) = 48 * second"
    and calls: "list_all (\<lambda>l. case l of Deletes tid err \<Rightarrow> False | Creates err t \<Rightarrow> False | Uses c \<Rightarrow> False | _ \<Rightarrow> True) ls2"
    and "map_option fst (do_now hook2 (sample_TM hook2) (getTasksByCollection example_mysql) Search s2) = Some Sleeps"
    using e unfolding restart_end_def by blast+
  then obtain s' where s': "do_now hook2 (sample_TM hook2) (getTasksByCollection example_mysql) Search s2 = Some (Sleeps, s')"
    unfolding map_option_eq_Some by force
  from do_now [OF s' well_run_of [OF run2 start_goes_well]]
  have sleeps: "live_step hook2 (sample_TM hook2) (getTasksByCollection example_mysql) s2 Sleeps s'" .
  have none: "failed_ids ls2 = {}" "deleted_ids ls2 = {}" "handle_calls ls2 = []"
    using calls by (auto simp: failed_ids_def deleted_ids_def handle_calls_def list_all_iff concat_eq_Nil_conv split: live_label.splits)
  have stored: "stored_tasks (live_world (confirming_state hook1 st1)) ''a'' = Some 50"
    using b1(2) sample_tasks_due by (simp add: w1 starts_well_def live_start_def Let_def stored_tasks_def)
  have "''a'' \<in> ids (confirmed s1 + confirmed s2)"
    by (rule restart_loses_no_task [OF run1 _ start1(3) id1 b2(1) [unfolded next_build_def] db2 sound2(1) _ fresh sound2(2,3) run2
      no_failures [OF ls2(1,2)] none(1) _ ls2(3) sleeps disjI1 [OF stored]])
      (use start1(1) w1 ls2(4,5) none b2(2) in \<open>simp_all add: deleted_ids_def successor_starts_def Unix_def second_def\<close>)
  with b1(1) run1 b2(1) run2 stored show ?thesis by blast
qed

theorem no_task_is_consumed_early_witness:
  "\<exists>hook st pre s now choice at. sample_build 48 = Some (hook, st) \<and>
     live_run hook (sample_TM hook) (getTasksByCollection example_mysql) (live_start hook st)
       (pre @ [Uses (Consumes 0 1 sample_task)]) s \<and>
     Waits now choice \<in> set pre \<and> (at = now \<or> choice = TimerFires at) \<and> 50 \<le> Unix at"
proof -
  obtain hook st ls s where b: "sample_build 48 = Some (hook, st)" "starts_well hook st"
    "play hook (sample_TM hook) (getTasksByCollection example_mysql) (careful_now hook task_places)
       delivery_schedule [] (live_start hook st) = Some (ls, s)"
    and ls: "no_failures ls" "results (live_pipeline s) = []" "last ls = Uses (Consumes 0 1 sample_task)" "sane_times ls"
    using some_pair [OF sample_delivery] some_pair by blast
  have split: "ls = butlast ls @ [Uses (Consumes 0 1 sample_task)]"
    using ls(3,4) append_butlast_last_id [of ls] by (simp add: sane_times_def)
  note careful = play_from_start [OF b(3)]
  note run = careful_is_run [OF careful] and proper = careful_is_proper [OF careful] and sane = sane_times [OF ls(4)]
  have "stored_tasks (live_world (live_start hook st)) = [''a'' \<mapsto> 50]"
    using b(2) sample_stored by (simp add: starts_well_def live_start_def Let_def stored_tasks_def)
  then have stored: "\<forall>u e. stored_tasks (live_world (live_start hook st)) u = Some e \<longrightarrow> time_sane e"
    by (simp add: time_sane_def)
  note w = started_sound [OF b(2)]
  have "\<exists>now choice at. Waits now choice \<in> set (butlast ls) \<and> (at = now \<or> choice = TimerFires at) \<and> exec_time sample_task \<le> Unix at"
    by (rule no_task_is_consumed_early [OF b(1) [unfolded sample_build_def] w(1) _ w(3) stored,
        where pre = "butlast ls" and post = "[]" and k = 0 and a = 1 and t = sample_task])
      (use run proper sane split in simp_all)
  then have "\<exists>now choice at. Waits now choice \<in> set (butlast ls) \<and> (at = now \<or> choice = TimerFires at) \<and> 50 \<le> Unix at"
    by (simp add: sample_task_def)
  moreover have "live_run hook (sample_TM hook) (getTasksByCollection example_mysql) (live_start hook st)
      (butlast ls @ [Uses (Consumes 0 1 sample_task)]) s" using run split by simp
  ultimately show ?thesis using b(1) by blast
qed

end
