(* ===== verification/Live_Reports.thy ===== *)
theory Live_Reports
  imports Live_Properties
begin

text \<open>
  What the event log says of a running instance. Every operation reports its errors as events; those
  of \<open>LevelFatal\<close> come from three places of the code only: the preloader's search, its workers, and the
  confirmation. The operations of repository and task manager report no fatal event themselves, so the
  fatal events of an instance tell exactly which of its three fatal failures have happened.
\<close>

section \<open>Fatal events\<close>

text \<open>The messages of the fatal events of a log, in order.\<close>

definition alarms :: "'a world_scheme \<Rightarrow> string list" where
  "alarms w = map snd (filter (\<lambda>e. fst e = LevelFatal) (events w))"

named_theorems calm \<open>steps that report no fatal event\<close>

lemma alarms_env [simp]:
  "alarms (w\<lparr>monitor := m\<rparr>) = alarms w" "alarms (w\<lparr>clock_reads := k\<rparr>) = alarms w" "alarms (w\<lparr>clock := c\<rparr>) = alarms w"
  by (simp_all add: alarms_def)

lemma alarms_eh_New [simp]: "alarms (eh_New l m w) = alarms w @ (if l = LevelFatal then [m] else [])"
  by (simp add: alarms_def)

lemma alarms_publish [simp]: "alarms (publish_or_log t v w) = alarms w"
  by (auto simp: publish_or_log_def mon_Publish_def case_prod_unfold Let_def split: option.split)

lemma alarms_time_Now [calm]: "time_Now w = (n, w') \<Longrightarrow> alarms w' = alarms w"
  by (auto simp: time_Now_def)

section \<open>Interfaces\<close>

locale quiet_repository =
  fixes R :: "'a world_scheme repository_ops"
  assumes quiet_Create: "op_Create R t k w = Some (e, w') \<Longrightarrow> alarms w' = alarms w"
    and quiet_Delete: "op_Delete R ts w = Some (x, w') \<Longrightarrow> alarms w' = alarms w"
    and quiet_Find: "op_Find R d w = Some (y, w') \<Longrightarrow> alarms w' = alarms w"

locale quiet_manager =
  fixes TM :: "'a world_scheme task_manager_ops"
  assumes quiet_create: "tm_Create TM new_id t k w = Some (x, w') \<Longrightarrow> alarms w' = alarms w"
    and quiet_delete: "tm_Delete TM tid w = Some (e, w') \<Longrightarrow> alarms w' = alarms w"
    and quiet_get: "tm_Get TM d w = Some (y, w') \<Longrightarrow> alarms w' = alarms w"
    and quiet_confirm: "tm_Confirm TM ts w = Some (e, w') \<Longrightarrow> alarms w' = alarms w"

locale quiet_instance = quiet_manager TM
  for TM :: "'a world_scheme task_manager_ops" +
  fixes read :: "nat \<Rightarrow> 'a world_scheme \<Rightarrow> (task list \<times> go_error option) \<times> 'a world_scheme"
  assumes quiet_read: "read i w = (x, w') \<Longrightarrow> alarms w' = alarms w"

section \<open>The repository and the task manager\<close>

lemma alarms_repo [simp]:
  "alarms (w\<lparr>outcomes := xs\<rparr>) = alarms w" "alarms (w\<lparr>database := db\<rparr>) = alarms w"
  "alarms (w\<lparr>open_tx := n\<rparr>) = alarms w" "alarms (w\<lparr>cleanRequestCount := c\<rparr>) = alarms w"
  for w :: "'a repo_world_scheme"
  by (simp_all add: alarms_def)

lemma alarms_log_error [simp]: "alarms (log_error msg w) = alarms w"
  by (simp add: log_error_def)

lemma calm_driver [calm]:
  fixes w :: "'a repo_world_scheme"
  shows "next_outcome w = (x, w') \<Longrightarrow> alarms w' = alarms w"
    "plain_call w = (e, w') \<Longrightarrow> alarms w' = alarms w"
    "exec_call f w = (r, w') \<Longrightarrow> alarms w' = alarms w"
    "read_rows rows w = (rd, w') \<Longrightarrow> alarms w' = alarms w"
    "unix_timestamp w = (n, w') \<Longrightarrow> alarms w' = alarms w"
    "begin_tx w = (e, w') \<Longrightarrow> alarms w' = alarms w"
    "commit_tx g w = (e, w') \<Longrightarrow> alarms w' = alarms w"
    "rollback_tx msg w = (msg', w') \<Longrightarrow> alarms w' = alarms w"
proof -
  show one: "next_outcome w = (x, w') \<Longrightarrow> alarms w' = alarms w" for x and w w' :: "'a repo_world_scheme"
    by (auto simp: next_outcome_def split: list.splits)
  show plain: "plain_call w = (e, w') \<Longrightarrow> alarms w' = alarms w" for e and w w' :: "'a repo_world_scheme"
    by (auto simp: plain_call_def Let_def split: prod.splits dest: one)
  show "exec_call f w = (r, w') \<Longrightarrow> alarms w' = alarms w"
    by (auto simp: exec_call_def Let_def split: prod.splits if_splits dest: one)
  show "read_rows rows w = (rd, w') \<Longrightarrow> alarms w' = alarms w"
    by (auto simp: read_rows_def Let_def split: prod.splits dest: one)
  show "unix_timestamp w = (n, w') \<Longrightarrow> alarms w' = alarms w"
    by (auto simp: unix_timestamp_def)
  show "begin_tx w = (e, w') \<Longrightarrow> alarms w' = alarms w"
    by (auto simp: begin_tx_def Let_def split: prod.splits option.splits dest: plain)
  show "commit_tx g w = (e, w') \<Longrightarrow> alarms w' = alarms w"
    by (auto simp: commit_tx_def Let_def split: prod.splits if_splits dest: one)
  show "rollback_tx msg w = (msg', w') \<Longrightarrow> alarms w' = alarms w"
    by (auto simp: rollback_tx_def Let_def split: prod.splits dest: plain)
qed

lemma alarms_close_rows [simp]: "alarms (close_rows w) = alarms w"
  by (auto simp: close_rows_def Let_def split: prod.splits option.splits dest: calm_driver)

lemma calm_call_create_task [calm]: "call_create_task r my t k w = (e, w') \<Longrightarrow> alarms w' = alarms w"
  by (auto simp: call_create_task_def Let_def split: prod.splits outcome.splits dest: calm_driver)

lemma calm_repo_Create [calm]: "repo_Create r my t k w = (e, w') \<Longrightarrow> alarms w' = alarms w"
  by (auto simp: repo_Create_def Let_def split: prod.splits option.splits dest: calm)

lemma calm_deleteEmptyCollections [calm]: "deleteEmptyCollections w = (e, w') \<Longrightarrow> alarms w' = alarms w"
  by (auto simp: deleteEmptyCollections_def Let_def split: prod.splits sum.splits rows_read.splits option.splits if_splits
      dest!: calm_driver)

lemma calm_count_and_clean [calm]: "count_and_clean r w = Some w' \<Longrightarrow> alarms w' = alarms w"
  by (auto simp: count_and_clean_def Let_def split: prod.splits option.splits if_splits dest!: calm)

lemma calm_repo_Delete [calm]: "repo_Delete r ts w = Some (x, w') \<Longrightarrow> alarms w' = alarms w"
  by (auto simp: repo_Delete_def Let_def bind_eq_Some_conv split: prod.splits sum.splits if_splits dest!: calm)

lemma calm_take_found [calm]: "take_found r ks w = (x, w') \<Longrightarrow> alarms w' = alarms w"
  by (auto simp: take_found_def Let_def split: prod.splits option.splits dest!: calm)

lemma calm_find_rows [calm]: "find_rows r rows w = (x, w') \<Longrightarrow> alarms w' = alarms w"
  by (auto simp: find_rows_def Let_def split: prod.splits option.splits rows_read.splits if_splits dest!: calm)

lemma calm_Find [calm]: "FindBySecToExecTime r my d w = (x, w') \<Longrightarrow> alarms w' = alarms w"
  by (auto simp: FindBySecToExecTime_def Let_def split: prod.splits option.splits sum.splits dest!: calm)

lemma calm_getTasksByCollection [calm]: "getTasksByCollection my i w = (x, w') \<Longrightarrow> alarms w' = alarms w"
  by (auto simp: getTasksByCollection_def Let_def split: prod.splits sum.splits rows_read.splits dest!: calm)

interpretation mysql_quiet: quiet_repository "mysql_ops r my"
  by unfold_locales (auto simp: mysql_ops_def dest: calm)

lemma calm_retry_from:
  "(\<And>w x w'. callback w = Some (x, w') \<Longrightarrow> alarms w' = alarms w) \<Longrightarrow>
    retry_from s callback es n ex w = Some (y, w') \<Longrightarrow> alarms w' = alarms w"
proof (induction s callback es n ex w rule: retry_from.induct)
  case (1 s callback es n err x w)
  show ?case
  proof (cases "n \<le> maxRetry s")
    case True
    with 1(3) obtain e x' w1 where c: "callback w = Some ((e, x'), w1)"
      by (subst (asm) retry_from.simps) (auto split: option.splits)
    then have w1: "alarms w1 = alarms w" by (rule 1(2))
    show ?thesis
    proof (cases "\<exists>r. e = Some r \<and> Contains es r")
      case True
      then obtain r where r: "e = Some r" "Contains es r" by blast
      with 1(3) c \<open>n \<le> maxRetry s\<close>
      have "retry_from s callback es (n + 1) (Some r, x') (eh_New LevelError (error_text r) w1) = Some (y, w')"
        by (simp add: retry_from.simps [of s callback es n])
      from 1(1) [OF \<open>n \<le> maxRetry s\<close> c refl refl r 1(2) this] w1 show ?thesis by simp
    next
      case False
      with 1(3) c w1 \<open>n \<le> maxRetry s\<close> show ?thesis
        by (cases e) (auto simp: retry_from.simps [of s callback es n])
    qed
  next
    case False
    with 1(3) show ?thesis by (simp add: retry_from.simps [of s callback es n])
  qed
qed

lemma calm_retry:
  "retry s callback es x w = Some (y, w') \<Longrightarrow> (\<And>w x w'. callback w = Some (x, w') \<Longrightarrow> alarms w' = alarms w) \<Longrightarrow>
    alarms w' = alarms w"
  unfolding retry_def using calm_retry_from [of callback] by blast

text \<open>A repository that is quiet gives a task manager that is.\<close>

sublocale quiet_repository \<subseteq> quiet_tasks: quiet_manager "manager_ops s R uuid_ok" for s uuid_ok
proof
  fix new_id t k w w' x tid e d y ts
  have del: "alarms w2 = alarms w1" if "delete_tasks R us w1 = Some (z, w2)" for us w1 z w2
    using that by (auto simp: delete_tasks_def dest: quiet_Delete)
  show "alarms w' = alarms w" if "tm_Create (manager_ops s R uuid_ok) new_id t k w = Some (x, w')"
    using that
    by (auto simp: manager_ops_def task_manager_Create_def Let_def bind_eq_Some_conv split: prod.splits if_splits option.splits
        dest!: calm_retry alarms_time_Now dest: quiet_Create)
  show "alarms w' = alarms w" if "tm_Delete (manager_ops s R uuid_ok) tid w = Some (e, w')"
    using that
    by (auto simp: manager_ops_def task_manager_Delete_def bind_eq_Some_conv split: option.splits if_splits
        dest!: calm_retry dest: del)
  show "alarms w' = alarms w" if "tm_Get (manager_ops s R uuid_ok) d w = Some (y, w')"
    using that
    by (auto simp: manager_ops_def GetTasksToComplete_def bind_eq_Some_conv split: option.splits if_splits
        dest!: calm_retry dest: quiet_Find)
  show "alarms w' = alarms w" if "tm_Confirm (manager_ops s R uuid_ok) ts w = Some (e, w')"
    using that
    by (auto simp: manager_ops_def ConfirmExecution_def bind_eq_Some_conv split: option.splits dest!: calm_retry dest: del)
qed

interpretation mysql_quiet_instance: quiet_instance "manager_ops s (mysql_ops r my) uuid_ok" "getTasksByCollection my"
  by unfold_locales (auto dest: calm mysql_quiet.quiet_tasks.quiet_create mysql_quiet.quiet_tasks.quiet_delete
      mysql_quiet.quiet_tasks.quiet_get mysql_quiet.quiet_tasks.quiet_confirm)

section \<open>A running instance\<close>

text \<open>
  The fatal events that a run must have reported: one for each failed search, one for each collection
  that could not be read, and the error of each confirmation that failed.
\<close>

definition unread_lost :: "live_label list \<Rightarrow> nat" where
  "unread_lost ls = (\<Sum>l\<leftarrow>ls. case l of Loads ks \<Rightarrow> length ks | _ \<Rightarrow> 0)"

definition confirm_errors :: "(task list \<times> go_error option) list \<Rightarrow> string list" where
  "confirm_errors rs = concat (map (\<lambda>res. case snd res of None \<Rightarrow> [] | Some e \<Rightarrow> [error_text e]) rs)"

definition failures :: "live_label list \<Rightarrow> 'w live \<Rightarrow> string multiset" where
  "failures ls s =
     replicate_mset (count_list ls SearchFails) ''preloader cannot get bunches of tasks'' +
     replicate_mset (unread_lost ls) ''cannot get tasks for doing'' +
     mset (confirm_errors (results (live_pipeline s)))"

lemma unread_lost_simps [simp]:
  "unread_lost [] = 0" "unread_lost (ls @ [l]) = unread_lost ls + (case l of Loads ks \<Rightarrow> length ks | _ \<Rightarrow> 0)"
  by (simp_all add: unread_lost_def)

lemma confirm_errors_simps [simp]:
  "confirm_errors [] = []"
  "confirm_errors (rs @ rs') = confirm_errors rs @ confirm_errors rs'"
  "confirm_errors [(ts, e)] = (case e of None \<Rightarrow> [] | Some x \<Rightarrow> [error_text x])"
  by (simp_all add: confirm_errors_def)

lemma unread_lost_none: "unread_lost ls = 0 \<longleftrightarrow> (\<forall>i ks. Loads (i # ks) \<notin> set ls)"
proof (induction ls)
  case (Cons l ls)
  have "unread_lost (l # ls) = 0 \<longleftrightarrow> (case l of Loads ks \<Rightarrow> ks = [] | _ \<Rightarrow> True) \<and> unread_lost ls = 0"
    by (simp add: unread_lost_def split: live_label.split)
  also have "(case l of Loads ks \<Rightarrow> ks = [] | _ \<Rightarrow> True) \<longleftrightarrow> (\<forall>i ks. l \<noteq> Loads (i # ks))"
    by (cases l) (simp_all, metis list.exhaust list.distinct(1))
  finally show ?case unfolding Cons by auto
qed (simp add: unread_lost_def)

lemma confirm_errors_none: "confirm_errors rs = [] \<longleftrightarrow> (\<forall>res \<in> set rs. snd res = None)"
  by (auto simp: confirm_errors_def split: option.splits)

text \<open>Something is to be reported exactly when one of the fatal failures has happened.\<close>

lemma fatal_failures: "fatal ls s \<longleftrightarrow> failures ls s \<noteq> {#}"
proof -
  have "failures ls s = {#} \<longleftrightarrow> SearchFails \<notin> set ls \<and> unread_lost ls = 0 \<and> confirm_errors (results (live_pipeline s)) = []"
    by (simp add: failures_def count_list_0_iff)
  then show ?thesis by (auto simp: fatal_def unread_lost_none confirm_errors_none)
qed

lemma failures_same:
  "results (live_pipeline s') = results (live_pipeline s) \<Longrightarrow> l \<noteq> SearchFails \<Longrightarrow> (\<And>ks. l \<noteq> Loads ks) \<Longrightarrow>
    failures (ls @ [l]) s' = failures ls s"
  by (cases l) (auto simp: failures_def)

lemma replicate_mset_plus: "replicate_mset (m + n) x = replicate_mset m x + replicate_mset n x"
  by (simp add: multiset_eq_iff)

lemma calm_sender: 
  "sender_step st l st' \<Longrightarrow> alarms (service_world (services st' n)) = alarms (service_world (services st n))"
  by (cases rule: sender_step.cases)
    (auto simp: at_service_def consume_start_def consume_end_def tts_Confirm_def tts_Rollback_def put_processed_def)

context quiet_instance
begin

lemma alarms_AddNewTask: "AddNewTask p TM new_id t w = Some (x, w') \<Longrightarrow> alarms w' = alarms w"
  by (auto simp: AddNewTask_def Let_def bind_eq_Some_conv split: prod.splits option.splits
      dest!: quiet_create alarms_time_Now)

lemma alarms_CancelIfExist: "CancelIfExist TM tid w = Some (x, w') \<Longrightarrow> alarms w' = alarms w"
  by (auto simp: CancelIfExist_def bind_eq_Some_conv split: option.splits dest!: quiet_delete)

lemma alarms_Run_pass:
  "preloader_Run_pass p TM w = Some (pass, w') \<Longrightarrow>
    alarms w' = alarms w @ (if pass = PassReturns then [''preloader cannot get bunches of tasks''] else [])"
proof -
  assume p: "preloader_Run_pass p TM w = Some (pass, w')"
  then obtain ks err w1 where g: "tm_Get TM (timePreload p) w = Some ((ks, err), w1)"
    by (auto simp: preloader_Run_pass_def bind_eq_Some_conv)
  then have "alarms w1 = alarms w" by (rule quiet_get)
  with p g show ?thesis
    by (cases err; cases "err = Some TmErrorCollectionsNotFound") (auto simp: preloader_Run_pass_def)
qed

lemma alarms_bunch_step:
  "bunch_step read b b' \<Longrightarrow> \<exists>lost'. lost b' = lost' @ lost b \<and>
    alarms (bunch_world b') = alarms (bunch_world b) @ replicate (length lost') ''cannot get tasks for doing''"
proof -
  assume "bunch_step read b b'"
  then show ?thesis
  proof cases
    case (not_fetched k i tasks err w)
    from quiet_read [OF not_fetched(3)] show ?thesis by (simp add: not_fetched(1))
  next
    case (fetched k i tasks w)
    from quiet_read [OF fetched(3)] show ?thesis by (simp add: fetched(1))
  qed simp_all
qed

lemma alarms_confirm_batch:
  "confirm_batch TM batch w = Some (err, w') \<Longrightarrow> alarms w' = alarms w @ confirm_errors [(batch, err)]"
  by (cases err) (auto simp: confirm_batch_def Let_def bind_eq_Some_conv dest!: quiet_confirm)

lemma alarms_pipeline_step:
  "pipeline_step TM m p l p' \<Longrightarrow> \<exists>rs. results p' = results p @ rs \<and>
    alarms (pipeline_world p') = alarms (pipeline_world p) @ confirm_errors rs"
  by (cases rule: pipeline_step.cases) (auto dest: alarms_confirm_batch)

lemma sends_results: "pipeline_step TM m p (Sends t) p' \<Longrightarrow> results p' = results p"
  by (cases rule: pipeline_step.cases) auto

lemma reported_step:
  assumes step: "live_step hook TM read s l s'"
    and ok: "mset (alarms (live_world s)) = A + failures ls s"
  shows "mset (alarms (live_world s')) = A + failures (ls @ [l]) s'"
  using step
proof cases
  case (creates new_id t err t' out w)
  then show ?thesis using ok by (simp add: failures_same CreateCtx_def alarms_AddNewTask)
next
  case (deletes tid err out w)
  then show ?thesis using ok by (simp add: failures_same DeleteCtx_def alarms_CancelIfExist)
next
  case (search_fails w)
  with alarms_Run_pass [OF search_fails(5)] ok show ?thesis by (simp add: failures_def)
next
  case (loads b)
  obtain ks where ks: "lost b = ks @ lost (live_bunch s)"
    "alarms (bunch_world b) = alarms (live_world s) @ replicate (length ks) ''cannot get tasks for doing''"
    using alarms_bunch_step [OF loads(3)] by auto
  with loads ok show ?thesis by (simp add: failures_def mset_replicate replicate_mset_plus)
next
  case (uses c st)
  then show ?thesis using ok calm_sender [OF uses(3), of 0] by (simp add: failures_same at_service_def)
next
  case (forwards t rest p)
  then show ?thesis using ok by (simp add: failures_same sends_results)
next
  case (confirms p)
  obtain rs where "results p = results (live_pipeline s) @ rs"
    "alarms (pipeline_world p) = alarms (live_world s) @ confirm_errors rs"
    using alarms_pipeline_step [OF confirms(3)] by auto
  with confirms ok show ?thesis by (simp add: failures_def)
qed (use ok alarms_Run_pass in \<open>simp_all add: failures_same\<close>)

lemma reported:
  assumes "live_run hook TM read s0 ls s" "results (live_pipeline s0) = []"
  shows "mset (alarms (live_world s)) = mset (alarms (live_world s0)) + failures ls s"
  using assms(1)
proof induction
  case start
  show ?case by (simp add: failures_def assms(2))
next
  case (step ls s l s')
  from reported_step [OF step(2,3)] show ?case .
qed

end

section \<open>The event handler of the instance\<close>

text \<open>
  \<open>reporting eh0 es eh\<close>: the events \<open>es\<close> have been reported to the event handler \<open>eh0\<close> by calls of \<open>New\<close>,
  and its \<open>Run\<close> has handled some of them, in any interleaving; \<open>eh\<close> is the handler now. The queue had
  room at every call: the handlers keep up, and no event is dropped.
\<close>

inductive reporting :: "'x event_handler \<Rightarrow> (level \<times> string) list \<Rightarrow> 'x event_handler \<Rightarrow> bool" for eh0 where
  starts: "reporting eh0 [] eh0"
| reports: "reporting eh0 es eh \<Longrightarrow> int (length (pending eh)) < maxQueueCap (eventQueue eh) \<Longrightarrow>
    EventHandler_New now pushed_at at l m extra eh = Some eh' \<Longrightarrow> reporting eh0 (es @ [(l, m)]) eh'"
| handles: "reporting eh0 es eh \<Longrightarrow> Run_iteration eh = (RunNext, eh') \<Longrightarrow> reporting eh0 es eh'"

definition heard :: "'x event_handler \<Rightarrow> (level \<times> string) list \<Rightarrow> (level \<times> string) list" where
  "heard eh es = filter (\<lambda>e. debug eh \<or> fst e \<noteq> LevelDebug) es"

lemma New_parts:
  assumes "EventHandler_New now pushed_at at l m extra eh = Some eh'" "int (length (pending eh)) < maxQueueCap (eventQueue eh)"
  shows "debug eh' = debug eh" "eventHandlers eh' = eventHandlers eh" "updateQueue_closed eh' = updateQueue_closed eh"
    "map (\<lambda>e. (ev_level e, ev_message e)) (pending eh') = map (\<lambda>e. (ev_level e, ev_message e)) (pending eh) @ heard eh [(l, m)]"
  using assms
  by (auto simp: EventHandler_New_def eventQueue_Push_def new_event_def Let_def heard_def bind_eq_Some_conv
      split: if_splits option.splits)

lemma Run_iteration_parts:
  assumes "Run_iteration eh = (RunNext, eh')"
  shows "debug eh' = debug eh" "eventHandlers eh' = eventHandlers eh" "updateQueue_closed eh' = updateQueue_closed eh"
    "\<exists>taken. pending eh = taken @ pending eh' \<and> (\<forall>e \<in> set taken. \<not> ends_run (eventHandlers eh) e)"
  using assms
  by (auto simp: Run_iteration_def eventQueue_Pop_def Let_def ends_run_def split: list.splits if_splits)

lemma reporting_parts:
  assumes "reporting eh0 es eh" "pending eh0 = []"
  shows "debug eh = debug eh0 \<and> eventHandlers eh = eventHandlers eh0 \<and> updateQueue_closed eh = updateQueue_closed eh0 \<and>
    (\<exists>gone. heard eh0 es = gone @ map (\<lambda>e. (ev_level e, ev_message e)) (pending eh) \<and>
       (LevelFatal \<in> eventHandlers eh0 \<longrightarrow> LevelFatal \<notin> fst ` set gone))"
  using assms(1)
proof induction
  case starts
  show ?case by (simp add: heard_def assms(2))
next
  case (reports es eh now pushed_at at l m extra eh')
  note n = New_parts [OF reports(3,2)]
  from reports(4) obtain gone where g: "heard eh0 es = gone @ map (\<lambda>e. (ev_level e, ev_message e)) (pending eh)"
    "LevelFatal \<in> eventHandlers eh0 \<longrightarrow> LevelFatal \<notin> fst ` set gone" by blast
  have "heard eh0 (es @ [(l, m)]) = gone @ map (\<lambda>e. (ev_level e, ev_message e)) (pending eh')"
    using g(1) n(4) reports(4) by (simp add: heard_def)
  with n g(2) reports(4) show ?case by auto
next
  case (handles es eh eh')
  note r = Run_iteration_parts [OF handles(2)]
  from handles(3) obtain gone where g: "heard eh0 es = gone @ map (\<lambda>e. (ev_level e, ev_message e)) (pending eh)"
    "LevelFatal \<in> eventHandlers eh0 \<longrightarrow> LevelFatal \<notin> fst ` set gone" by blast
  obtain taken where t: "pending eh = taken @ pending eh'" "\<forall>e \<in> set taken. \<not> ends_run (eventHandlers eh) e" using r(4) by blast
  have "heard eh0 es = (gone @ map (\<lambda>e. (ev_level e, ev_message e)) taken) @ map (\<lambda>e. (ev_level e, ev_message e)) (pending eh')"
    using g(1) t(1) by simp
  moreover have "LevelFatal \<in> eventHandlers eh0 \<longrightarrow> LevelFatal \<notin> fst ` set (gone @ map (\<lambda>e. (ev_level e, ev_message e)) taken)"
    using g(2) t(2) conjunct1 [OF conjunct2 [OF handles(3)]] by (fastforce simp: ends_run_def)
  ultimately show ?case using r(1-3) handles(3) by blast
qed

lemma first_stop: "dropWhile (\<lambda>x. \<not> P x) xs = y # ys \<Longrightarrow> P y \<and> filter P xs = y # filter P ys"
  by (induction xs) (auto split: if_splits)

text \<open>So \<open>Run\<close> returns the message of the first fatal event reported, if there is a handler for it.\<close>

lemma reporting_result:
  fixes es :: "(level \<times> string) list"
  defines "msgs \<equiv> map snd (filter (\<lambda>e. fst e = LevelFatal) es)"
  assumes r: "reporting eh0 es eh" and eh0: "pending eh0 = []" "\<not> updateQueue_closed eh0"
  shows "fst (EventHandler_Run eh) =
    (if LevelFatal \<in> eventHandlers eh0 \<and> msgs \<noteq> [] then RunReturns (OtherError (hd msgs)) else RunWaits)"
proof -
  let ?stop = "ends_run (eventHandlers eh)"
  obtain gone where p: "eventHandlers eh = eventHandlers eh0" "\<not> updateQueue_closed eh"
    "heard eh0 es = gone @ map (\<lambda>e. (ev_level e, ev_message e)) (pending eh)"
    "LevelFatal \<in> eventHandlers eh0 \<longrightarrow> LevelFatal \<notin> fst ` set gone"
    using reporting_parts [OF r eh0(1)] eh0(2) by blast
  have "filter (\<lambda>e. fst e = LevelFatal) es = filter (\<lambda>e. fst e = LevelFatal) (heard eh0 es)"
    unfolding heard_def filter_filter by (rule filter_cong) auto
  then have msgs: "msgs = map ev_message (filter (\<lambda>e. ev_level e = LevelFatal) (pending eh))" if "LevelFatal \<in> eventHandlers eh0"
    using that p(4) by (simp add: msgs_def p(3) filter_map comp_def image_iff filter_empty_conv) force
  note run = Run_spec [OF p(2)]
  show ?thesis
  proof (cases "LevelFatal \<in> eventHandlers eh0")
    case False
    then have none: "dropWhile (\<lambda>e. \<not> ?stop e) (pending eh) = []" by (simp add: ends_run_def p(1))
    from False show ?thesis unfolding run none by simp
  next
    case True
    then have stop: "?stop = (\<lambda>e. ev_level e = LevelFatal)" by (simp add: ends_run_def p(1) fun_eq_iff)
    show ?thesis
    proof (cases "dropWhile (\<lambda>e. \<not> ?stop e) (pending eh)")
      case Nil
      then have "filter (\<lambda>e. ev_level e = LevelFatal) (pending eh) = []" by (simp add: stop filter_empty_conv)
      with msgs [OF True] show ?thesis unfolding run Nil by simp
    next
      case (Cons e rest)
      from first_stop [OF Cons] have "msgs = ev_message e # map ev_message (filter (\<lambda>e. ev_level e = LevelFatal) rest)"
        by (simp add: msgs [OF True] stop)
      with True show ?thesis unfolding run Cons by simp
    qed
  qed
qed

lemma reporting_exists:
  "int (length es) + int (length (pending eh0)) < maxQueueCap (eventQueue eh0) \<Longrightarrow> \<exists>eh. reporting eh0 es eh \<and>
    length (pending eh) \<le> length es + length (pending eh0) \<and> maxQueueCap (eventQueue eh) = maxQueueCap (eventQueue eh0)"
proof (induction es rule: rev_induct)
  case Nil
  show ?case by (auto intro: reporting.starts)
next
  case (snoc e es)
  then obtain eh where eh: "reporting eh0 es eh" "length (pending eh) \<le> length es + length (pending eh0)"
    "maxQueueCap (eventQueue eh) = maxQueueCap (eventQueue eh0)" by auto
  then have room: "int (length (pending eh)) < maxQueueCap (eventQueue eh)" using snoc.prems by simp
  then have "EventHandler_New 0 0 None (fst e) (snd e) None eh \<noteq> None"
    by (auto simp: EventHandler_New_def eventQueue_Push_def Let_def)
  then obtain eh' where eh': "EventHandler_New 0 0 None (fst e) (snd e) None eh = Some eh'" by blast
  with room have "length (pending eh') \<le> Suc (length (pending eh))" "maxQueueCap (eventQueue eh') = maxQueueCap (eventQueue eh)"
    by (auto simp: EventHandler_New_def eventQueue_Push_def Let_def split: if_splits)
  with reporting.reports [OF eh(1) room eh'] eh(2,3) show ?case by auto
qed

section \<open>The built instance\<close>

lemma calm_up_failed [calm]: "up_failed err w = (e, w') \<Longrightarrow> alarms w' = alarms w"
  by (auto simp: up_failed_def Let_def split: prod.splits dest: calm_driver)

lemma calm_repo_Up [calm]: "repo_Up w = (e, w') \<Longrightarrow> alarms w' = alarms w"
  by (auto simp: repo_Up_def Let_def split: prod.splits option.splits sum.splits if_splits dest!: calm)

lemma calm_repo_Count [calm]: "repo_Count w = (x, w') \<Longrightarrow> alarms w' = alarms w"
  by (auto simp: repo_Count_def Let_def split: prod.splits sum.splits dest!: calm)

lemma alarms_with_metric [simp]: "alarms (with_metric t m w) = alarms w"
  by (simp add: with_metric_def)

lemma alarms_mon_Publish: "alarms (snd (mon_Publish t v w)) = alarms w"
  by (simp add: alarms_def)

lemma alarms_task_manager_New:
  "task_manager_New merge (mysql_ops r my) options w = Some (s, w') \<Longrightarrow> alarms w' = alarms w"
proof -
  assume new: "task_manager_New merge (mysql_ops r my) options w = Some (s, w')"
  obtain e w1 where up: "repo_Up w = (e, w1)" by (metis surj_pair)
  obtain n err w2 where count: "repo_Count w1 = ((n, err), w2)" by (metis surj_pair)
  have "e = None" "err = None" using new by (auto simp: task_manager_New_def mysql_ops_def up count Let_def bind_eq_Some_conv
      split: if_splits)
  with new obtain w3 X where x: "init_or_panic AllTasks IntegralMetricType w2 = Some w3"
    "(case mon_Publish AllTasks n w3 of (Some err, w) \<Rightarrow> None | (None, w) \<Rightarrow> Some (X, w)) = Some (s, w')"
    by (fastforce simp: task_manager_New_def mysql_ops_def up count Let_def bind_eq_Some_conv)
  then have i: "init_or_panic AllTasks IntegralMetricType w2 = Some w3" "snd (mon_Publish AllTasks n w3) = w'"
    by (cases "mon_Publish AllTasks n w3"; cases "fst (mon_Publish AllTasks n w3)"; simp)+
  then show ?thesis
    using calm_repo_Up [OF up] calm_repo_Count [OF count] init_or_panic_metric [OF i(1)]
      alarms_mon_Publish [of AllTasks n w3] by simp
qed

lemma error_service_New_fresh: "error_service_New merge options = Some eh \<Longrightarrow> pending eh = [] \<and> \<not> updateQueue_closed eh"
  by (auto simp: error_service_New_def Let_def bind_eq_Some_conv)

lemma built_handler:
  fixes hook :: "'x triggerHook" and w v :: "'a repo_world_scheme"
  assumes b: "Build G sql_Open ping my newId 0 config w (no_senders v) = Some (hook, st)"
  shows "alarms (live_world (live_start hook st)) = alarms w" "pending (hook_eventHandler hook) = []"
    "\<not> updateQueue_closed (hook_eventHandler hook)"
proof -
  obtain mo w1 w2 w3 where p:
    "task_manager_New (merge_task_manager G) (mysql_ops (hook_repository hook) my) (Some (TaskManagerOptions config))
       (w\<lparr>monitor := mo\<rparr>) = Some (hook_taskManager hook, w1)"
    "preloader_New (merge_preloader G) (Some (PreloaderServiceOptions config)) w1 = Some (hook_preloadingService hook, w2)"
    "waiting_New (merge_waiting G) (Some (WaitingServiceOptions config)) w2 = Some (hook_waitingService hook, w3)"
    "sender_New (merge_sender G) (Some (SenderServiceOptions config)) 0 w3 (no_senders v) = Some (hook_senderService hook, st)"
    by (rule Build_parts [OF b]) blast
  from sender_New_world [OF p(4)] waiting_New_world [OF p(3)] preloader_New_world [OF p(2)] alarms_task_manager_New [OF p(1)]
  show "alarms (live_world (live_start hook st)) = alarms w" by (simp add: live_start_def Let_def)
  have "error_service_New (merge_error G) (Some (ErrorServiceOptions config)) = Some (hook_eventHandler hook)"
    using b by (auto simp: Build_def Let_def bind_eq_Some_conv)
  then show "pending (hook_eventHandler hook) = []" "\<not> updateQueue_closed (hook_eventHandler hook)"
    using error_service_New_fresh by blast+
qed

section \<open>Property\<close>

text \<open>
  C6: \<open>Run\<close> of the instance returns exactly when the instance cannot go on, and says why. In every run of a
  built instance, whatever calls of the database fail, the fatal events in its log are exactly those of
  its fatal failures: one for each failed search and each collection that could not be read, and the
  error of each failed confirmation. As long as its event handler keeps up with the events, \<open>Run\<close> returns one of these
  messages if there was such a failure and a handler for fatal events is registered; otherwise it waits
  for further events.
\<close>

theorem Run_returns_fatal_failure:
  fixes hook :: "'x triggerHook" and w v :: "'a repo_world_scheme"
  assumes "Build G sql_Open ping my newId 0 config w (no_senders v) = Some (hook, st)" "events w = []"
    and "live_run hook (hook_TM hook my uuid_ok) (getTasksByCollection my) (live_start hook st) ls s"
    and "reporting (hook_eventHandler hook) (events (live_world s)) eh"
  shows "image_mset snd {#e \<in># mset (events (live_world s)). fst e = LevelFatal#} = failures ls s \<and>
    (if fatal ls s \<and> LevelFatal \<in> eventHandlers (hook_eventHandler hook)
     then \<exists>m \<in># failures ls s. fst (hook_Run (hook\<lparr>hook_eventHandler := eh\<rparr>)) = RunReturns (OtherError m)
     else fst (hook_Run (hook\<lparr>hook_eventHandler := eh\<rparr>)) = RunWaits)"
proof -
  note b = built_handler [OF assms(1)]
  have w: "alarms (live_world (live_start hook st)) = []" using b(1) assms(2) by (simp add: alarms_def)
  have "results (live_pipeline (live_start hook st)) = []" by (simp add: live_start_def Let_def pipeline_start_def)
  from mysql_quiet_instance.reported [OF assms(3) [unfolded hook_TM_def] this]
  have log: "mset (alarms (live_world s)) = failures ls s" by (simp add: w)
  then have ne: "fatal ls s \<longleftrightarrow> alarms (live_world s) \<noteq> []" by (simp add: fatal_failures flip: mset_zero_iff)
  have run: "hook_Run (hook\<lparr>hook_eventHandler := eh\<rparr>) = EventHandler_Run eh" by (simp add: hook_Run_def)
  have "m \<in># failures ls s" if "m = hd (alarms (live_world s))" "fatal ls s" for m
    using that ne by (simp flip: log)
  then show ?thesis
    using reporting_result [OF assms(4) b(2,3), folded alarms_def] log ne
    by (auto simp: run alarms_def)
qed

text \<open>An instance with a handler for fatal events, whose database goes away before the first search.\<close>

definition failing_build :: "(unit triggerHook \<times> repo_world senders) option" where
  "failing_build = (let w = (timed_world 48)\<lparr>outcomes := replicate 6 Acked @ [Refused (DriverError ''gone'')]\<rparr>
     in Build standard_mergo Some (\<lambda>_. True) example_mysql ''me'' 0
       (zero_config\<lparr>ErrorServiceOptions := \<lparr>opt_EventHandlers = {LevelFatal}, opt_Debug = False, opt_EventCap = 0\<rparr>\<rparr>)
       w (no_senders w))"

definition failing_end :: "unit triggerHook \<Rightarrow> live_label list \<Rightarrow> repo_world live \<Rightarrow> bool" where
  "failing_end hook ls s \<longleftrightarrow> ls = [SearchFails] \<and> results (live_pipeline s) = [] \<and> length (events (live_world s)) < 10 \<and>
     LevelFatal \<in> eventHandlers (hook_eventHandler hook) \<and> maxQueueCap (eventQueue (hook_eventHandler hook)) = 1000"

lemma sample_failure:
  "case failing_build of None \<Rightarrow> False | Some (hook, st) \<Rightarrow>
    (case play hook (sample_TM hook) (getTasksByCollection example_mysql) (\<lambda>_ _ _ _. True) [Search] [] (live_start hook st) of
       None \<Rightarrow> False | Some (ls, s) \<Rightarrow> failing_end hook ls s)"
  by code_simp

theorem Run_returns_fatal_failure_witness:
  "\<exists>hook st s eh. failing_build = Some (hook, st) \<and>
     live_run hook (sample_TM hook) (getTasksByCollection example_mysql) (live_start hook st) [SearchFails] s \<and>
     reporting (hook_eventHandler hook) (events (live_world s)) eh \<and>
     fst (hook_Run (hook\<lparr>hook_eventHandler := eh\<rparr>)) = RunReturns (OtherError ''preloader cannot get bunches of tasks'')"
proof -
  obtain hook st ls s where b: "failing_build = Some (hook, st)"
    "play hook (sample_TM hook) (getTasksByCollection example_mysql) (\<lambda>_ _ _ _. True) [Search] [] (live_start hook st) = Some (ls, s)"
    and e: "failing_end hook ls s"
    using some_pair [OF sample_failure] some_pair by blast
  have run: "live_run hook (sample_TM hook) (getTasksByCollection example_mysql) (live_start hook st) [SearchFails] s"
    using play_run [OF b(2) live_run.start start_goes_well] e by (simp add: failing_end_def)
  note built = b(1) [unfolded failing_build_def Let_def]
  have fresh: "events ((timed_world 48)\<lparr>outcomes := xs\<rparr>) = []" for xs by (simp add: timed_world_def sample_world_def)
  obtain eh where eh: "reporting (hook_eventHandler hook) (events (live_world s)) eh"
    using reporting_exists [of "events (live_world s)" "hook_eventHandler hook"] built_handler(2) [OF built] e
    by (auto simp: failing_end_def)
  have f: "failures [SearchFails] s = {#''preloader cannot get bunches of tasks''#}"
    using e by (simp add: failing_end_def failures_def unread_lost_def)
  have "fatal [SearchFails] s \<and> LevelFatal \<in> eventHandlers (hook_eventHandler hook)" using e by (simp add: fatal_def failing_end_def)
  with Run_returns_fatal_failure [OF built fresh run eh]
  have "fst (hook_Run (hook\<lparr>hook_eventHandler := eh\<rparr>)) = RunReturns (OtherError ''preloader cannot get bunches of tasks'')"
    by (simp add: f)
  with b(1) run eh show ?thesis by blast
qed

end
