(* ===== verification/Test_Doubles.thy ===== *)
theory Test_Doubles
  imports Task_Manager_Contract
begin

text \<open>
  The test doubles (\<open>*_mock.go\<close>) that the library ships for its interfaces: structs of function fields,
  some of which may be nil, and methods that call them. A user's function may panic (\<open>None\<close>), as does
  the call of a nil function or of a method promoted from a nil embedded interface.
\<close>

section \<open>ErrorHandlerMock and MonitoringMock\<close>

text \<open>\<open>Run\<close> is not a method of its own: it is promoted from the embedded \<open>EventHandlerInterface\<close>.\<close>

record 'w ErrorHandlerMock =
  embedded_Run :: "('w \<Rightarrow> (go_error option \<times> 'w) option) option"
  NewMock :: "(level \<Rightarrow> string \<Rightarrow> 'w \<Rightarrow> 'w option) option"

definition ErrorHandlerMock_New :: "'w ErrorHandlerMock \<Rightarrow> level \<Rightarrow> string \<Rightarrow> 'w \<Rightarrow> 'w option" where
  "ErrorHandlerMock_New tm level eventMessage w =
     (case NewMock tm of Some f \<Rightarrow> f level eventMessage w | None \<Rightarrow> Some w)"

definition ErrorHandlerMock_Run :: "'w ErrorHandlerMock \<Rightarrow> 'w \<Rightarrow> (go_error option \<times> 'w) option" where
  "ErrorHandlerMock_Run tm w = Option.bind (embedded_Run tm) (\<lambda>run. run w)"

record 'w MonitoringMock =
  InitMock :: "(topic \<Rightarrow> metric_type \<Rightarrow> 'w \<Rightarrow> (go_error option \<times> 'w) option) option"
  PublishMock :: "(topic \<Rightarrow> int64 \<Rightarrow> 'w \<Rightarrow> (go_error option \<times> 'w) option) option"
  ListenMock :: "(topic \<Rightarrow> ('w \<Rightarrow> int64) \<Rightarrow> 'w \<Rightarrow> (go_error option \<times> 'w) option) option"
  RunMock :: "('w \<Rightarrow> 'w option) option"

definition MonitoringMock_Init :: "'w MonitoringMock \<Rightarrow> topic \<Rightarrow> metric_type \<Rightarrow> 'w \<Rightarrow> (go_error option \<times> 'w) option" where
  "MonitoringMock_Init m topic metricType w =
     (case InitMock m of None \<Rightarrow> Some (None, w) | Some f \<Rightarrow> f topic metricType w)"

definition MonitoringMock_Publish :: "'w MonitoringMock \<Rightarrow> topic \<Rightarrow> int64 \<Rightarrow> 'w \<Rightarrow> (go_error option \<times> 'w) option" where
  "MonitoringMock_Publish m topic measurement w =
     (case PublishMock m of None \<Rightarrow> Some (None, w) | Some f \<Rightarrow> f topic measurement w)"

definition MonitoringMock_Listen ::
    "'w MonitoringMock \<Rightarrow> topic \<Rightarrow> ('w \<Rightarrow> int64) \<Rightarrow> 'w \<Rightarrow> (go_error option \<times> 'w) option" where
  "MonitoringMock_Listen m topic callback w =
     (case ListenMock m of None \<Rightarrow> Some (None, w) | Some f \<Rightarrow> f topic callback w)"

definition MonitoringMock_Run :: "'w MonitoringMock \<Rightarrow> 'w \<Rightarrow> 'w option" where
  "MonitoringMock_Run m w = (case RunMock m of None \<Rightarrow> Some w | Some f \<Rightarrow> f w)"

section \<open>RepositoryMock and CollectionsMock\<close>

record 'w RepositoryMock =
  CreateMock :: "(task \<Rightarrow> bool \<Rightarrow> 'w \<Rightarrow> (go_error option \<times> 'w) option) option"
  DeleteMock :: "(task list \<Rightarrow> 'w \<Rightarrow> ((int \<times> go_error option) \<times> 'w) option) option"
  FindBySecToExecTimeMock :: "(duration \<Rightarrow> 'w \<Rightarrow> ((nat list option \<times> go_error option) \<times> 'w) option) option"
  UpMock :: "('w \<Rightarrow> (go_error option \<times> 'w) option) option"
  CountMock :: "('w \<Rightarrow> ((int \<times> go_error option) \<times> 'w) option) option"

definition RepositoryMock_Create :: "'w RepositoryMock \<Rightarrow> task \<Rightarrow> bool \<Rightarrow> 'w \<Rightarrow> (go_error option \<times> 'w) option" where
  "RepositoryMock_Create r task isTaken w = Option.bind (CreateMock r) (\<lambda>f. f task isTaken w)"

definition RepositoryMock_Delete :: "'w RepositoryMock \<Rightarrow> task list \<Rightarrow> 'w \<Rightarrow> ((int \<times> go_error option) \<times> 'w) option" where
  "RepositoryMock_Delete r tasks w = Option.bind (DeleteMock r) (\<lambda>f. f tasks w)"

definition RepositoryMock_Up :: "'w RepositoryMock \<Rightarrow> 'w \<Rightarrow> (go_error option \<times> 'w) option" where
  "RepositoryMock_Up r w = (case UpMock r of None \<Rightarrow> Some (None, w) | Some f \<Rightarrow> f w)"

definition RepositoryMock_Count :: "'w RepositoryMock \<Rightarrow> 'w \<Rightarrow> ((int \<times> go_error option) \<times> 'w) option" where
  "RepositoryMock_Count r w =
     (if UpMock r = None then Some ((0, None), w) else Option.bind (CountMock r) (\<lambda>f. f w))"

definition RepositoryMock_Find ::
    "'w RepositoryMock \<Rightarrow> duration \<Rightarrow> 'w \<Rightarrow> ((nat list option \<times> go_error option) \<times> 'w) option" where
  "RepositoryMock_Find r preloadingTimeRange w = Option.bind (FindBySecToExecTimeMock r) (\<lambda>f. f preloadingTimeRange w)"

record 'w CollectionsMock =
  NextMock :: "('w \<Rightarrow> ((task list \<times> go_error option) \<times> 'w) option) option"

definition CollectionsMock_Next :: "'w CollectionsMock \<Rightarrow> 'w \<Rightarrow> ((task list \<times> go_error option) \<times> 'w) option" where
  "CollectionsMock_Next c w = Option.bind (NextMock c) (\<lambda>f. f w)"

text \<open>The double as an implementation of \<open>contracts.RepositoryInterface\<close>.\<close>

definition mock_repository :: "'w RepositoryMock \<Rightarrow> 'w repository_ops" where
  "mock_repository r = \<lparr>op_Create = RepositoryMock_Create r, op_Delete = RepositoryMock_Delete r,
     op_Find = RepositoryMock_Find r, op_Up = RepositoryMock_Up r, op_Count = RepositoryMock_Count r\<rparr>"

section \<open>TaskManagerMock\<close>

text \<open>The task behind the pointer is an argument and part of the result.\<close>

record 'w TaskManagerMock =
  ConfirmExecutionMock :: "(task list \<Rightarrow> 'w \<Rightarrow> (go_error option \<times> 'w) option) option"
  tm_CreateMock :: "(task \<Rightarrow> bool \<Rightarrow> 'w \<Rightarrow> ((go_error option \<times> task) \<times> 'w) option) option"
  tm_DeleteMock :: "(string \<Rightarrow> 'w \<Rightarrow> (go_error option \<times> 'w) option) option"
  GetTasksToCompleteMock :: "(duration \<Rightarrow> 'w \<Rightarrow> ((nat list option \<times> go_error option) \<times> 'w) option) option"

definition TaskManagerMock_Confirm :: "'w TaskManagerMock \<Rightarrow> task list \<Rightarrow> 'w \<Rightarrow> (go_error option \<times> 'w) option" where
  "TaskManagerMock_Confirm tm tasks w = Option.bind (ConfirmExecutionMock tm) (\<lambda>f. f tasks w)"

definition TaskManagerMock_Create ::
    "'w TaskManagerMock \<Rightarrow> task \<Rightarrow> bool \<Rightarrow> 'w \<Rightarrow> ((go_error option \<times> task) \<times> 'w) option" where
  "TaskManagerMock_Create tm task isTaken w = Option.bind (tm_CreateMock tm) (\<lambda>f. f task isTaken w)"

definition TaskManagerMock_Get ::
    "'w TaskManagerMock \<Rightarrow> duration \<Rightarrow> 'w \<Rightarrow> ((nat list option \<times> go_error option) \<times> 'w) option" where
  "TaskManagerMock_Get tm preloadingTimeRange w = Option.bind (GetTasksToCompleteMock tm) (\<lambda>f. f preloadingTimeRange w)"

definition TaskManagerMock_Delete :: "'w TaskManagerMock \<Rightarrow> string \<Rightarrow> 'w \<Rightarrow> (go_error option \<times> 'w) option" where
  "TaskManagerMock_Delete tm taskId w = Option.bind (tm_DeleteMock tm) (\<lambda>f. f taskId w)"

text \<open>The double as an implementation of \<open>contracts.TaskManagerInterface\<close>; it makes no ids.\<close>

definition mock_manager :: "'w TaskManagerMock \<Rightarrow> 'w task_manager_ops" where
  "mock_manager tm = \<lparr>tm_Create = (\<lambda>_. TaskManagerMock_Create tm), tm_Delete = TaskManagerMock_Delete tm,
     tm_Get = TaskManagerMock_Get tm, tm_Confirm = TaskManagerMock_Confirm tm\<rparr>"

section \<open>Doubles stand for what they are given\<close>

text \<open>
  A double whose fields are the methods of an implementation is that implementation, so a service
  tested with it is the service that runs with it.
\<close>

definition double_of_repository :: "'w repository_ops \<Rightarrow> 'w RepositoryMock" where
  "double_of_repository R = \<lparr>CreateMock = Some (op_Create R), DeleteMock = Some (op_Delete R),
     FindBySecToExecTimeMock = Some (op_Find R), UpMock = Some (op_Up R), CountMock = Some (op_Count R)\<rparr>"

lemma mock_repository_of: "mock_repository (double_of_repository R) = R"
  by (simp add: mock_repository_def double_of_repository_def RepositoryMock_Create_def RepositoryMock_Delete_def
      RepositoryMock_Find_def RepositoryMock_Up_def RepositoryMock_Count_def fun_eq_iff)

text \<open>
  A task manager over a double with every function set keeps the promises it keeps over the
  functions themselves: over the double of any repository with the repository's contract, creating a
  task has one of the documented outcomes and does not panic.
\<close>

theorem manager_over_double:
  assumes "repository_contract R sound stored_in" "sound w" "1 \<le> maxRetry s"
  shows "\<exists>err t' w'. task_manager_Create s (mock_repository (double_of_repository R)) uuid_ok new_id t isTaken w = Some ((err, t'), w') \<and>
    sound w' \<and> creation_outcome uuid_ok t t' (stored_in w) err (stored_in w')"
  using repository_contract.manager_create [OF assms, of uuid_ok new_id t isTaken] unfolding mock_repository_of by blast

text \<open>
  C40: The double's \<open>Count\<close> looks at the wrong field: while \<open>UpMock\<close> is nil the function in \<open>CountMock\<close> is
  never called, so that a task manager built over the double starts its metric \<open>All\<close> with 0 whatever
  \<open>CountMock\<close> would answer; and with \<open>UpMock\<close> set and \<open>CountMock\<close> nil, which means for every other
  field with a default that the default is used, \<open>New\<close> panics.
\<close>

theorem double_counts_by_the_wrong_field:
  fixes r :: "'a world_scheme RepositoryMock"
  shows "task_manager_New merge (mock_repository (r\<lparr>UpMock := None, CountMock := c\<rparr>)) options w =
      task_manager_New merge (mock_repository (r\<lparr>UpMock := None, CountMock := Some (\<lambda>w. Some ((0, None), w))\<rparr>)) options w \<and>
    task_manager_New merge (mock_repository (r\<lparr>UpMock := Some up, CountMock := None\<rparr>)) options w = None"
proof
  show "task_manager_New merge (mock_repository (r\<lparr>UpMock := None, CountMock := c\<rparr>)) options w =
      task_manager_New merge (mock_repository (r\<lparr>UpMock := None, CountMock := Some (\<lambda>w. Some ((0, None), w))\<rparr>)) options w"
    by (simp add: task_manager_New_def mock_repository_def RepositoryMock_Up_def RepositoryMock_Count_def)
  show "task_manager_New merge (mock_repository (r\<lparr>UpMock := Some up, CountMock := None\<rparr>)) options w = None"
    by (auto simp: task_manager_New_def mock_repository_def RepositoryMock_Up_def RepositoryMock_Count_def Let_def
        bind_eq_None_conv split: prod.split)
qed

end
