(* ===== verification/Benchmark.thy ===== *)
theory Benchmark
  imports Trigger_Hook
begin

text \<open>
  The load generators of \<open>cmd/benchmark\<close>: programs that use the library as its users do. Their workers
  are step relations, as everywhere; what is printed, the progress bars and the durations are left out.
  \<open>rand.Intn\<close> is a choice of the step, \<open>util.NewId()\<close> a parameter of it. \<open>log.Fatal\<close> ends the program.
\<close>

section \<open>main.go: clear\<close>

text \<open>The error of \<open>Up\<close> is ignored; \<open>None\<close> is the end by \<open>log.Fatal\<close>.\<close>

definition sql_delete_from_task :: "database \<Rightarrow> unit \<times> database" where
  "sql_delete_from_task db = ((), db\<lparr>task_rows := []\<rparr>)"

definition sql_delete_from_collection :: "database \<Rightarrow> unit \<times> database" where
  "sql_delete_from_collection db = ((), db\<lparr>coll_rows := []\<rparr>)"

definition clear :: "'a repo_world_scheme \<Rightarrow> 'a repo_world_scheme option" where
  "clear w =
     (let (_, w) = repo_Up w;
          (t, w) = exec_call sql_delete_from_task w
      in case t of Inl err \<Rightarrow> None
         | Inr _ \<Rightarrow> (let (c, w) = exec_call sql_delete_from_collection w
             in case c of Inl err \<Rightarrow> None | Inr _ \<Rightarrow> Some w))"

text \<open>
  \<open>main\<close>: the test to run on the cleared database, with the number of tasks; \<open>log.Fatal\<close> ends it for any
  other name. The two tests build a hook, the second with a subscriber.
\<close>

datatype benchmark = CreatingAndDeleting int | SendingAndConfirmation int

definition main :: "string \<Rightarrow> int \<Rightarrow> 'a repo_world_scheme \<Rightarrow> (benchmark \<times> 'a repo_world_scheme) option" where
  "main testName taskCount w = do {
     w \<leftarrow> clear w;
     if testName = ''creating_and_deleting'' then Some (CreatingAndDeleting taskCount, w)
     else if testName = ''sending_and_confirmation'' then Some (SendingAndConfirmation taskCount, w)
     else None
   }"

definition creating_config :: "connection_options \<Rightarrow> config" where
  "creating_config options = zero_config\<lparr>Connection_options := options\<rparr>"

definition sending_config :: "connection_options \<Rightarrow> config" where
  "sending_config options = zero_config\<lparr>Connection_options := options, MonitoringServiceOptions :=
     (MonitoringServiceOptions zero_config)\<lparr>opt_PeriodMeasure := 100 * millisecond, opt_Subscriptions := [ConfirmationRate]\<rparr>\<rparr>"

lemma exec_call_answered: "exec_call f w = (Inr r, w') \<Longrightarrow> database w' = snd (f (database w))"
  by (erule exec_call_cases) simp_all

lemma clear_empties:
  assumes "clear w = Some w'"
  shows "stored_tasks w' = Map.empty"
proof -
  obtain u w1 t w2 c where "exec_call sql_delete_from_task w1 = (Inr t, w2)" "exec_call sql_delete_from_collection w2 = (Inr c, w')"
    using assms by (auto simp: clear_def Let_def split: prod.splits sum.splits)
  note this [THEN exec_call_answered]
  then have "task_rows (database w') = []" by (simp add: sql_delete_from_task_def sql_delete_from_collection_def)
  then show ?thesis by (simp add: stored_tasks_def stored_def home_def task_map_def fun_eq_iff)
qed

section \<open>createTasks\<close>

text \<open>
  \<open>cr_i w\<close> is the loop variable of worker \<open>w\<close>, \<open>cr_task w\<close> the task it has created and not yet sent on
  the channel; \<open>cr_preloaded\<close> is what \<open>CreateCtx\<close> sends to the waiting service.
\<close>

record 'w creators =
  cr_world :: 'w
  cr_i :: "nat \<Rightarrow> nat"
  cr_task :: "nat \<Rightarrow> task option"
  createdTask :: "task list"
  cr_preloaded :: "task list"

definition creator_workers :: nat where
  "creator_workers = 8"

text \<open>\<open>make\<close> panics on a negative capacity.\<close>

definition creators_start :: "int \<Rightarrow> 'w \<Rightarrow> 'w creators option" where
  "creators_start numberOfTask w = (if numberOfTask < 0 then None
     else Some \<lparr>cr_world = w, cr_i = (\<lambda>_. 0), cr_task = (\<lambda>_. None), createdTask = [], cr_preloaded = []\<rparr>)"

definition in_an_hour :: "int \<Rightarrow> nat \<Rightarrow> task" where
  "in_an_hour now r = \<lparr>task_id = [], exec_time = Unix (now + 3600 * second + int r * second)\<rparr>"

inductive creators_step ::
    "'x triggerHook \<Rightarrow> 'a world_scheme task_manager_ops \<Rightarrow> int \<Rightarrow> nat \<Rightarrow> 'a world_scheme creators \<Rightarrow> 'a world_scheme creators \<Rightarrow> bool"
    for hook TM numberOfTask dispersion where
  creates: "k < creator_workers \<Longrightarrow> cr_task s k = None \<Longrightarrow> int (cr_i s k) < numberOfTask div int creator_workers \<Longrightarrow>
    time_Now (cr_world s) = (now, w) \<Longrightarrow> r < dispersion \<Longrightarrow>
    CreateCtx hook TM new_id (in_an_hour now r) w = Some ((err, t, out), w') \<Longrightarrow>
    creators_step hook TM numberOfTask dispersion s
      (s\<lparr>cr_world := w', cr_task := (cr_task s)(k := Some t), cr_preloaded := cr_preloaded s @ out\<rparr>)"
| sends: "cr_task s k = Some t \<Longrightarrow> int (length (createdTask s)) < numberOfTask \<Longrightarrow>
    creators_step hook TM numberOfTask dispersion s
      (s\<lparr>createdTask := createdTask s @ [t], cr_task := (cr_task s)(k := None), cr_i := (cr_i s)(k := Suc (cr_i s k))\<rparr>)"

text \<open>\<open>wg.Wait()\<close> returns.\<close>

definition creators_over :: "int \<Rightarrow> 'w creators \<Rightarrow> bool" where
  "creators_over numberOfTask s \<longleftrightarrow> (\<forall>k < creator_workers.
     cr_task s k = None \<and> \<not> int (cr_i s k) < numberOfTask div int creator_workers)"

section \<open>deleteTasks\<close>

record 'w deleters =
  de_world :: 'w
  de_tasks :: "task list"
  de_task :: "nat \<Rightarrow> task option"
  de_ended :: "nat \<Rightarrow> bool"
  de_fatal :: bool

definition deleter_workers :: nat where
  "deleter_workers = 10"

definition deleters_start :: "task list \<Rightarrow> 'w \<Rightarrow> 'w deleters" where
  "deleters_start tasks w = \<lparr>de_world = w, de_tasks = tasks, de_task = (\<lambda>_. None), de_ended = (\<lambda>_. False), de_fatal = False\<rparr>"

inductive deleters_step ::
    "'a world_scheme task_manager_ops \<Rightarrow> 'a world_scheme deleters \<Rightarrow> 'a world_scheme deleters \<Rightarrow> bool" for TM where
  receives: "\<not> de_fatal s \<Longrightarrow> k < deleter_workers \<Longrightarrow> \<not> de_ended s k \<Longrightarrow> de_task s k = None \<Longrightarrow> de_tasks s = t # ts \<Longrightarrow>
    deleters_step TM s (s\<lparr>de_tasks := ts, de_task := (de_task s)(k := Some t)\<rparr>)"
| channel_ends: "\<not> de_fatal s \<Longrightarrow> k < deleter_workers \<Longrightarrow> \<not> de_ended s k \<Longrightarrow> de_task s k = None \<Longrightarrow> de_tasks s = [] \<Longrightarrow>
    deleters_step TM s (s\<lparr>de_ended := (de_ended s)(k := True)\<rparr>)"
| deletes: "\<not> de_fatal s \<Longrightarrow> de_task s k = Some t \<Longrightarrow> DeleteCtx TM (task_id t) (de_world s) = Some ((None, out), w) \<Longrightarrow>
    deleters_step TM s (s\<lparr>de_world := w, de_task := (de_task s)(k := None)\<rparr>)"
| fails: "\<not> de_fatal s \<Longrightarrow> de_task s k = Some t \<Longrightarrow> DeleteCtx TM (task_id t) (de_world s) = Some ((Some err, out), w) \<Longrightarrow>
    deleters_step TM s (s\<lparr>de_world := w, de_fatal := True\<rparr>)"

definition deleters_over :: "'w deleters \<Rightarrow> bool" where
  "deleters_over s \<longleftrightarrow> \<not> de_fatal s \<and> (\<forall>k < deleter_workers. de_ended s k)"

section \<open>upInitialState\<close>

record 'w uploaders =
  up_world :: 'w
  up_i :: "nat \<Rightarrow> nat"

definition uploader_workers :: nat where
  "uploader_workers = 10"

definition uploaders_start :: "'w \<Rightarrow> 'w uploaders" where
  "uploaders_start w = \<lparr>up_world = w, up_i = (\<lambda>_. 0)\<rparr>"

text \<open>The times are before \<open>now\<close>, by less than \<open>dispersion = 300\<close> seconds. An error is only logged.\<close>

inductive uploaders_step ::
    "'a world_scheme repository_ops \<Rightarrow> int \<Rightarrow> unix_time \<Rightarrow> 'a world_scheme uploaders \<Rightarrow> 'a world_scheme uploaders \<Rightarrow> bool"
    for R taskCount now where
  uploads: "k < uploader_workers \<Longrightarrow> int (up_i s k) < taskCount div int uploader_workers \<Longrightarrow> r < (300 :: nat) \<Longrightarrow>
    op_Create R \<lparr>task_id = new_id, exec_time = now - int r\<rparr> False (up_world s) = Some (err, w) \<Longrightarrow>
    uploaders_step R taskCount now s (s\<lparr>up_world := w, up_i := (up_i s)(k := Suc (up_i s k))\<rparr>)"

section \<open>sendingAndConfirmation\<close>

text \<open>
  The subscriber to \<open>ConfirmationRate\<close>: the tasks confirmed so far, and whether \<open>wait\<close> is closed, which is
  what \<open>sendingAndConfirmation\<close> waits for. Closing a closed channel panics.
\<close>

fun on_measurement :: "int \<Rightarrow> int \<Rightarrow> int \<times> bool \<Rightarrow> (int \<times> bool) option" where
  "on_measurement taskCount m (confirmed, closed) =
     (let confirmed = confirmed + m
      in if confirmed = taskCount then (if closed then None else Some (confirmed, True)) else Some (confirmed, closed))"

fun on_measurements :: "int \<Rightarrow> int list \<Rightarrow> int \<times> bool \<Rightarrow> (int \<times> bool) option" where
  "on_measurements taskCount [] s = Some s"
| "on_measurements taskCount (m # ms) s = Option.bind (on_measurement taskCount m s) (on_measurements taskCount ms)"

text \<open>
  The loop \<open>Consume().Confirm()\<close>: the calls on the handles for the handles and tasks that \<open>Consume\<close>
  returns. They are proper use at every moment, so the theorems that ask for it apply to the benchmark.
\<close>

fun consumer_calls :: "(nat \<times> task) list \<Rightarrow> sender_label list" where
  "consumer_calls [] = []"
| "consumer_calls ((a, t) # rest) = ConsumeStarts 0 a # Consumes 0 a t # CallsConfirm a # consumer_calls rest"

lemma held_fold: "held (ls @ ls') = fold held_after ls' (held ls)"
  by (simp add: held_def)

lemma consumer_is_proper: "held ls = {#} \<Longrightarrow> consumer_calls ats = pre @ c # post \<Longrightarrow> proper_call (held (ls @ pre)) c"
proof (induction ats arbitrary: ls pre)
  case (Cons at ats)
  obtain a t where at: "at = (a, t)" by (metis surj_pair)
  let ?three = "[ConsumeStarts 0 a, Consumes 0 a t, CallsConfirm a]"
  have "?three @ consumer_calls ats = pre @ c # post" using Cons.prems(2) at by simp
  then consider "pre = []" "c = ConsumeStarts 0 a" | "pre = [ConsumeStarts 0 a]" "c = Consumes 0 a t" |
    "pre = [ConsumeStarts 0 a, Consumes 0 a t]" "c = CallsConfirm a" |
    pre' where "pre = ?three @ pre'" "consumer_calls ats = pre' @ c # post"
    by (auto simp: Cons_eq_append_conv)
  then show ?case
  proof cases
    case 4
    have "held (ls @ ?three) = {#}" using Cons.prems(1) by (simp add: held_fold)
    from Cons.IH [OF this 4(2)] 4(1) show ?thesis by simp
  qed (use Cons.prems(1) in \<open>simp_all add: held_fold\<close>)
qed simp

section \<open>What the workers do\<close>

definition creators_ok :: "int \<Rightarrow> 'w creators \<Rightarrow> bool" where
  "creators_ok n s \<longleftrightarrow> (\<forall>k. cr_task s k \<noteq> None \<longrightarrow> k < creator_workers \<and> int (cr_i s k) < n div int creator_workers) \<and>
     (\<forall>k < creator_workers. int (cr_i s k) \<le> n div int creator_workers) \<and>
     length (createdTask s) = (\<Sum>k<creator_workers. cr_i s k)"

lemma creators_step_ok:
  assumes "creators_step hook TM n d s s'" "creators_ok n s"
  shows "creators_ok n s'"
  using assms(1)
proof cases
  case (creates k now w r new_id err t out w')
  with assms(2) show ?thesis by (simp add: creators_ok_def)
next
  case (sends k t)
  have k: "k < creator_workers" "int (cr_i s k) < n div int creator_workers"
    using assms(2) sends(2) by (auto simp: creators_ok_def)
  have "(\<Sum>j<creator_workers. ((cr_i s)(k := Suc (cr_i s k))) j) = Suc (\<Sum>j<creator_workers. cr_i s j)"
    using sum_fun_upd [OF k(1), of "\<lambda>i. i" "cr_i s" "Suc (cr_i s k)"] by simp
  with sends k assms(2) show ?thesis by (auto simp: creators_ok_def)
qed

lemma creators_run_ok: "(creators_step hook TM n d)\<^sup>*\<^sup>* s s' \<Longrightarrow> creators_ok n s \<Longrightarrow> creators_ok n s'"
  by (induction rule: rtranclp_induct) (auto intro: creators_step_ok)

lemma sum_below:
  fixes f :: "nat \<Rightarrow> nat" and b :: int
  assumes "\<forall>k<n. int (f k) \<le> b"
  shows "int (\<Sum>k<n. f k) \<le> int n * b"
  using assms by (induction n) (auto simp: algebra_simps)

lemma sum_strictly_below:
  fixes f :: "nat \<Rightarrow> nat" and b :: int
  assumes "\<forall>k<n. int (f k) \<le> b" "j < n" "int (f j) < b"
  shows "int (\<Sum>k<n. f k) < int n * b"
proof -
  have "int (\<Sum>k<n. (f(j := Suc (f j))) k) \<le> int n * b" using assms by (intro sum_below) auto
  moreover have "(\<Sum>k<n. (f(j := Suc (f j))) k) = Suc (\<Sum>k<n. f k)"
    using sum_fun_upd [OF assms(2), of "\<lambda>i. i" f "Suc (f j)"] by simp
  ultimately have "int (Suc (\<Sum>k<n. f k)) \<le> int n * b" by (simp only:)
  then show ?thesis by simp
qed

text \<open>
  The workers of \<open>createTasks\<close> never wait for the channel they send to, though nothing is received
  from it before they have ended; and they create eight times the eighth of the number asked for,
  rounded down, so up to seven tasks less than the reported rate is computed with.
\<close>

theorem creators_never_wait:
  assumes "creators_start numberOfTask w = Some s0" "(creators_step hook TM numberOfTask dispersion)\<^sup>*\<^sup>* s0 s"
  shows "(cr_task s k \<noteq> None \<longrightarrow> int (length (createdTask s)) < numberOfTask) \<and>
    (creators_over numberOfTask s \<longrightarrow> int (length (createdTask s)) = numberOfTask - numberOfTask mod 8)"
proof -
  have "creators_ok numberOfTask s0" "0 \<le> numberOfTask"
    using assms(1) by (auto simp: creators_start_def creators_ok_def creator_workers_def split: if_splits)
  with creators_run_ok [OF assms(2)] have ok: "creators_ok numberOfTask s" by simp
  have m: "int creator_workers * (numberOfTask div int creator_workers) = numberOfTask - numberOfTask mod 8"
    by (simp add: creator_workers_def minus_mod_eq_mult_div)
  have "int (length (createdTask s)) < numberOfTask" if "cr_task s k \<noteq> None"
  proof -
    have "int (length (createdTask s)) < int creator_workers * (numberOfTask div int creator_workers)"
      using ok that unfolding creators_ok_def by (metis sum_strictly_below)
    also have "\<dots> \<le> numberOfTask" unfolding m by simp
    finally show ?thesis .
  qed
  moreover have "int (length (createdTask s)) = numberOfTask - numberOfTask mod 8" if "creators_over numberOfTask s"
  proof -
    have i: "int (cr_i s j) = numberOfTask div int creator_workers" if "j < creator_workers" for j
      using ok \<open>creators_over numberOfTask s\<close> that by (force simp: creators_ok_def creators_over_def)
    have "int (\<Sum>j<creator_workers. cr_i s j) = (\<Sum>j<creator_workers. numberOfTask div int creator_workers)"
      unfolding of_nat_sum using i by (intro sum.cong) auto
    with ok m show ?thesis by (simp add: creators_ok_def)
  qed
  ultimately show ?thesis by blast
qed

text \<open>The tasks that the deleting workers have still to delete, and those they have.\<close>

definition removed ::
    "('w \<Rightarrow> bool) \<Rightarrow> ('w \<Rightarrow> string \<rightharpoonup> int64) \<Rightarrow> (string \<rightharpoonup> int64) \<Rightarrow> task list \<Rightarrow> 'w deleters \<Rightarrow> bool" where
  "removed sound stored_in m0 tasks s \<longleftrightarrow> sound (de_world s) \<and> (\<forall>k\<ge>deleter_workers. de_task s k = None) \<and>
     (\<forall>k. de_ended s k \<longrightarrow> de_task s k = None \<and> de_tasks s = []) \<and>
     (\<exists>D. stored_in (de_world s) = m0 |` (- D) \<and> D \<subseteq> task_id ` set tasks \<and>
        (\<not> de_fatal s \<longrightarrow> task_id ` set tasks = D \<union> task_id ` set (de_tasks s) \<union> {task_id t |t k. de_task s k = Some t}))"

context task_manager_contract
begin

lemma deleters_step_removed:
  assumes step: "deleters_step TM s s'" and ok: "removed sound stored_in m0 tasks s"
  shows "removed sound stored_in m0 tasks s'"
proof -
  obtain D where D: "sound (de_world s)" "\<forall>k\<ge>deleter_workers. de_task s k = None"
    "\<forall>k. de_ended s k \<longrightarrow> de_task s k = None \<and> de_tasks s = []" "stored_in (de_world s) = m0 |` (- D)" "D \<subseteq> task_id ` set tasks"
    "\<not> de_fatal s \<Longrightarrow> task_id ` set tasks = D \<union> task_id ` set (de_tasks s) \<union> {task_id t |t k. de_task s k = Some t}"
    using ok by (auto simp: removed_def)
  from step show ?thesis
  proof cases
    case (receives k t ts)
    have "{task_id u |u j. ((de_task s)(k := Some t)) j = Some u} = insert (task_id t) {task_id u |u j. de_task s j = Some u}"
      using receives(5) by (auto split: if_splits) (metis option.distinct(1))
    with receives D show ?thesis by (auto simp: removed_def intro!: exI [of _ D])
  next
    case (channel_ends k)
    with D show ?thesis by (auto simp: removed_def intro!: exI [of _ D])
  next
    case (deletes k t out w)
    obtain err1 ids w1 where d: "CancelIfExist TM (task_id t) (de_world s) = Some ((err1, ids), w1)" "sound w1"
      "deletion_outcome (task_id t) (stored_in (de_world s)) err1 (stored_in w1)" using cancelling [OF D(1), of "task_id t"] by blast
    with deletes(4) have w: "sound w" "stored_in w = (stored_in (de_world s))(task_id t := None)"
      by (auto simp: DeleteCtx_def deletion_outcome_def)
    then have "stored_in w = m0 |` (- insert (task_id t) D)"
      unfolding D(4) by (auto simp: restrict_map_def fun_eq_iff)
    moreover have "task_id ` set tasks = insert (task_id t) D \<union> task_id ` set (de_tasks s) \<union>
        {task_id u |u j. ((de_task s)(k := None)) j = Some u}"
      using D(6) [OF deletes(2)] deletes(3) by (auto split: if_splits) (metis option.inject)
    ultimately show ?thesis using D(2,3,5) w(1) deletes(1,3) 
      by (auto simp: removed_def intro!: exI [of _ "insert (task_id t) D"])
  next
    case (fails k t err out w)
    obtain err1 ids w1 where d: "CancelIfExist TM (task_id t) (de_world s) = Some ((err1, ids), w1)" "sound w1"
      "deletion_outcome (task_id t) (stored_in (de_world s)) err1 (stored_in w1)" using cancelling [OF D(1), of "task_id t"] by blast
    with fails(4) have w: "sound w" "stored_in w = stored_in (de_world s) \<or> stored_in w = (stored_in (de_world s))(task_id t := None)"
      by (auto simp: DeleteCtx_def deletion_outcome_def split: if_splits)
    have "task_id t \<in> task_id ` set tasks" using D(6) [OF fails(2)] fails(3) by blast
    moreover have "(m0 |` (- D))(task_id t := None) = m0 |` (- insert (task_id t) D)" by (auto simp: restrict_map_def fun_eq_iff)
    ultimately show ?thesis using D(2,3,5) w fails(1)
      by (auto simp: removed_def D(4) intro: exI [of _ D] exI [of _ "insert (task_id t) D"])
  qed
qed

end

section \<open>Properties\<close>

text \<open>
  When the workers of \<open>deleteTasks\<close> all come to an end, exactly the tasks they were given are gone
  from the database, in whatever order they took them; otherwise the program has ended with an error
  and has removed no other task.
\<close>

theorem deleters_remove_exactly:
  fixes w :: "'a repo_world_scheme"
  assumes "repo_sound (hook_repository hook) my w" "1 \<le> maxRetry (hook_taskManager hook)"
    and "(deleters_step (hook_TM hook my uuid_ok))\<^sup>*\<^sup>* (deleters_start tasks w) s"
  shows "(deleters_over s \<longrightarrow> stored_tasks (de_world s) = stored_tasks w |` (- task_id ` set tasks)) \<and>
    (\<exists>D \<subseteq> task_id ` set tasks. stored_tasks (de_world s) = stored_tasks w |` (- D))"
proof -
  let ?sound = "\<lambda>w. repo_sound (hook_repository hook) my w \<and> 1 \<le> maxRetry (hook_taskManager hook)"
  have "removed ?sound stored_tasks (stored_tasks w) tasks (deleters_start tasks w)"
    using assms(1,2) by (auto simp: removed_def deleters_start_def intro!: exI [of _ "{}"])
  with assms(3) have r: "removed ?sound stored_tasks (stored_tasks w) tasks s"
    by (induction rule: rtranclp_induct)
      (auto simp: hook_TM_def intro: mysql_repo.manager.deleters_step_removed)
  then obtain D where D: "stored_tasks (de_world s) = stored_tasks w |` (- D)" "D \<subseteq> task_id ` set tasks"
    "\<not> de_fatal s \<Longrightarrow> task_id ` set tasks = D \<union> task_id ` set (de_tasks s) \<union> {task_id t |t k. de_task s k = Some t}"
    "\<forall>k\<ge>deleter_workers. de_task s k = None" "\<forall>k. de_ended s k \<longrightarrow> de_task s k = None \<and> de_tasks s = []"
    by (auto simp: removed_def)
  have "D = task_id ` set tasks" if "deleters_over s"
  proof -
    have "de_task s k = None" for k using that D(4,5) by (cases "k < deleter_workers") (auto simp: deleters_over_def)
    moreover have "de_tasks s = []" using that D(5) [rule_format, of 0] by (simp add: deleters_over_def deleter_workers_def)
    ultimately show ?thesis using D(3) that by (simp add: deleters_over_def)
  qed
  with D(1,2) show ?thesis by blast
qed

text \<open>The uploading workers store at most ten times the tenth of the number asked for.\<close>

definition uploaded_ok :: "('w \<Rightarrow> bool) \<Rightarrow> ('w \<Rightarrow> string \<rightharpoonup> int64) \<Rightarrow> int \<Rightarrow> 'w \<Rightarrow> 'w uploaders \<Rightarrow> bool" where
  "uploaded_ok sound stored_in n w0 s \<longleftrightarrow> sound (up_world s) \<and>
     (\<forall>k < uploader_workers. int (up_i s k) \<le> max 0 (n div int uploader_workers)) \<and>
     card (dom (stored_in (up_world s))) \<le> card (dom (stored_in w0)) + (\<Sum>k<uploader_workers. up_i s k)"

lemma uploaded_step:
  assumes c: "repository_contract R sound stored_in" and step: "uploaders_step R n now s s'"
    and ok: "uploaded_ok sound stored_in n w0 s"
  shows "uploaded_ok sound stored_in n w0 s'"
  using step
proof cases
  case (uploads k r new_id err w)
  let ?t = "\<lparr>task_id = new_id, exec_time = now - int r\<rparr>"
  have s: "sound (up_world s)" using ok by (simp add: uploaded_ok_def)
  obtain err1 w1 where "op_Create R ?t False (up_world s) = Some (err1, w1)" "sound w1"
    "create_result ?t (stored_in (up_world s)) err1 (stored_in w1)"
    using repository_contract.create [OF c s, of ?t False] by blast
  with uploads(5) have w: "sound w" "create_result ?t (stored_in (up_world s)) err (stored_in w)" by simp_all
  have "stored_in w = stored_in (up_world s) \<or> stored_in w = (stored_in (up_world s))(new_id \<mapsto> now - int r)"
    using w(2) by (auto simp: create_result_def split: option.splits if_splits)
  then have "card (dom (stored_in w)) \<le> Suc (card (dom (stored_in (up_world s))))"
    using card_insert_le_m1 by (auto simp: card_insert_if repository_contract.finite_stored [OF c s])
  moreover have "(\<Sum>j<uploader_workers. ((up_i s)(k := Suc (up_i s k))) j) = Suc (\<Sum>j<uploader_workers. up_i s j)"
    using sum_fun_upd [OF uploads(2), of "\<lambda>i. i" "up_i s" "Suc (up_i s k)"] by simp
  ultimately show ?thesis using ok w(1) uploads(1,3) by (auto simp: uploaded_ok_def)
qed


lemma not_reached:
  assumes "\<forall>m \<in> set ms. 0 \<le> m" "c + sum_list ms < n"
  shows "on_measurements n ms (c, b) = Some (c + sum_list ms, b)"
  using assms
proof (induction ms arbitrary: c)
  case (Cons m ms)
  then have "0 \<le> sum_list ms" by (simp add: sum_list_nonneg)
  with Cons show ?case by (simp add: Let_def algebra_simps)
qed simp

text \<open>
  C39: \<open>sendingAndConfirmation\<close> never ends when the number of tasks is positive and no multiple of ten:
  whatever the subscriber is told of the tasks that \<open>upInitialState\<close> has stored in the cleared database,
  \<open>wait\<close> is not closed.
\<close>

theorem benchmark_waits_forever:
  fixes w :: "'a repo_world_scheme"
  assumes "main testName taskCount w0 = Some (SendingAndConfirmation taskCount, w)" "repo_sound r my w"
    and "0 < taskCount" "taskCount mod 10 \<noteq> 0"
    and "(uploaders_step (mysql_ops r my) taskCount now)\<^sup>*\<^sup>* (uploaders_start w) s"
    and "\<forall>m \<in> set ms. 0 \<le> m" "sum_list ms \<le> int (card (dom (stored_tasks (up_world s))))"
  shows "on_measurements taskCount ms (0, False) = Some (sum_list ms, False)"
proof -
  have empty: "stored_tasks w = Map.empty"
    using assms(1) by (auto simp: main_def bind_eq_Some_conv dest: clear_empties split: if_splits)
  have "uploaded_ok (repo_sound r my) stored_tasks taskCount w (uploaders_start w)"
    using assms(2) by (simp add: uploaded_ok_def uploaders_start_def)
  with assms(5) have ok: "uploaded_ok (repo_sound r my) stored_tasks taskCount w s"
    by (induction rule: rtranclp_induct) (auto intro: uploaded_step [OF mysql_repo.repository_contract_axioms])
  have "int (\<Sum>k<uploader_workers. up_i s k) \<le> int uploader_workers * max 0 (taskCount div int uploader_workers)"
    using ok by (intro sum_below) (simp add: uploaded_ok_def)
  also have "\<dots> = taskCount - taskCount mod 10"
    using assms(3) by (simp add: uploader_workers_def minus_mod_eq_mult_div)
  finally have "int (\<Sum>k<uploader_workers. up_i s k) \<le> taskCount - taskCount mod 10" .
  then have "int (card (dom (stored_tasks (up_world s)))) \<le> taskCount - taskCount mod 10"
  proof -
    have "card (dom (stored_tasks (up_world s))) \<le> (\<Sum>k<uploader_workers. up_i s k)"
      using ok empty by (simp add: uploaded_ok_def)
    with \<open>int (\<Sum>k<uploader_workers. up_i s k) \<le> taskCount - taskCount mod 10\<close> show ?thesis by linarith
  qed
  moreover have "0 \<le> taskCount mod 10" by simp
  ultimately have "0 + sum_list ms < taskCount" using assms(4,7) by linarith
  from not_reached [OF assms(6) this] show ?thesis by simp
qed

text \<open>
  \<open>wait\<close> is closed a second time, which panics, at the measurement after the one that completes the
  count, if no further task was confirmed in its period.
\<close>

theorem benchmark_closes_twice:
  assumes "on_measurements taskCount ms (0, False) = Some (taskCount, True)"
  shows "on_measurements taskCount (ms @ [0]) (0, False) = None"
proof -
  have "on_measurements n (xs @ [0]) s = Option.bind (on_measurements n xs s) (on_measurement n 0)" for n xs s
    by (induction xs arbitrary: s) (auto simp: bind_eq_None_conv split: Option.bind_split)
  with assms show ?thesis by simp
qed

section \<open>Witnesses\<close>

text \<open>Twelve tasks asked for: the first worker stores its only one.\<close>

lemma sample_cleared:
  "\<exists>w. main ''sending_and_confirmation'' 12 (sample_world []) = Some (SendingAndConfirmation 12, w) \<and>
     repo_sound sample_repository example_mysql w"
  by (simp add: main_def clear_def repo_Up_def quiet_calls create_collection_table_def create_task_table_def create_procedure_def
      sql_delete_from_task_def sql_delete_from_collection_def repo_sound_def db_ok_def sample_repository_def sample_database_def wrap32_def)

theorem benchmark_waits_forever_witness:
  "\<exists>w s. main ''sending_and_confirmation'' 12 (sample_world []) = Some (SendingAndConfirmation 12, w) \<and>
    (uploaders_step (mysql_ops sample_repository example_mysql) 12 100)\<^sup>*\<^sup>* (uploaders_start w) s \<and> up_i s 0 = 1 \<and>
    on_measurements 12 [0, 0] (0, False) = Some (0, False)"
proof -
  let ?R = "mysql_ops sample_repository example_mysql"
  obtain w where w: "main ''sending_and_confirmation'' 12 (sample_world []) = Some (SendingAndConfirmation 12, w)"
    "repo_sound sample_repository example_mysql w" using sample_cleared by blast
  obtain err v where c: "op_Create ?R \<lparr>task_id = ''x'', exec_time = 100 - int 0\<rparr> False (up_world (uploaders_start w)) = Some (err, v)"
    using mysql_repo.create [OF w(2), of "\<lparr>task_id = ''x'', exec_time = 100\<rparr>" False] by (auto simp: uploaders_start_def)
  let ?s = "(uploaders_start w)\<lparr>up_world := v, up_i := (up_i (uploaders_start w))(0 := Suc (up_i (uploaders_start w) 0))\<rparr>"
  have "uploaders_step ?R 12 100 (uploaders_start w) ?s"
    by (rule uploads [OF _ _ _ c]) (simp_all add: uploader_workers_def uploaders_start_def)
  then have run: "(uploaders_step ?R 12 100)\<^sup>*\<^sup>* (uploaders_start w) ?s" by simp
  have "on_measurements 12 [0, 0] (0, False) = Some (sum_list [0, 0], False)"
    by (rule benchmark_waits_forever [OF w _ _ run]) simp_all
  with run w(1) show ?thesis by (auto simp: uploaders_start_def)
qed

theorem benchmark_closes_twice_witness: "on_measurements 10 ([4, 6] @ [0]) (0, False) = None"
  by (rule benchmark_closes_twice) simp

end
