(* ===== verification/Spec2Isabelle.thy ===== *)
theory Spec2Isabelle
  imports Live_Reports Test_Doubles Benchmark
begin

text \<open>
  Trigger Hook: a library that stores tasks in MySQL and hands each to a consumer when its time has
  come. This development models its packages and proves what they promise, alone and together.

  The program. A task has an id and an execution time in seconds. \<open>Create\<close> stores it
  (\<open>preloader_service\<close> over \<open>task_manager\<close> over \<open>repository\<close>) in a collection, a group of tasks with one
  execution time and an owner; a task that is due soon is stored as owned by the instance and sent to the
  waiting service at once. The preloader's loop searches the database for collections that are due
  within the preloading time, takes them for the instance, and its workers send their tasks to the
  waiting service. \<open>waiting_service\<close> keeps the tasks in a heap with an index by id, sleeps until the
  earliest is due, and sends it on; a deletion removes the task from the database and then from the
  heap. \<open>sender_service\<close> gives tasks to consumers as handles: \<open>Rollback\<close> puts the task into an
  unbounded buffer from which it is consumed again, \<open>Confirm\<close> sends it into a pipeline that deletes
  confirmed tasks from the database in batches. All parts report to \<open>error_service\<close> and
  \<open>monitoring_service\<close>. \<open>builder.go\<close> puts the parts together, \<open>trigger_hook.go\<close> is the interface.

  Theories and code (paths under \<open>src/\<close>).
    \<^item> \<open>Prelude\<close>: Go's integers, durations and clock readings, generic lemmas. \<open>Contracts\<close>: \<open>domain/task.go\<close>,
      errors, levels and topics of \<open>contracts/contracts.go\<close>, \<open>util/util.go\<close>.
    \<^item> \<open>Task_List\<close>, \<open>Task_Heap\<close>: the prioritized task list, its two contracts as locales, and its
      implementation in \<open>waiting_service/task_heap.go\<close>, \<open>heap.go\<close>, with \<open>container/heap\<close> and an explicit
      store for the shared position cells. Safety of every call sequence, minimality of \<open>Take\<close>, the
      reference function \<open>sort\<close>, deletion by id.
    \<^item> \<open>Wakeup\<close>: the protocol by which goroutines hand a mutex-protected queue to another goroutine with
      one token; used twice. \<open>Error_Service\<close>: \<open>error_service/\<close>. \<open>Monitoring_Service\<close>:
      \<open>monitoring_service/\<close>. \<open>World\<close>: both as the other parts see them.
    \<^item> \<open>Repository_Contract\<close>, \<open>Database\<close>, \<open>Repository\<close>, \<open>Repository_Properties\<close>: \<open>repository/mysql_repository.go\<close>.
      The tables, the statements and the stored procedure as functions on them, and every method call by
      call, each call of the driver with an outcome.
    \<^item> \<open>Task_Manager\<close>, \<open>Task_Manager_Contract\<close>: \<open>task_manager/task_manager.go\<close> with its retries, and the
      contract of \<open>TaskManagerInterface\<close> as a locale, which every repository that keeps its own contract
      provides (\<open>sublocale\<close>), MySQL in particular.
    \<^item> \<open>Preloader_Service\<close>: \<open>preloader_service/preloader_service.go\<close>; the workers of a pass are the step
      relation \<open>bunch_step\<close>. \<open>Waiting_Service\<close>: \<open>waiting_service/waiting_service.go\<close>; \<open>waiting_step\<close> is an
      iteration of \<open>Run\<close> or an arrival on a channel, \<open>waiting_spec\<close> the specification it refines.
    \<^item> \<open>Task_Buffer\<close>, \<open>Batch_Pipeline\<close>, \<open>Sender_Service\<close>: \<open>sender_service/\<close>: the rollback buffer
      (\<open>buffer_step\<close>, refining a queue), the goroutines between \<open>Confirm\<close> and the task manager
      (\<open>pipeline_step\<close>), and the handles with the pool of the package (\<open>sender_step\<close>).
    \<^item> \<open>Connection\<close>, \<open>Trigger_Hook\<close>: \<open>connection/mysql.go\<close>, \<open>builder.go\<close>, \<open>trigger_hook.go\<close>.
    \<^item> \<open>Task_Places\<close>: the contract of the task manager in terms of the collection and the owner of every
      stored task, as a locale, and MySQL as an instance of it. \<open>Task_Accounts\<close>: the account of a running
      instance, apart from any implementation. \<open>Live_System\<close>: \<open>triggerHook.Run\<close> and the calls of the users as
      one step relation \<open>live_step\<close>, each of whose steps is a step of a part on the shared database.
      \<open>Live_Invariants\<close>: every careful run keeps the account, over any task manager with the contract.
      \<open>Live_Punctuality\<close>: what consumers get is due. \<open>Live_Schedules\<close>: an executable choice of steps, for
      sample runs. \<open>Live_Properties\<close>: what this means for the instance that \<open>Build\<close> returns, for its successor
      after a stop, and a run that is not careful. \<open>Live_Reports\<close>: the event log of a running instance, and
      what \<open>Run\<close> of its event handler, and so \<open>triggerHook.Run\<close>, makes of it.
    \<^item> \<open>Test_Doubles\<close>: the doubles \<open>*_mock.go\<close> as implementations of the interfaces. \<open>Benchmark\<close>: the load
      generators of \<open>cmd/benchmark\<close> as users of the library.
    \<^item> This theory: the whole way of a due task through all parts.

  How Go is read. A panic is \<open>None\<close>; an \<open>error\<close> is a value of \<open>go_error\<close>, \<open>nil\<close> being \<open>None\<close>. \<open>int\<close> and
  \<open>int64\<close> are integers with \<open>wrap64\<close> where the code computes. A loop without an end is one function per
  iteration, or a step relation; recursion is structural or has a proved measure, and no fuel is used
  in the model. Goroutines that share state are step relations in which each access under a mutex and each
  channel operation is a step, so theorems about runs hold for every interleaving. A send that has to
  wait is a step that comes later; sleeping has no effect but the passing of time. \<open>time.Now()\<close> reads
  the next element of an arbitrary sequence. What \<open>select\<close> chooses, when a timer fires after its time, what
  \<open>sync.Pool\<close> returns and in which order a Go map is visited are choices of the step or arguments.

  Assumptions on code that is not under \<open>src/\<close>, always as hypotheses or parameters:
  \<open>documented_*_merge\<close> (\<open>mergo.Merge\<close> fills zero fields), \<open>documented_mysql\<close> (which rows the server may
  choose for \<open>LIMIT 1\<close> and in which order it answers), \<open>documented_outcome\<close> (a call of the driver may be
  refused, break off after a commit inside the procedure, or be carried out without an answer), and the
  test and generation of ids of \<open>go.uuid\<close>. Operations of the database are atomic with respect to each
  other; the deadlocks and timeouts that concurrency causes are outcomes. The range of MySQL's integer
  types and its collations are answers of the server, not part of the tables. Lemmas named \<open>quiet\<close> and
  theorems with \<open>outcomes w = []\<close> speak of runs without failures.

  Bounds. Times are compared in seconds; \<open>waiting_never_early\<close> asks for clock readings in the range of
  64-bit nanoseconds and execution times up to 9223372036, the seconds that range covers, because
  \<open>time.Duration(...) * time.Second\<close> wraps beyond it. \<open>workers_come_to_an_end\<close> bounds the steps of a pass
  explicitly; the pipeline's \<open>weight\<close> is the measure by which it drains.

  What the theorems show. Safety of single parts: no panic of the task list and the waiting service, the
  metric \<open>All\<close> counts the stored tasks whatever fails, queues stay within bounds, no wake-up is lost.
  Conservation: no part loses, repeats or makes up a task, in any interleaving. Refinement: the waiting service
  refines a multiset with timed removal, the buffer a queue. Liveness: a restarted instance sends every
  due task, confirmed tasks can always reach the database. Together: the last theorem of this theory
  follows the due tasks through all parts in turn; the theorems of \<open>Live_Properties\<close> let all parts run at
  once, with calls of the users and failures of the database at any moment, and show that until a fatal
  failure every task is in one place only, executed once and not forgotten, and that an instance may stop
  at any moment: its successor executes what it leaves; and that no consumer gets a task early. The fatal failures are
  those that the log reports as such, no more and no less, and \<open>Run\<close> returns for them and for nothing else. The theorems ask for careful use
  (\<open>careful\<close>), which is part of what they show: without it the code does lose or repeat tasks. Some theorems show
  defects: a stale handle confirms another consumer's
  task, a second sender service takes over the first one's confirmations, a cancellation can overtake
  its task, a task deleted and created again with the same id can be lost, a task created at the wrong moment is sent
  twice, a goroutine can block for ever in \<open>New\<close> of the error service, a double decides by the wrong field,
  a benchmark waits for ever.

  Not modelled. The tests; what the load generators print and measure; the user's callbacks; the contexts and their deadlines, which appear as failed calls;
  the diagnostic data passed as \<open>extra\<close> to the error handler; a channel handed out by
  \<open>GetPreloadedChan\<close> and \<open>GetReadyToSendChan\<close> is the sequence that one theory sends and the next receives.
\<close>

section \<open>From the database to the consumer and back\<close>

text \<open>The stored tasks that are not due at \<open>T\<close>, and the due ones.\<close>

definition due_tasks :: "unix_time \<Rightarrow> (string \<rightharpoonup> int64) \<Rightarrow> task set" where
  "due_tasks T m = {t. m (task_id t) = Some (exec_time t) \<and> exec_time t \<le> T}"

definition not_due :: "unix_time \<Rightarrow> (string \<rightharpoonup> int64) \<Rightarrow> string \<rightharpoonup> int64" where
  "not_due T m = (\<lambda>tid. case m tid of None \<Rightarrow> None | Some e \<Rightarrow> if e \<le> T then None else Some e)"

lemma restrict_due: "set ts = due_tasks T m \<Longrightarrow> m |` (- (task_id ` set ts)) = not_due T m"
proof (rule ext)
  fix tid assume ts: "set ts = due_tasks T m"
  have "tid \<in> task_id ` set ts \<longleftrightarrow> (\<exists>e. m tid = Some e \<and> e \<le> T)"
  proof
    assume "\<exists>e. m tid = Some e \<and> e \<le> T"
    then obtain e where "m tid = Some e" "e \<le> T" by blast
    then have "\<lparr>task_id = tid, exec_time = e\<rparr> \<in> set ts" by (simp add: ts due_tasks_def)
    then show "tid \<in> task_id ` set ts" by force
  qed (auto simp: ts due_tasks_def)
  then show "(m |` (- (task_id ` set ts))) tid = not_due T m tid"
    by (auto simp: restrict_map_def not_due_def split: option.splits)
qed

lemma waiting_sends_all:
  assumes "waiting_run heap_ops limit (waiting_start (NewPrioritizedTask [])) ls s" "canceled ls = {}"
    "tasks_in (tasksWaitingList s) = {#}" "preloadedTasks s = []"
  shows "mset (map snd (readyToSend s)) = mset (arrived ls)"
  using heap_list.run_keeps [OF assms(1) [unfolded NewPrioritizedTask_nil] wf_empty(1,2)] assms(2-4)
  by (simp add: heap_list.everything_def unless_empty)

text \<open>
  C1: Each due task is executed exactly once and leaves the database: when nothing fails, the tasks
  that a restarted instance's pass loads, that go through the waiting service until it has sent them
  all, that the consumers take and confirm with proper use of their handles, and that are sent for
  confirmation, are precisely the stored tasks due within the preloading time, each once; from there
  the confirmation pipeline can, by its own steps alone, delete exactly these tasks.
\<close>

theorem due_tasks_are_executed_once:
  fixes w :: "'a repo_world_scheme" and p :: preloadingService
  assumes "repo_sound r my w" "outcomes w = []" "1 \<le> maxRetry s" "1 \<le> workersCount p"
    "\<forall>c \<in> set (coll_rows (database w)). coll_taken c \<noteq> appInstanceId r"
    and "preloader_Run_pass p (manager_ops s (mysql_ops r my) uuid_ok) w = Some (PassWorks (Some ks), w1)"
    "bunch_steps (getTasksByCollection my) (bunch_start (workersCount p) ks w1) b" "bunch_over b"
    and "waiting_run heap_ops limit (waiting_start (NewPrioritizedTask [])) ls ws" "arrived ls = sent b" "canceled ls = {}"
    "tasks_in (tasksWaitingList ws) = {#}" "preloadedTasks ws = []"
    and "sender_New merge options 0 v (no_senders v0) = Some (cfg, st0)" "proper_run st0 sl st"
    "delivered sl = map snd (readyToSend ws)" "held sl = {#}"
    "tasksReadyToSend (services st 0) = []" "buffered (taskBuffer (services st 0)) = []"
    and "pipeline_run (manager_ops s (mysql_ops r my) uuid_ok) m (pipeline_start workers (bunch_world b)) pl q"
    "sent_tasks pl = toConfirm (services st 0)" "1 \<le> workers" "Ends \<notin> set pl"
  defines "T \<equiv> Unix (clock w (clock_reads w) + timePreload p)"
  shows "distinct (map task_id (toConfirm (services st 0))) \<and>
    set (toConfirm (services st 0)) = due_tasks T (stored_tasks w) \<and>
    (\<exists>ms q'. pipeline_run (manager_ops s (mysql_ops r my) uuid_ok) m (pipeline_start workers (bunch_world b)) (pl @ ms) q' \<and>
       set ms \<subseteq> {Works} \<and> mset (concat (map fst (results q'))) = mset (toConfirm (services st 0)) \<and>
       ((\<forall>res \<in> set (results q'). snd res = None) \<longrightarrow>
          stored_tasks (pipeline_world q') = not_due T (stored_tasks w)))"
proof -
  have sent: "distinct (map task_id (sent b))" "set (sent b) = due_tasks T (stored_tasks w)"
    using pass_sends_due [OF assms(1-5), of uuid_ok] assms(6-8) by (auto simp: due_tasks_def T_def)
  have "mset (toConfirm (services st 0)) = mset (delivered sl)"
    using proper_run_keeps [OF assms(15) start_objects_ok(1) [OF assms(14)]] assms(17-19)
    by (simp add: start_objects_ok(2) [OF assms(14)]) (simp add: service_tasks_def)
  also have "\<dots> = mset (sent b)" using waiting_sends_all [OF assms(9,11-13)] assms(10,16) by simp
  finally have m: "mset (toConfirm (services st 0)) = mset (sent b)" .
  have d: "distinct (map task_id (toConfirm (services st 0)))"
    using sent(1) m by (metis mset_eq_imp_distinct_iff mset_map)
  have e: "set (toConfirm (services st 0)) = due_tasks T (stored_tasks w)" using sent(2) mset_eq_setD [OF m] by simp
  have "repo_sound r my w1 \<and> stored_tasks w1 = stored_tasks w" by (rule pass_sound [OF assms(6,1,3)])
  then have b: "repo_sound r my (bunch_world b)" "stored_tasks (bunch_world b) = stored_tasks w"
    using bunch_sound [OF assms(7), of r] by (simp_all add: bunch_start_def)
  from pipeline_confirms [OF assms(20) b(1) assms(3,22,23)] d e show ?thesis
    unfolding assms(21) b(2) restrict_due [OF e] by blast
qed

theorem due_tasks_are_executed_once_witness:
  "\<exists>cfg st0 st (v :: repo_world) ms q. sender_New standard_sender_merge None 0 bare_world (no_senders bare_world) = Some (cfg, st0) \<and>
     proper_run st0 [Delivers 0 sample_task, ConsumeStarts 0 1, Consumes 0 1 sample_task, CallsConfirm 1] st \<and>
     set (toConfirm (services st 0)) = due_tasks 105 [''a'' \<mapsto> 50] \<and>
     pipeline_run (manager_ops sample_manager (mysql_ops sample_repository example_mysql) (\<lambda>_. True)) 1000
       (pipeline_start 5 v) (Sends sample_task # ms) q \<and>
     mset (concat (map fst (results q))) = {#sample_task#}"
proof -
  let ?r = sample_repository and ?my = example_mysql and ?w = "sample_world []" and ?p = sample_preloader
  let ?TM = "manager_ops sample_manager (mysql_ops ?r ?my) (\<lambda>_. True)"
  have h: "repo_sound ?r ?my ?w" "outcomes ?w = []" "1 \<le> maxRetry sample_manager" "1 \<le> workersCount ?p"
      "\<forall>c \<in> set (coll_rows (database ?w)). coll_taken c \<noteq> appInstanceId ?r"
    by simp_all (simp_all add: sample_database_def sample_repository_def sample_preloader_def)
  have T: "Unix (clock ?w (clock_reads ?w) + timePreload ?p) = 105"
    by (simp add: sample_world_def sample_preloader_def Unix_def second_def)
  have due: "due_tasks 105 (stored_tasks ?w) = {sample_task}"
    by (auto simp: due_tasks_def sample_stored sample_task_def split: if_splits intro!: task.equality)
  obtain pass w1 where pass: "preloader_Run_pass ?p ?TM ?w = Some (pass, w1)"
    "case pass of
       PassSleeps d \<Rightarrow> d = timePreload ?p \<and> (\<forall>tid e. stored_tasks ?w tid = Some e \<longrightarrow> 105 < e)
     | PassReturns \<Rightarrow> False
     | PassWorks c \<Rightarrow> \<exists>ks. c = Some ks \<and> (\<forall>b. bunch_steps (getTasksByCollection ?my) (bunch_start (workersCount ?p) ks w1) b \<and> bunch_over b \<longrightarrow>
         distinct (map task_id (sent b)) \<and>
         set (sent b) = {t. stored_tasks ?w (task_id t) = Some (exec_time t) \<and> exec_time t \<le> 105})"
    using pass_sends_due [OF h, of "\<lambda>_. True"] unfolding T by blast
  then obtain ks where ks: "pass = PassWorks (Some ks)"
    using sample_tasks_due by (cases pass) force+
  obtain b where b: "bunch_steps (getTasksByCollection ?my) (bunch_start (workersCount ?p) ks w1) b" "bunch_over b"
    using mysql_reader.bunch_ends [OF bunch_start_facts(1)] by blast
  with pass ks have "distinct (map task_id (sent b))" "set (sent b) = {sample_task}"
    using due by (simp_all add: due_tasks_def)
  then have sent: "sent b = [sample_task]" by (cases "sent b"; cases "tl (sent b)") auto
  let ?ls = "[Arrives sample_task, Iterates (1 * second) (GetsTask sample_task 0), Iterates (10 * second) (TimerFires (50 * second))]"
  obtain ws where ws: "waiting_run heap_ops 10 (waiting_start (NewPrioritizedTask [])) ?ls ws"
    "readyToSend ws = [(50 * second, sample_task)]" by (rule sample_runs)
  have ls: "arrived ?ls = sent b" "canceled ?ls = {}" by (simp_all add: arrived_def canceled_def sent)
  have "unless {} (heap_list.everything ws) = unless {} (mset [sample_task])"
    using heap_list.run_keeps [OF ws(1) [unfolded NewPrioritizedTask_nil] wf_empty(1,2)] unfolding ls(1,2) sent by blast
  then have rest: "tasks_in (tasksWaitingList ws) = {#}" "preloadedTasks ws = []"
    using ws(2) by (simp_all add: heap_list.everything_def unless_empty)
  obtain cfg st0 st where st: "sender_New standard_sender_merge None 0 bare_world (no_senders bare_world) = Some (cfg, st0)"
    "proper_run st0 [Delivers 0 sample_task, ConsumeStarts 0 1, Consumes 0 1 sample_task, CallsConfirm 1] st"
    "tasksReadyToSend (services st 0) = []" "buffered (taskBuffer (services st 0)) = []"
    "toConfirm (services st 0) = [sample_task]" by (rule sample_confirmed)
  let ?sl = "[Delivers 0 sample_task, ConsumeStarts 0 1, Consumes 0 1 sample_task, CallsConfirm 1]"
  have sl: "delivered ?sl = map snd (readyToSend ws)" "held ?sl = {#}" by (simp_all add: delivered_def held_def ws(2))
  have pl: "sent_tasks [Sends sample_task] = toConfirm (services st 0)" "1 \<le> (5 :: int)" "Ends \<notin> set [Sends sample_task]"
    by (simp_all add: sent_tasks_def st(5))
  note e2e = due_tasks_are_executed_once [OF h pass(1) [unfolded ks] b ws(1) ls rest st(1,2) sl st(3,4)
      sample_send [where t = sample_task and w = "bunch_world b"] pl]
  then have "set (toConfirm (services st 0)) = due_tasks 105 [''a'' \<mapsto> 50]" unfolding T sample_stored by blast
  moreover from e2e obtain ms q where "pipeline_run ?TM 1000 (pipeline_start 5 (bunch_world b)) ([Sends sample_task] @ ms) q"
    "mset (concat (map fst (results q))) = mset (toConfirm (services st 0))" by blast
  then have "pipeline_run ?TM 1000 (pipeline_start 5 (bunch_world b)) (Sends sample_task # ms) q"
    "mset (concat (map fst (results q))) = {#sample_task#}" by (simp_all only: st(5) append_Cons append_Nil mset.simps)
  ultimately show ?thesis using st(1,2) by blast
qed

end
